theory Spec2Isabelle
  imports Main "HOL-Library.Word"
begin

section \<open>Virtual-memory manager: shared-pool and partitioned engines\<close>

text \<open>
  The repository holds two simulators of demand paging, \<^verbatim>\<open>global.cpp\<close> (one frame
  pool shared by four processes) and \<^verbatim>\<open>local.cpp\<close> (the pool split into four
  equal partitions).  Both files declare classes of the same names; the embedding
  prefixes the shared-pool engine with \<open>G_\<close> and the partitioned engine with \<open>L_\<close>.

  Representation choices, the same for both engines:
  \<^item> a process id is the C++ \<^verbatim>\<open>int\<close>, modelled as \<open>int\<close>; the marker of a free frame
    is the pair \<open>(-1, 0)\<close>, as in the source;
  \<^item> a page number is the C++ \<^verbatim>\<open>uint64_t\<close>, modelled as \<open>64 word\<close>;
  \<^item> a frame index that is used to subscript a vector is a \<open>nat\<close>; the sentinel
    \<^verbatim>\<open>-1\<close> ("no frame") of \<^verbatim>\<open>allocateFrame\<close> and of \<^verbatim>\<open>farthest_frame\<close> is \<open>None\<close>;
  \<^item> every subscript outside its vector, \<^verbatim>\<open>front()\<close> of an empty list and a
    modulus by zero are undefined behaviour in C++ and are an \<open>error\<close> value here;
  \<^item> the fault counters and loop indices are C++ \<^verbatim>\<open>int\<close>; they never exceed the
    length of the trace, so they are modelled as unbounded numbers;
  \<^item> \<^verbatim>\<open>rand()\<close> is a sequence \<open>rnd :: nat \<Rightarrow> nat\<close> of draws together with the
    number of draws made so far.
\<close>

datatype error = PidOutOfRange | FrameOutOfRange | EmptyLruList | ModByZero | BadAlloc

type_synonym entry = "int \<times> 64 word"

record PageTable =
  page_to_frame :: "64 word \<rightharpoonup> nat"
  process_id :: int
  page_fault_count :: int

definition PageTable_init :: "int \<Rightarrow> PageTable" where
  "PageTable_init pid = \<lparr>page_to_frame = Map.empty, process_id = pid, page_fault_count = 0\<rparr>"

subsection \<open>The shared-pool engine (global.cpp)\<close>

record G_FrameStatus =
  g_isEmpty :: bool
  g_memoryFrames :: nat
  g_memory :: "entry list"
  g_nextFrame :: nat
  g_lru_list :: "nat list"

definition G_FrameStatus_init :: "int \<Rightarrow> error + G_FrameStatus" where
  "G_FrameStatus_init memoryF =
     (if memoryF < 0 then Inl BadAlloc
      else Inr \<lparr>g_isEmpty = True, g_memoryFrames = nat memoryF,
                g_memory = replicate (nat memoryF) (-1, 0),
                g_nextFrame = 0, g_lru_list = []\<rparr>)"

definition G_allocateFrame ::
  "int \<Rightarrow> 64 word \<Rightarrow> G_FrameStatus \<Rightarrow> error + (nat option \<times> G_FrameStatus)" where
  "G_allocateFrame pid page_number fs =
     (if \<not> g_nextFrame fs < length (g_memory fs) then Inl FrameOutOfRange
      else if fst (g_memory fs ! g_nextFrame fs) = -1 then
        (if g_memoryFrames fs = 0 then Inl ModByZero
         else Inr (Some (g_nextFrame fs),
                fs\<lparr>g_memory := (g_memory fs)[g_nextFrame fs := (pid, page_number)],
                   g_lru_list := g_lru_list fs @ [g_nextFrame fs],
                   g_nextFrame := (g_nextFrame fs + 1) mod g_memoryFrames fs\<rparr>))
      else Inr (None, fs))"

definition G_releaseFrame :: "nat \<Rightarrow> G_FrameStatus \<Rightarrow> error + G_FrameStatus" where
  "G_releaseFrame frame_id fs =
     (if \<not> frame_id < length (g_memory fs) then Inl FrameOutOfRange
      else Inr (fs\<lparr>g_memory := (g_memory fs)[frame_id := (-1, 0)],
                   g_lru_list := removeAll frame_id (g_lru_list fs)\<rparr>))"

definition G_fifoReplacement ::
  "int \<Rightarrow> 64 word \<Rightarrow> G_FrameStatus \<Rightarrow> error + ((int \<times> 64 word \<times> nat) \<times> G_FrameStatus)" where
  "G_fifoReplacement pid page_number fs =
     (let frame_id = g_nextFrame fs in
      if \<not> frame_id < length (g_memory fs) then Inl FrameOutOfRange
      else
        let old_pid = fst (g_memory fs ! frame_id);
            old_page_no = snd (g_memory fs ! frame_id)
        in case G_releaseFrame frame_id fs of
             Inl e \<Rightarrow> Inl e
           | Inr fs1 \<Rightarrow>
               if g_memoryFrames fs1 = 0 then Inl ModByZero
               else
                 let fs2 = fs1\<lparr>g_nextFrame := (g_nextFrame fs1 + 1) mod g_memoryFrames fs1\<rparr>
                 in Inr ((old_pid, old_page_no, frame_id),
                         fs2\<lparr>g_memory := (g_memory fs2)[frame_id := (pid, page_number)]\<rparr>))"

definition G_lruReplacement ::
  "int \<Rightarrow> 64 word \<Rightarrow> G_FrameStatus \<Rightarrow> error + ((int \<times> 64 word \<times> nat) \<times> G_FrameStatus)" where
  "G_lruReplacement pid page_number fs =
     (case g_lru_list fs of
        [] \<Rightarrow> Inl EmptyLruList
      | frame_id # rest \<Rightarrow>
         (let fs0 = fs\<lparr>g_lru_list := rest\<rparr> in
          if \<not> frame_id < length (g_memory fs0) then Inl FrameOutOfRange
          else
            let old_pid = fst (g_memory fs0 ! frame_id);
                old_page_no = snd (g_memory fs0 ! frame_id)
            in (case G_releaseFrame frame_id fs0 of
                 Inl e \<Rightarrow> Inl e
               | Inr fs1 \<Rightarrow>
                   Inr ((old_pid, old_page_no, frame_id),
                        fs1\<lparr>g_memory := (g_memory fs1)[frame_id := (pid, page_number)],
                            g_lru_list := g_lru_list fs1 @ [frame_id]\<rparr>))))"

text \<open>
  The inner loop of \<^verbatim>\<open>optimalReplacement\<close>: the first index \<open>j\<close>, from \<open>j0\<close> on, at
  which the trace holds exactly the given process id and page number.  The first
  argument is the part of the trace from position \<open>j0\<close> on.
\<close>

fun scan_future :: "entry list \<Rightarrow> nat \<Rightarrow> int \<Rightarrow> 64 word \<Rightarrow> nat option" where
  "scan_future [] j frame_pid frame_page = None"
| "scan_future (x # xs) j frame_pid frame_page =
     (if fst x = frame_pid \<and> snd x = frame_page then Some j
      else scan_future xs (Suc j) frame_pid frame_page)"

text \<open>
  The outer loop of \<^verbatim>\<open>optimalReplacement\<close> over the frame indices still to visit.
  The accumulator is \<open>(farthest_frame, farthest_index, old_pid, old_page_no)\<close>; a
  frame with no future use ends the loop at once (\<^verbatim>\<open>break\<close>).
\<close>

fun optimal_loop ::
  "entry list \<Rightarrow> entry list \<Rightarrow> nat \<Rightarrow> nat list \<Rightarrow> (nat option \<times> int \<times> int \<times> 64 word)
     \<Rightarrow> error + (nat option \<times> int \<times> int \<times> 64 word)" where
  "optimal_loop mem trace current_index [] acc = Inr acc"
| "optimal_loop mem trace current_index (i # is) (farthest_frame, farthest_index, old_pid, old_page_no) =
     (if \<not> i < length mem then Inl FrameOutOfRange
      else
        let frame_pid = fst (mem ! i); frame_page = snd (mem ! i)
        in case scan_future (drop (Suc current_index) trace) (Suc current_index) frame_pid frame_page of
             Some j \<Rightarrow>
               if farthest_index < int j
               then optimal_loop mem trace current_index is (Some i, int j, frame_pid, frame_page)
               else optimal_loop mem trace current_index is (farthest_frame, farthest_index, old_pid, old_page_no)
           | None \<Rightarrow> Inr (Some i, farthest_index, frame_pid, frame_page))"

definition G_optimalReplacement ::
  "int \<Rightarrow> 64 word \<Rightarrow> entry list \<Rightarrow> nat \<Rightarrow> G_FrameStatus
     \<Rightarrow> error + ((int \<times> 64 word \<times> nat) \<times> G_FrameStatus)" where
  "G_optimalReplacement pid page_number trace current_index fs =
     (case optimal_loop (g_memory fs) trace current_index [0 ..< g_memoryFrames fs] (None, -1, -1, -1) of
        Inl e \<Rightarrow> Inl e
      | Inr (None, _, _, _) \<Rightarrow> Inl FrameOutOfRange
      | Inr (Some farthest_frame, _, old_pid, old_page_no) \<Rightarrow>
          (case G_releaseFrame farthest_frame fs of
             Inl e \<Rightarrow> Inl e
           | Inr fs1 \<Rightarrow>
               Inr ((old_pid, old_page_no, farthest_frame),
                    fs1\<lparr>g_memory := (g_memory fs1)[farthest_frame := (pid, page_number)]\<rparr>)))"

text \<open>\<^verbatim>\<open>randomReplacement\<close>; the argument \<open>r\<close> is the value \<^verbatim>\<open>rand()\<close> returns.\<close>

definition G_randomReplacement ::
  "nat \<Rightarrow> int \<Rightarrow> 64 word \<Rightarrow> G_FrameStatus \<Rightarrow> error + ((int \<times> 64 word \<times> nat) \<times> G_FrameStatus)" where
  "G_randomReplacement r pid page_number fs =
     (if g_memoryFrames fs = 0 then Inl ModByZero
      else
        let random_frame = r mod g_memoryFrames fs in
        if \<not> random_frame < length (g_memory fs) then Inl FrameOutOfRange
        else
          let old_pid = fst (g_memory fs ! random_frame);
              old_page_no = snd (g_memory fs ! random_frame)
          in case G_releaseFrame random_frame fs of
               Inl e \<Rightarrow> Inl e
             | Inr fs1 \<Rightarrow>
                 Inr ((old_pid, old_page_no, random_frame),
                      fs1\<lparr>g_memory := (g_memory fs1)[random_frame := (pid, page_number)]\<rparr>))"

definition G_updateLRU :: "nat \<Rightarrow> G_FrameStatus \<Rightarrow> G_FrameStatus" where
  "G_updateLRU frame_id fs = fs\<lparr>g_lru_list := removeAll frame_id (g_lru_list fs) @ [frame_id]\<rparr>"

record G_VirtualMemoryManager =
  g_page_size :: int
  g_num_frames :: int
  g_replacement_policy :: string
  g_page_tables :: "PageTable list"
  g_frame_status :: G_FrameStatus
  g_global_page_fault_count :: int
  g_rand_calls :: nat

definition G_VirtualMemoryManager_init :: "int \<Rightarrow> int \<Rightarrow> string \<Rightarrow> error + G_VirtualMemoryManager" where
  "G_VirtualMemoryManager_init ps nf policy =
     (case G_FrameStatus_init nf of
        Inl e \<Rightarrow> Inl e
      | Inr fs \<Rightarrow>
          Inr \<lparr>g_page_size = ps, g_num_frames = nf, g_replacement_policy = policy,
               g_page_tables = map PageTable_init [0, 1, 2, 3],
               g_frame_status = fs, g_global_page_fault_count = 0, g_rand_calls = 0\<rparr>)"

text \<open>
  The two statements every eviction branch of \<^verbatim>\<open>handleAccess\<close> ends with:
  \<^verbatim>\<open>page_tables[old_pid].page_to_frame.erase(old_page_no)\<close> and
  \<^verbatim>\<open>page_tables[process_id].page_to_frame[page_number] = evicted_frame\<close>.
\<close>

definition erase_page :: "PageTable list \<Rightarrow> int \<Rightarrow> 64 word \<Rightarrow> error + PageTable list" where
  "erase_page pts old_pid old_page_no =
     (if \<not> (0 \<le> old_pid \<and> old_pid < int (length pts)) then Inl PidOutOfRange
      else Inr (pts[nat old_pid :=
                  (pts ! nat old_pid)\<lparr>page_to_frame := (page_to_frame (pts ! nat old_pid))(old_page_no := None)\<rparr>]))"

definition store_page :: "PageTable list \<Rightarrow> int \<Rightarrow> 64 word \<Rightarrow> nat \<Rightarrow> error + PageTable list" where
  "store_page pts pid page_number frame =
     (if \<not> (0 \<le> pid \<and> pid < int (length pts)) then Inl PidOutOfRange
      else Inr (pts[nat pid :=
                  (pts ! nat pid)\<lparr>page_to_frame := (page_to_frame (pts ! nat pid))(page_number \<mapsto> frame)\<rparr>]))"

definition evict_update ::
  "PageTable list \<Rightarrow> int \<Rightarrow> 64 word \<Rightarrow> int \<Rightarrow> 64 word \<Rightarrow> nat \<Rightarrow> error + PageTable list" where
  "evict_update pts old_pid old_page_no pid page_number evicted_frame =
     (case erase_page pts old_pid old_page_no of
        Inl e \<Rightarrow> Inl e
      | Inr pts1 \<Rightarrow> store_page pts1 pid page_number evicted_frame)"

text \<open>The statement \<^verbatim>\<open>page_table.page_fault_count++\<close> on the table of the accessing process.\<close>

definition count_fault :: "PageTable list \<Rightarrow> int \<Rightarrow> PageTable list" where
  "count_fault pts pid =
     pts[nat pid := (pts ! nat pid)\<lparr>page_fault_count := page_fault_count (pts ! nat pid) + 1\<rparr>]"

text \<open>
  The miss branch of \<^verbatim>\<open>handleAccess\<close> once \<^verbatim>\<open>allocateFrame\<close> has returned \<^verbatim>\<open>-1\<close>:
  the chain of string comparisons that selects the replacement routine.
\<close>

definition G_replace ::
  "(nat \<Rightarrow> nat) \<Rightarrow> int \<Rightarrow> 64 word \<Rightarrow> entry list \<Rightarrow> nat \<Rightarrow> G_VirtualMemoryManager
     \<Rightarrow> error + G_VirtualMemoryManager" where
  "G_replace rnd pid page_number trace current_index vm1 =
     (if g_replacement_policy vm1 = ''fifo'' then
        (case G_fifoReplacement pid page_number (g_frame_status vm1) of
           Inl e \<Rightarrow> Inl e
         | Inr ((old_pid, old_page_no, evicted_frame), fs2) \<Rightarrow>
             (case evict_update (g_page_tables vm1) old_pid old_page_no pid page_number evicted_frame of
                Inl e \<Rightarrow> Inl e
              | Inr pts \<Rightarrow> Inr (vm1\<lparr>g_frame_status := fs2, g_page_tables := pts\<rparr>)))
      else if g_replacement_policy vm1 = ''lru'' then
        (case G_lruReplacement pid page_number (g_frame_status vm1) of
           Inl e \<Rightarrow> Inl e
         | Inr ((old_pid, old_page_no, evicted_frame), fs2) \<Rightarrow>
             (case evict_update (g_page_tables vm1) old_pid old_page_no pid page_number evicted_frame of
                Inl e \<Rightarrow> Inl e
              | Inr pts \<Rightarrow> Inr (vm1\<lparr>g_frame_status := fs2, g_page_tables := pts\<rparr>)))
      else if g_replacement_policy vm1 = ''optimal'' then
        (case G_optimalReplacement pid page_number trace current_index (g_frame_status vm1) of
           Inl e \<Rightarrow> Inl e
         | Inr ((old_pid, old_page_no, evicted_frame), fs2) \<Rightarrow>
             (case evict_update (g_page_tables vm1) old_pid old_page_no pid page_number evicted_frame of
                Inl e \<Rightarrow> Inl e
              | Inr pts \<Rightarrow> Inr (vm1\<lparr>g_frame_status := fs2, g_page_tables := pts\<rparr>)))
      else if g_replacement_policy vm1 = ''random'' then
        (case G_randomReplacement (rnd (g_rand_calls vm1)) pid page_number (g_frame_status vm1) of
           Inl e \<Rightarrow> Inl e
         | Inr ((old_pid, old_page_no, evicted_frame), fs2) \<Rightarrow>
             (case evict_update (g_page_tables vm1) old_pid old_page_no pid page_number evicted_frame of
                Inl e \<Rightarrow> Inl e
              | Inr pts \<Rightarrow> Inr (vm1\<lparr>g_frame_status := fs2, g_page_tables := pts,
                                    g_rand_calls := Suc (g_rand_calls vm1)\<rparr>)))
      else Inr vm1)"

definition G_handleAccess ::
  "(nat \<Rightarrow> nat) \<Rightarrow> int \<Rightarrow> 64 word \<Rightarrow> entry list \<Rightarrow> nat \<Rightarrow> G_VirtualMemoryManager
     \<Rightarrow> error + G_VirtualMemoryManager" where
  "G_handleAccess rnd pid page_number trace current_index vm =
     (if \<not> (0 \<le> pid \<and> pid < int (length (g_page_tables vm))) then Inl PidOutOfRange
      else
        let page_table = g_page_tables vm ! nat pid in
        (case page_to_frame page_table page_number of
          Some frame_id \<Rightarrow>
            if g_replacement_policy vm = ''lru''
            then Inr (vm\<lparr>g_frame_status := G_updateLRU frame_id (g_frame_status vm)\<rparr>)
            else Inr vm
        | None \<Rightarrow>
           (let vm1 = vm\<lparr>g_global_page_fault_count := g_global_page_fault_count vm + 1,
                         g_page_tables := count_fault (g_page_tables vm) pid\<rparr>
            in (case G_allocateFrame pid page_number (g_frame_status vm1) of
                 Inl e \<Rightarrow> Inl e
               | Inr (Some frame, fs1) \<Rightarrow>
                   (case store_page (g_page_tables vm1) pid page_number frame of
                      Inl e \<Rightarrow> Inl e
                    | Inr pts \<Rightarrow> Inr (vm1\<lparr>g_frame_status := fs1, g_page_tables := pts\<rparr>))
               | Inr (None, fs1) \<Rightarrow>
                   G_replace rnd pid page_number trace current_index (vm1\<lparr>g_frame_status := fs1\<rparr>)))))"

text \<open>
  The loop of \<^verbatim>\<open>runSimulation\<close>: \<open>G_steps rnd trace i cnt vm\<close> handles the \<open>cnt\<close>
  records at positions \<open>i, i + 1, \<dots>\<close> of the trace, in order, stopping at the first
  error.  \<open>G_runSimulation\<close> takes the trace as \<^verbatim>\<open>loadMemoryTrace\<close> delivers it.
\<close>

fun G_steps ::
  "(nat \<Rightarrow> nat) \<Rightarrow> entry list \<Rightarrow> nat \<Rightarrow> nat \<Rightarrow> G_VirtualMemoryManager \<Rightarrow> error + G_VirtualMemoryManager" where
  "G_steps rnd trace i 0 vm = Inr vm"
| "G_steps rnd trace i (Suc cnt) vm =
     (case G_handleAccess rnd (fst (trace ! i)) (snd (trace ! i)) trace i vm of
        Inl e \<Rightarrow> Inl e
      | Inr vm' \<Rightarrow> G_steps rnd trace (Suc i) cnt vm')"

definition G_run_prefix ::
  "(nat \<Rightarrow> nat) \<Rightarrow> int \<Rightarrow> int \<Rightarrow> string \<Rightarrow> entry list \<Rightarrow> nat \<Rightarrow> error + G_VirtualMemoryManager" where
  "G_run_prefix rnd ps nf policy trace k =
     (case G_VirtualMemoryManager_init ps nf policy of
        Inl e \<Rightarrow> Inl e
      | Inr vm \<Rightarrow> G_steps rnd trace 0 k vm)"

definition G_runSimulation ::
  "(nat \<Rightarrow> nat) \<Rightarrow> int \<Rightarrow> int \<Rightarrow> string \<Rightarrow> entry list \<Rightarrow> error + G_VirtualMemoryManager" where
  "G_runSimulation rnd ps nf policy trace = G_run_prefix rnd ps nf policy trace (length trace)"

subsection \<open>The partitioned engine (local.cpp)\<close>

text \<open>C++ integer division truncates toward zero.\<close>

definition c_div :: "int \<Rightarrow> int \<Rightarrow> int" where
  "c_div a b = (if (a < 0) = (b < 0) then \<bar>a\<bar> div \<bar>b\<bar> else - (\<bar>a\<bar> div \<bar>b\<bar>))"

definition in_range :: "int \<Rightarrow> 'a list \<Rightarrow> bool" where
  "in_range pid xs = (0 \<le> pid \<and> pid < int (length xs))"

record L_FrameStatus =
  l_memoryFramesPerProcess :: nat
  l_memory :: "entry list list"
  l_nextFrame :: "nat list"
  l_lru_list :: "nat list list"

definition L_FrameStatus_init :: "int \<Rightarrow> int \<Rightarrow> error + L_FrameStatus" where
  "L_FrameStatus_init memoryF num_processes =
     (if num_processes = 0 then Inl ModByZero
      else if num_processes < 0 \<or> c_div memoryF num_processes < 0 then Inl BadAlloc
      else Inr \<lparr>l_memoryFramesPerProcess = nat (c_div memoryF num_processes),
                l_memory = replicate (nat num_processes)
                             (replicate (nat (c_div memoryF num_processes)) (-1, 0)),
                l_nextFrame = replicate (nat num_processes) 0,
                l_lru_list = replicate (nat num_processes) []\<rparr>)"

text \<open>The loop of \<^verbatim>\<open>allocateFrame\<close> over the frame indices still to visit.\<close>

fun L_allocate_loop :: "entry list list \<Rightarrow> int \<Rightarrow> nat list \<Rightarrow> error + nat option" where
  "L_allocate_loop mem pid [] = Inr None"
| "L_allocate_loop mem pid (i # is) =
     (if \<not> in_range pid mem then Inl PidOutOfRange
      else if \<not> i < length (mem ! nat pid) then Inl FrameOutOfRange
      else if fst (mem ! nat pid ! i) = -1 then Inr (Some i)
      else L_allocate_loop mem pid is)"

definition L_allocateFrame ::
  "int \<Rightarrow> 64 word \<Rightarrow> L_FrameStatus \<Rightarrow> error + (nat option \<times> L_FrameStatus)" where
  "L_allocateFrame pid page_number fs =
     (case L_allocate_loop (l_memory fs) pid [0 ..< l_memoryFramesPerProcess fs] of
        Inl e \<Rightarrow> Inl e
      | Inr None \<Rightarrow> Inr (None, fs)
      | Inr (Some i) \<Rightarrow>
          if \<not> in_range pid (l_lru_list fs) then Inl PidOutOfRange
          else Inr (Some i,
                 fs\<lparr>l_memory := (l_memory fs)[nat pid := (l_memory fs ! nat pid)[i := (pid, page_number)]],
                    l_lru_list := (l_lru_list fs)[nat pid := l_lru_list fs ! nat pid @ [i]]\<rparr>))"

definition L_releaseFrame :: "int \<Rightarrow> nat \<Rightarrow> L_FrameStatus \<Rightarrow> error + L_FrameStatus" where
  "L_releaseFrame pid frame_id fs =
     (if \<not> in_range pid (l_memory fs) \<or> \<not> in_range pid (l_lru_list fs) then Inl PidOutOfRange
      else if \<not> frame_id < length (l_memory fs ! nat pid) then Inl FrameOutOfRange
      else Inr (fs\<lparr>l_memory := (l_memory fs)[nat pid := (l_memory fs ! nat pid)[frame_id := (-1, 0)]],
                   l_lru_list := (l_lru_list fs)[nat pid := removeAll frame_id (l_lru_list fs ! nat pid)]\<rparr>))"

definition L_fifoReplacement ::
  "int \<Rightarrow> 64 word \<Rightarrow> L_FrameStatus \<Rightarrow> error + ((int \<times> 64 word \<times> nat) \<times> L_FrameStatus)" where
  "L_fifoReplacement pid page_number fs =
     (if \<not> in_range pid (l_nextFrame fs) \<or> \<not> in_range pid (l_memory fs) then Inl PidOutOfRange
      else
        let frame_id = l_nextFrame fs ! nat pid in
        if \<not> frame_id < length (l_memory fs ! nat pid) then Inl FrameOutOfRange
        else
          let old_pid = fst (l_memory fs ! nat pid ! frame_id);
              old_page_no = snd (l_memory fs ! nat pid ! frame_id)
          in (case L_releaseFrame pid frame_id fs of
               Inl e \<Rightarrow> Inl e
             | Inr fs1 \<Rightarrow>
                 if l_memoryFramesPerProcess fs1 = 0 then Inl ModByZero
                 else
                   let fs2 = fs1\<lparr>l_nextFrame := (l_nextFrame fs1)[nat pid :=
                                  (frame_id + 1) mod l_memoryFramesPerProcess fs1]\<rparr>
                   in Inr ((old_pid, old_page_no, frame_id),
                           fs2\<lparr>l_memory := (l_memory fs2)[nat pid :=
                                  (l_memory fs2 ! nat pid)[frame_id := (pid, page_number)]]\<rparr>)))"

definition L_lruReplacement ::
  "int \<Rightarrow> 64 word \<Rightarrow> L_FrameStatus \<Rightarrow> error + ((int \<times> 64 word \<times> nat) \<times> L_FrameStatus)" where
  "L_lruReplacement pid page_number fs =
     (if \<not> in_range pid (l_lru_list fs) \<or> \<not> in_range pid (l_memory fs) then Inl PidOutOfRange
      else
        (case l_lru_list fs ! nat pid of
           [] \<Rightarrow> Inl EmptyLruList
         | frame_id # rest \<Rightarrow>
            (let fs0 = fs\<lparr>l_lru_list := (l_lru_list fs)[nat pid := rest]\<rparr> in
             if \<not> frame_id < length (l_memory fs0 ! nat pid) then Inl FrameOutOfRange
             else
               let old_pid = fst (l_memory fs0 ! nat pid ! frame_id);
                   old_page_no = snd (l_memory fs0 ! nat pid ! frame_id)
               in (case L_releaseFrame pid frame_id fs0 of
                    Inl e \<Rightarrow> Inl e
                  | Inr fs1 \<Rightarrow>
                      Inr ((old_pid, old_page_no, frame_id),
                           fs1\<lparr>l_memory := (l_memory fs1)[nat pid :=
                                  (l_memory fs1 ! nat pid)[frame_id := (pid, page_number)]],
                               l_lru_list := (l_lru_list fs1)[nat pid :=
                                  l_lru_list fs1 ! nat pid @ [frame_id]]\<rparr>)))))"

definition L_optimalReplacement ::
  "int \<Rightarrow> 64 word \<Rightarrow> entry list \<Rightarrow> nat \<Rightarrow> L_FrameStatus
     \<Rightarrow> error + ((int \<times> 64 word \<times> nat) \<times> L_FrameStatus)" where
  "L_optimalReplacement pid page_number trace current_index fs =
     (if \<not> in_range pid (l_memory fs) then Inl PidOutOfRange
      else
        (case optimal_loop (l_memory fs ! nat pid) trace current_index
                [0 ..< l_memoryFramesPerProcess fs] (None, -1, -1, -1) of
           Inl e \<Rightarrow> Inl e
         | Inr (None, _, _, _) \<Rightarrow> Inl FrameOutOfRange
         | Inr (Some farthest_frame, _, old_pid, old_page_no) \<Rightarrow>
             (case L_releaseFrame pid farthest_frame fs of
                Inl e \<Rightarrow> Inl e
              | Inr fs1 \<Rightarrow>
                  Inr ((old_pid, old_page_no, farthest_frame),
                       fs1\<lparr>l_memory := (l_memory fs1)[nat pid :=
                              (l_memory fs1 ! nat pid)[farthest_frame := (pid, page_number)]]\<rparr>))))"

definition L_randomReplacement ::
  "nat \<Rightarrow> int \<Rightarrow> 64 word \<Rightarrow> L_FrameStatus \<Rightarrow> error + ((int \<times> 64 word \<times> nat) \<times> L_FrameStatus)" where
  "L_randomReplacement r pid page_number fs =
     (if l_memoryFramesPerProcess fs = 0 then Inl ModByZero
      else
        let random_frame = r mod l_memoryFramesPerProcess fs in
        if \<not> in_range pid (l_memory fs) then Inl PidOutOfRange
        else if \<not> random_frame < length (l_memory fs ! nat pid) then Inl FrameOutOfRange
        else
          let old_pid = fst (l_memory fs ! nat pid ! random_frame);
              old_page_no = snd (l_memory fs ! nat pid ! random_frame)
          in (case L_releaseFrame pid random_frame fs of
               Inl e \<Rightarrow> Inl e
             | Inr fs1 \<Rightarrow>
                 Inr ((old_pid, old_page_no, random_frame),
                      fs1\<lparr>l_memory := (l_memory fs1)[nat pid :=
                             (l_memory fs1 ! nat pid)[random_frame := (pid, page_number)]]\<rparr>)))"

record L_VirtualMemoryManager =
  l_page_size :: int
  l_num_frames :: int
  l_replacement_policy :: string
  l_page_tables :: "PageTable list"
  l_frame_status :: L_FrameStatus
  l_global_page_fault_count :: int
  l_rand_calls :: nat

definition L_VirtualMemoryManager_init :: "int \<Rightarrow> int \<Rightarrow> string \<Rightarrow> error + L_VirtualMemoryManager" where
  "L_VirtualMemoryManager_init ps nf policy =
     (case L_FrameStatus_init nf 4 of
        Inl e \<Rightarrow> Inl e
      | Inr fs \<Rightarrow>
          Inr \<lparr>l_page_size = ps, l_num_frames = nf, l_replacement_policy = policy,
               l_page_tables = map PageTable_init [0, 1, 2, 3],
               l_frame_status = fs, l_global_page_fault_count = 0, l_rand_calls = 0\<rparr>)"

definition L_replace ::
  "(nat \<Rightarrow> nat) \<Rightarrow> int \<Rightarrow> 64 word \<Rightarrow> entry list \<Rightarrow> nat \<Rightarrow> L_VirtualMemoryManager
     \<Rightarrow> error + L_VirtualMemoryManager" where
  "L_replace rnd pid page_number trace current_index vm1 =
     (if l_replacement_policy vm1 = ''fifo'' then
        (case L_fifoReplacement pid page_number (l_frame_status vm1) of
           Inl e \<Rightarrow> Inl e
         | Inr ((old_pid, old_page_no, evicted_frame), fs2) \<Rightarrow>
             (case evict_update (l_page_tables vm1) old_pid old_page_no pid page_number evicted_frame of
                Inl e \<Rightarrow> Inl e
              | Inr pts \<Rightarrow> Inr (vm1\<lparr>l_frame_status := fs2, l_page_tables := pts\<rparr>)))
      else if l_replacement_policy vm1 = ''lru'' then
        (case L_lruReplacement pid page_number (l_frame_status vm1) of
           Inl e \<Rightarrow> Inl e
         | Inr ((old_pid, old_page_no, evicted_frame), fs2) \<Rightarrow>
             (case evict_update (l_page_tables vm1) old_pid old_page_no pid page_number evicted_frame of
                Inl e \<Rightarrow> Inl e
              | Inr pts \<Rightarrow> Inr (vm1\<lparr>l_frame_status := fs2, l_page_tables := pts\<rparr>)))
      else if l_replacement_policy vm1 = ''optimal'' then
        (case L_optimalReplacement pid page_number trace current_index (l_frame_status vm1) of
           Inl e \<Rightarrow> Inl e
         | Inr ((old_pid, old_page_no, evicted_frame), fs2) \<Rightarrow>
             (case evict_update (l_page_tables vm1) old_pid old_page_no pid page_number evicted_frame of
                Inl e \<Rightarrow> Inl e
              | Inr pts \<Rightarrow> Inr (vm1\<lparr>l_frame_status := fs2, l_page_tables := pts\<rparr>)))
      else if l_replacement_policy vm1 = ''random'' then
        (case L_randomReplacement (rnd (l_rand_calls vm1)) pid page_number (l_frame_status vm1) of
           Inl e \<Rightarrow> Inl e
         | Inr ((old_pid, old_page_no, evicted_frame), fs2) \<Rightarrow>
             (case evict_update (l_page_tables vm1) old_pid old_page_no pid page_number evicted_frame of
                Inl e \<Rightarrow> Inl e
              | Inr pts \<Rightarrow> Inr (vm1\<lparr>l_frame_status := fs2, l_page_tables := pts,
                                    l_rand_calls := Suc (l_rand_calls vm1)\<rparr>)))
      else Inr vm1)"

definition L_handleAccess ::
  "(nat \<Rightarrow> nat) \<Rightarrow> int \<Rightarrow> 64 word \<Rightarrow> entry list \<Rightarrow> nat \<Rightarrow> L_VirtualMemoryManager
     \<Rightarrow> error + L_VirtualMemoryManager" where
  "L_handleAccess rnd pid page_number trace current_index vm =
     (if \<not> in_range pid (l_page_tables vm) then Inl PidOutOfRange
      else
        let page_table = l_page_tables vm ! nat pid in
        (case page_to_frame page_table page_number of
          Some frame_id \<Rightarrow>
            if l_replacement_policy vm = ''lru'' then
              (if \<not> in_range pid (l_lru_list (l_frame_status vm)) then Inl PidOutOfRange
               else Inr (vm\<lparr>l_frame_status := (l_frame_status vm)
                           \<lparr>l_lru_list := (l_lru_list (l_frame_status vm))[nat pid :=
                               removeAll frame_id (l_lru_list (l_frame_status vm) ! nat pid) @ [frame_id]]\<rparr>\<rparr>))
            else Inr vm
        | None \<Rightarrow>
           (let vm1 = vm\<lparr>l_global_page_fault_count := l_global_page_fault_count vm + 1,
                         l_page_tables := count_fault (l_page_tables vm) pid\<rparr>
            in (case L_allocateFrame pid page_number (l_frame_status vm1) of
                 Inl e \<Rightarrow> Inl e
               | Inr (Some frame, fs1) \<Rightarrow>
                   (case store_page (l_page_tables vm1) pid page_number frame of
                      Inl e \<Rightarrow> Inl e
                    | Inr pts \<Rightarrow> Inr (vm1\<lparr>l_frame_status := fs1, l_page_tables := pts\<rparr>))
               | Inr (None, fs1) \<Rightarrow>
                   L_replace rnd pid page_number trace current_index (vm1\<lparr>l_frame_status := fs1\<rparr>)))))"

fun L_steps ::
  "(nat \<Rightarrow> nat) \<Rightarrow> entry list \<Rightarrow> nat \<Rightarrow> nat \<Rightarrow> L_VirtualMemoryManager \<Rightarrow> error + L_VirtualMemoryManager" where
  "L_steps rnd trace i 0 vm = Inr vm"
| "L_steps rnd trace i (Suc cnt) vm =
     (case L_handleAccess rnd (fst (trace ! i)) (snd (trace ! i)) trace i vm of
        Inl e \<Rightarrow> Inl e
      | Inr vm' \<Rightarrow> L_steps rnd trace (Suc i) cnt vm')"

definition L_run_prefix ::
  "(nat \<Rightarrow> nat) \<Rightarrow> int \<Rightarrow> int \<Rightarrow> string \<Rightarrow> entry list \<Rightarrow> nat \<Rightarrow> error + L_VirtualMemoryManager" where
  "L_run_prefix rnd ps nf policy trace k =
     (case L_VirtualMemoryManager_init ps nf policy of
        Inl e \<Rightarrow> Inl e
      | Inr vm \<Rightarrow> L_steps rnd trace 0 k vm)"

definition L_runSimulation ::
  "(nat \<Rightarrow> nat) \<Rightarrow> int \<Rightarrow> int \<Rightarrow> string \<Rightarrow> entry list \<Rightarrow> error + L_VirtualMemoryManager" where
  "L_runSimulation rnd ps nf policy trace = L_run_prefix rnd ps nf policy trace (length trace)"

section \<open>Observations and inputs used by the properties\<close>

text \<open>The global fault counter a run prints, or the error that stopped the run.\<close>

definition G_faults :: "error + G_VirtualMemoryManager \<Rightarrow> error + int" where
  "G_faults r = (case r of Inl e \<Rightarrow> Inl e | Inr vm \<Rightarrow> Inr (g_global_page_fault_count vm))"

definition L_faults :: "error + L_VirtualMemoryManager \<Rightarrow> error + int" where
  "L_faults r = (case r of Inl e \<Rightarrow> Inl e | Inr vm \<Rightarrow> Inr (l_global_page_fault_count vm))"

text \<open>The page sequence of the Belady regression check, accessed by one process.\<close>

definition belady_trace :: "int \<Rightarrow> entry list" where
  "belady_trace pid = map (\<lambda>page. (pid, page)) [1, 2, 3, 4, 1, 2, 5, 1, 2, 3, 4, 5]"

section \<open>Well-formedness of simulator states\<close>

text \<open>The four page tables are indexed by the process ids 0 to 3.\<close>

definition valid_pid :: "int \<Rightarrow> bool" where
  "valid_pid P = (0 \<le> P \<and> P < 4)"

definition pt_lookup :: "PageTable list \<Rightarrow> int \<Rightarrow> 64 word \<Rightarrow> nat option" where
  "pt_lookup pts P p = page_to_frame (pts ! nat P) p"

definition pt_faults :: "PageTable list \<Rightarrow> int \<Rightarrow> int" where
  "pt_faults pts P = page_fault_count (pts ! nat P)"

text \<open>A frame is free when it holds the marker process id \<open>-1\<close>.\<close>

definition is_free :: "entry \<Rightarrow> bool" where
  "is_free e = (fst e = -1)"

definition region_full :: "entry list \<Rightarrow> bool" where
  "region_full mem = list_all (\<lambda>e. \<not> is_free e) mem"

definition entries_ok :: "entry list \<Rightarrow> bool" where
  "entries_ok mem = (\<forall>f < length mem. is_free (mem ! f) \<or> valid_pid (fst (mem ! f)))"

definition G_fs_wf :: "G_FrameStatus \<Rightarrow> bool" where
  "G_fs_wf fs = (0 < g_memoryFrames fs \<and> length (g_memory fs) = g_memoryFrames fs \<and>
                 g_nextFrame fs < g_memoryFrames fs)"

text \<open>
  The occupancy bijection of the shared pool: the table of process \<open>P\<close> sends page \<open>p\<close>
  to frame \<open>f\<close> exactly when frame \<open>f\<close> of the pool holds \<open>(P, p)\<close>.
\<close>

definition G_bijection :: "G_VirtualMemoryManager \<Rightarrow> bool" where
  "G_bijection vm =
     (\<forall>P p f. valid_pid P \<longrightarrow>
        (pt_lookup (g_page_tables vm) P p = Some f) =
        (f < length (g_memory (g_frame_status vm)) \<and> g_memory (g_frame_status vm) ! f = (P, p)))"

text \<open>
  Frames are handed out in index order and never given back: the pool is either full,
  or its free frames are exactly those from the cursor on.
\<close>

definition G_fill :: "G_FrameStatus \<Rightarrow> bool" where
  "G_fill fs =
     (region_full (g_memory fs) \<or>
      (\<forall>f < length (g_memory fs). is_free (g_memory fs ! f) = (g_nextFrame fs \<le> f)))"

definition G_lru_ok :: "G_VirtualMemoryManager \<Rightarrow> bool" where
  "G_lru_ok vm =
     (g_replacement_policy vm = ''lru'' \<longrightarrow>
        distinct (g_lru_list (g_frame_status vm)) \<and>
        set (g_lru_list (g_frame_status vm)) =
          {f. f < length (g_memory (g_frame_status vm)) \<and> \<not> is_free (g_memory (g_frame_status vm) ! f)})"

definition sum_faults :: "PageTable list \<Rightarrow> int" where
  "sum_faults pts = pt_faults pts 0 + pt_faults pts 1 + pt_faults pts 2 + pt_faults pts 3"

definition G_inv :: "G_VirtualMemoryManager \<Rightarrow> bool" where
  "G_inv vm =
     (G_fs_wf (g_frame_status vm) \<and> length (g_page_tables vm) = 4 \<and> G_bijection vm \<and>
      entries_ok (g_memory (g_frame_status vm)) \<and> G_fill (g_frame_status vm) \<and> G_lru_ok vm \<and>
      g_global_page_fault_count vm = sum_faults (g_page_tables vm))"

section \<open>The optimal victim, in the words of the specification\<close>

text \<open>
  The next future access: the first position after \<open>ci\<close> at which the trace holds
  exactly the entry \<open>e\<close>, if there is one.
\<close>

definition next_access :: "entry list \<Rightarrow> nat \<Rightarrow> entry \<Rightarrow> nat option" where
  "next_access trace ci e = find (\<lambda>j. trace ! j = e) [Suc ci ..< length trace]"

text \<open>
  The victim the specification describes: the first frame, in ascending index order,
  whose occupant is never accessed again; if every occupant is accessed again, the
  (first) frame whose next access is farthest in the future.
\<close>

definition spec_optimal_victim :: "entry list \<Rightarrow> entry list \<Rightarrow> nat \<Rightarrow> nat option" where
  "spec_optimal_victim mem trace ci =
     (case find (\<lambda>i. next_access trace ci (mem ! i) = None) [0 ..< length mem] of
        Some i \<Rightarrow> Some i
      | None \<Rightarrow>
          find (\<lambda>i. list_all (\<lambda>k. the (next_access trace ci (mem ! k)) \<le> the (next_access trace ci (mem ! i)))
                      [0 ..< length mem])
               [0 ..< length mem])"

definition known_policy :: "string \<Rightarrow> bool" where
  "known_policy policy = (policy = ''fifo'' \<or> policy = ''lru'' \<or> policy = ''optimal'' \<or> policy = ''random'')"

text \<open>
  The replacement routine \<^verbatim>\<open>handleAccess\<close> calls for each of the four recognised
  policy strings (a proof device that lets the four branches be treated alike).
\<close>

definition G_policy_routine ::
  "(nat \<Rightarrow> nat) \<Rightarrow> int \<Rightarrow> 64 word \<Rightarrow> entry list \<Rightarrow> nat \<Rightarrow> G_VirtualMemoryManager
     \<Rightarrow> error + ((int \<times> 64 word \<times> nat) \<times> G_FrameStatus)" where
  "G_policy_routine rnd pid pg tr i vm =
     (if g_replacement_policy vm = ''fifo'' then G_fifoReplacement pid pg (g_frame_status vm)
      else if g_replacement_policy vm = ''lru'' then G_lruReplacement pid pg (g_frame_status vm)
      else if g_replacement_policy vm = ''optimal'' then G_optimalReplacement pid pg tr i (g_frame_status vm)
      else G_randomReplacement (rnd (g_rand_calls vm)) pid pg (g_frame_status vm))"

subsection \<open>Well-formed states of the partitioned engine\<close>

definition L_fs_wf :: "L_FrameStatus \<Rightarrow> bool" where
  "L_fs_wf fs =
     (0 < l_memoryFramesPerProcess fs \<and> length (l_memory fs) = 4 \<and>
      length (l_nextFrame fs) = 4 \<and> length (l_lru_list fs) = 4 \<and>
      (\<forall>P. valid_pid P \<longrightarrow>
         length (l_memory fs ! nat P) = l_memoryFramesPerProcess fs \<and>
         l_nextFrame fs ! nat P < l_memoryFramesPerProcess fs))"

text \<open>
  The occupancy bijection of the partitioned pool: the table of process \<open>P\<close> sends page
  \<open>p\<close> to index \<open>f\<close> exactly when frame \<open>f\<close> of the partition of \<open>P\<close> holds \<open>(P, p)\<close>.
\<close>

definition L_bijection :: "L_VirtualMemoryManager \<Rightarrow> bool" where
  "L_bijection vm =
     (\<forall>P p f. valid_pid P \<longrightarrow>
        (pt_lookup (l_page_tables vm) P p = Some f) =
        (f < length (l_memory (l_frame_status vm) ! nat P) \<and>
         l_memory (l_frame_status vm) ! nat P ! f = (P, p)))"

text \<open>A partition holds only pages of its owner.\<close>

definition L_entries_ok :: "L_FrameStatus \<Rightarrow> bool" where
  "L_entries_ok fs =
     (\<forall>P f. valid_pid P \<and> f < length (l_memory fs ! nat P) \<longrightarrow>
        is_free (l_memory fs ! nat P ! f) \<or> fst (l_memory fs ! nat P ! f) = P)"

text \<open>
  A partition is either full, or its cursor is still 0 and its occupied frames are an
  initial segment of it.
\<close>

definition L_fill :: "L_FrameStatus \<Rightarrow> bool" where
  "L_fill fs =
     (\<forall>P. valid_pid P \<longrightarrow>
        region_full (l_memory fs ! nat P) \<or>
        (l_nextFrame fs ! nat P = 0 \<and>
         (\<exists>k. \<forall>f < length (l_memory fs ! nat P). is_free (l_memory fs ! nat P ! f) = (k \<le> f))))"

definition L_lru_ok :: "L_VirtualMemoryManager \<Rightarrow> bool" where
  "L_lru_ok vm =
     (l_replacement_policy vm = ''lru'' \<longrightarrow>
        (\<forall>P. valid_pid P \<longrightarrow>
           distinct (l_lru_list (l_frame_status vm) ! nat P) \<and>
           set (l_lru_list (l_frame_status vm) ! nat P) =
             {f. f < length (l_memory (l_frame_status vm) ! nat P) \<and>
                 \<not> is_free (l_memory (l_frame_status vm) ! nat P ! f)}))"

definition L_inv :: "L_VirtualMemoryManager \<Rightarrow> bool" where
  "L_inv vm =
     (L_fs_wf (l_frame_status vm) \<and> length (l_page_tables vm) = 4 \<and> L_bijection vm \<and>
      L_entries_ok (l_frame_status vm) \<and> L_fill (l_frame_status vm) \<and> L_lru_ok vm \<and>
      l_global_page_fault_count vm = sum_faults (l_page_tables vm))"

definition L_policy_routine ::
  "(nat \<Rightarrow> nat) \<Rightarrow> int \<Rightarrow> 64 word \<Rightarrow> entry list \<Rightarrow> nat \<Rightarrow> L_VirtualMemoryManager
     \<Rightarrow> error + ((int \<times> 64 word \<times> nat) \<times> L_FrameStatus)" where
  "L_policy_routine rnd pid pg tr i vm =
     (if l_replacement_policy vm = ''fifo'' then L_fifoReplacement pid pg (l_frame_status vm)
      else if l_replacement_policy vm = ''lru'' then L_lruReplacement pid pg (l_frame_status vm)
      else if l_replacement_policy vm = ''optimal'' then L_optimalReplacement pid pg tr i (l_frame_status vm)
      else L_randomReplacement (rnd (l_rand_calls vm)) pid pg (l_frame_status vm))"

text \<open>
  A small trace used to instantiate the theorems: process 0 touches one page, process 1
  touches four pages, then process 0 returns to its page.
\<close>

definition sample_trace :: "entry list" where
  "sample_trace = [(0, 1), (1, 1), (1, 2), (1, 3), (1, 4), (0, 1)]"

text \<open>The frame contents a run ends with (the empty list when the run stops with an error).\<close>

definition G_frames :: "error + G_VirtualMemoryManager \<Rightarrow> entry list" where
  "G_frames r = (case r of Inl e \<Rightarrow> [] | Inr vm \<Rightarrow> g_memory (g_frame_status vm))"

definition L_frames :: "error + L_VirtualMemoryManager \<Rightarrow> entry list list" where
  "L_frames r = (case r of Inl e \<Rightarrow> [] | Inr vm \<Rightarrow> l_memory (l_frame_status vm))"

text \<open>
  The allocation scan in the words of the specification: the first free frame of the
  region, looking at the indices in ascending order from the rotation cursor (and then,
  wrapping round, at those below the cursor).
\<close>

definition spec_allocate :: "entry list \<Rightarrow> nat \<Rightarrow> nat option" where
  "spec_allocate region cursor =
     find (\<lambda>f. is_free (region ! f)) ([cursor ..< length region] @ [0 ..< cursor])"

text \<open>The rotation cursors a run ends with.\<close>

definition G_cursor :: "error + G_VirtualMemoryManager \<Rightarrow> nat" where
  "G_cursor r = (case r of Inl e \<Rightarrow> 0 | Inr vm \<Rightarrow> g_nextFrame (g_frame_status vm))"

definition L_cursors :: "error + L_VirtualMemoryManager \<Rightarrow> nat list" where
  "L_cursors r = (case r of Inl e \<Rightarrow> [] | Inr vm \<Rightarrow> l_nextFrame (l_frame_status vm))"

text \<open>
  A trace for the optimal policy: one process touches five pages and then returns to the
  first one.
\<close>

definition optimal_trace :: "entry list" where
  "optimal_trace = [(0, 1), (0, 2), (0, 3), (0, 4), (0, 5), (0, 1)]"

section \<open>Age of a frame\<close>

text \<open>
  \<open>assigned_at mems k f\<close> is the age stamp of frame \<open>f\<close> after \<open>k\<close> accesses, read off the
  history \<open>mems\<close> of the region (\<open>mems j\<close> is the region after \<open>j\<close> accesses): \<open>Suc j\<close> when
  the access at position \<open>j\<close> was the last one to change the occupant of \<open>f\<close>, and \<open>0\<close>
  when no access has changed it.  The oldest-assigned frame is the one with the least
  stamp.
\<close>

fun assigned_at :: "(nat \<Rightarrow> entry list) \<Rightarrow> nat \<Rightarrow> nat \<Rightarrow> nat" where
  "assigned_at mems 0 f = 0"
| "assigned_at mems (Suc j) f =
     (if mems (Suc j) ! f \<noteq> mems j ! f then Suc j else assigned_at mems j f)"

text \<open>The distance of frame \<open>f\<close> from the cursor \<open>c\<close>, going round a region of \<open>n\<close> frames.\<close>

definition cyc_rank :: "nat \<Rightarrow> nat \<Rightarrow> nat \<Rightarrow> nat" where
  "cyc_rank n c f = (if c \<le> f then f - c else f + n - c)"

text \<open>
  The invariant behind first-in-first-out: in a full region the stamps grow going round
  from the cursor; in a region that is not yet full the occupied frames are an initial
  segment and their stamps grow with the index.
\<close>

definition oldest_inv :: "(nat \<Rightarrow> nat) \<Rightarrow> entry list \<Rightarrow> nat \<Rightarrow> bool" where
  "oldest_inv A mem c =
     (if region_full mem
      then (\<forall>f g. f < length mem \<and> g < length mem \<and>
                  cyc_rank (length mem) c f \<le> cyc_rank (length mem) c g \<longrightarrow> A f \<le> A g)
      else (\<exists>k0. (\<forall>f < length mem. is_free (mem ! f) = (k0 \<le> f)) \<and>
                 (\<forall>f g. f \<le> g \<and> g < k0 \<longrightarrow> A f \<le> A g)))"

section \<open>Paging in the abstract\<close>

text \<open>
  To compare fault counts, a run is abstracted to the set of resident pages.  Pages are
  grouped into regions by \<open>reg\<close>, and every region holds at most \<open>cap\<close> pages (one region
  for the shared pool, one region per process for the partitioned pool).

  \<open>nxt x \<sigma>\<close> is the distance to the next request of \<open>x\<close> in \<open>\<sigma>\<close>, and the length of \<open>\<sigma>\<close>
  when \<open>x\<close> is not requested again.
\<close>

definition nxt :: "'p \<Rightarrow> 'p list \<Rightarrow> nat" where
  "nxt x \<sigma> = length (takeWhile (\<lambda>y. y \<noteq> x) \<sigma>)"

definition in_region :: "('p \<Rightarrow> 'r) \<Rightarrow> 'p set \<Rightarrow> 'r \<Rightarrow> 'p set" where
  "in_region reg S \<rho> = {x \<in> S. reg x = \<rho>}"

definition cap_ok :: "('p \<Rightarrow> 'r) \<Rightarrow> nat \<Rightarrow> 'p set \<Rightarrow> bool" where
  "cap_ok reg cap S = (finite S \<and> (\<forall>\<rho>. card (in_region reg S \<rho>) \<le> cap))"

text \<open>
  \<open>can reg cap S \<sigma> k\<close>: some way of serving the requests \<open>\<sigma>\<close> from the resident set \<open>S\<close>
  has at most \<open>k\<close> faults.  A request of a resident page is a hit.  On a fault the page
  is loaded, either into spare room of its region or in place of any resident page of
  its region.
\<close>

fun can :: "('p \<Rightarrow> 'r) \<Rightarrow> nat \<Rightarrow> 'p set \<Rightarrow> 'p list \<Rightarrow> nat \<Rightarrow> bool" where
  "can reg cap S [] k = True"
| "can reg cap S (r # \<sigma>) k =
     (if r \<in> S then can reg cap S \<sigma> k
      else (case k of
              0 \<Rightarrow> False
            | Suc k' \<Rightarrow>
                (card (in_region reg S (reg r)) < cap \<and> can reg cap (insert r S) \<sigma> k') \<or>
                (\<exists>z \<in> S. reg z = reg r \<and> can reg cap (insert r (S - {z})) \<sigma> k')))"

text \<open>
  \<open>opt_run reg cap S \<sigma> k\<close>: serving \<open>\<sigma>\<close> from \<open>S\<close> by the clairvoyant rule has exactly \<open>k\<close>
  faults.  On a fault the page goes into spare room of its region when there is some;
  otherwise it replaces a resident page of its region whose next request is farthest.
\<close>

fun opt_run :: "('p \<Rightarrow> 'r) \<Rightarrow> nat \<Rightarrow> 'p set \<Rightarrow> 'p list \<Rightarrow> nat \<Rightarrow> bool" where
  "opt_run reg cap S [] k = (k = 0)"
| "opt_run reg cap S (r # \<sigma>) k =
     (if r \<in> S then opt_run reg cap S \<sigma> k
      else (case k of
              0 \<Rightarrow> False
            | Suc k' \<Rightarrow>
                if card (in_region reg S (reg r)) < cap then opt_run reg cap (insert r S) \<sigma> k'
                else (\<exists>q \<in> S. reg q = reg r \<and>
                        (\<forall>y \<in> S. reg y = reg r \<longrightarrow> nxt y \<sigma> \<le> nxt q \<sigma>) \<and>
                        opt_run reg cap (insert r (S - {q})) \<sigma> k')))"

text \<open>
  The resident set of a simulator state, read off the page tables: the pairs of a
  process and a page that the table of the process maps to a frame.
\<close>

definition resident :: "PageTable list \<Rightarrow> entry set" where
  "resident pts = {(P, p). valid_pid P \<and> pt_lookup pts P p \<noteq> None}"

text \<open>
  One access, seen from the resident set: a hit leaves the set and the counter alone; a
  fault adds one to the counter and loads the page, into spare room of its region or in
  place of a resident page of its region.
\<close>

definition access_step ::
  "('p \<Rightarrow> 'r) \<Rightarrow> nat \<Rightarrow> bool \<Rightarrow> 'p \<Rightarrow> 'p list \<Rightarrow> 'p set \<Rightarrow> int \<Rightarrow> 'p set \<Rightarrow> int \<Rightarrow> bool" where
  "access_step reg n far r \<sigma> S c S' c' =
     ((r \<in> S \<and> S' = S \<and> c' = c) \<or>
      (r \<notin> S \<and> c' = c + 1 \<and>
       (if card (in_region reg S (reg r)) < n then S' = insert r S
        else (\<exists>q \<in> S. reg q = reg r \<and> S' = insert r (S - {q}) \<and>
                (far \<longrightarrow> (\<forall>y \<in> S. reg y = reg r \<longrightarrow> nxt y \<sigma> \<le> nxt q \<sigma>))))))"

text \<open>
  The states the partitioned engine reaches when the frame count gives every partition
  zero frames (\<^verbatim>\<open>num_frames / 4 = 0\<close>): all vectors of the allocator are empty and no page
  is ever mapped.
\<close>

definition L_no_frames :: "L_VirtualMemoryManager \<Rightarrow> bool" where
  "L_no_frames vm =
     (l_memoryFramesPerProcess (l_frame_status vm) = 0 \<and>
      l_memory (l_frame_status vm) = replicate 4 [] \<and>
      l_nextFrame (l_frame_status vm) = replicate 4 0 \<and>
      l_lru_list (l_frame_status vm) = replicate 4 [] \<and>
      length (l_page_tables vm) = 4 \<and>
      (\<forall>P p. valid_pid P \<longrightarrow> pt_lookup (l_page_tables vm) P p = None))"

section \<open>Lemmas about the page tables and the frame operations\<close>


lemma erase_page_ok:
  assumes "valid_pid op" "length pts = 4"
  shows "\<exists>pts'. erase_page pts op opg = Inr pts' \<and> length pts' = 4 \<and>
     (\<forall>P p. valid_pid P \<longrightarrow> pt_lookup pts' P p = (if P = op \<and> p = opg then None else pt_lookup pts P p)) \<and>
     (\<forall>P. valid_pid P \<longrightarrow> pt_faults pts' P = pt_faults pts P)"
  using assms
  by (auto simp: erase_page_def valid_pid_def pt_lookup_def pt_faults_def nth_list_update)

lemma store_page_ok:
  assumes "valid_pid pid" "length pts = 4"
  shows "\<exists>pts'. store_page pts pid pg f = Inr pts' \<and> length pts' = 4 \<and>
     (\<forall>P p. valid_pid P \<longrightarrow> pt_lookup pts' P p = (if P = pid \<and> p = pg then Some f else pt_lookup pts P p)) \<and>
     (\<forall>P. valid_pid P \<longrightarrow> pt_faults pts' P = pt_faults pts P)"
  using assms
  by (auto simp: store_page_def valid_pid_def pt_lookup_def pt_faults_def nth_list_update)

lemma evict_update_ok:
  assumes "valid_pid op" "valid_pid pid" "length pts = 4"
  shows "\<exists>pts'. evict_update pts op opg pid pg f = Inr pts' \<and> length pts' = 4 \<and>
     (\<forall>P p. valid_pid P \<longrightarrow> pt_lookup pts' P p =
        (if P = pid \<and> p = pg then Some f else if P = op \<and> p = opg then None else pt_lookup pts P p)) \<and>
     (\<forall>P. valid_pid P \<longrightarrow> pt_faults pts' P = pt_faults pts P)"
proof -
  from erase_page_ok[OF assms(1,3), of opg] obtain pts1 where
    e: "erase_page pts op opg = Inr pts1" "length pts1 = 4"
    "\<forall>P p. valid_pid P \<longrightarrow> pt_lookup pts1 P p = (if P = op \<and> p = opg then None else pt_lookup pts P p)"
    "\<forall>P. valid_pid P \<longrightarrow> pt_faults pts1 P = pt_faults pts P" by blast
  from store_page_ok[OF assms(2) e(2), of pg f] obtain pts2 where
    s: "store_page pts1 pid pg f = Inr pts2" "length pts2 = 4"
    "\<forall>P p. valid_pid P \<longrightarrow> pt_lookup pts2 P p = (if P = pid \<and> p = pg then Some f else pt_lookup pts1 P p)"
    "\<forall>P. valid_pid P \<longrightarrow> pt_faults pts2 P = pt_faults pts1 P" by blast
  have "evict_update pts op opg pid pg f = Inr pts2"
    by (simp add: evict_update_def e(1) s(1))
  with e s show ?thesis by auto
qed

lemma erase_page_err: "\<not> valid_pid op \<Longrightarrow> length pts = 4 \<Longrightarrow> erase_page pts op opg = Inl PidOutOfRange"
  by (auto simp: erase_page_def valid_pid_def)


lemma G_releaseFrame_ok:
  "v < length (g_memory fs) \<Longrightarrow>
   G_releaseFrame v fs = Inr (fs\<lparr>g_memory := (g_memory fs)[v := (-1, 0)], g_lru_list := removeAll v (g_lru_list fs)\<rparr>)"
  by (simp add: G_releaseFrame_def)

lemma G_fifoReplacement_ok:
  assumes "G_fs_wf fs"
  shows "\<exists>fs'. G_fifoReplacement pid pg fs =
            Inr ((fst (g_memory fs ! g_nextFrame fs), snd (g_memory fs ! g_nextFrame fs), g_nextFrame fs), fs') \<and>
          g_memory fs' = (g_memory fs)[g_nextFrame fs := (pid, pg)] \<and>
          g_nextFrame fs' = (g_nextFrame fs + 1) mod g_memoryFrames fs \<and>
          g_memoryFrames fs' = g_memoryFrames fs \<and>
          g_lru_list fs' = removeAll (g_nextFrame fs) (g_lru_list fs)"
  using assms by (simp add: G_fifoReplacement_def G_fs_wf_def G_releaseFrame_ok Let_def)

lemma G_lruReplacement_ok:
  assumes "G_fs_wf fs" "g_lru_list fs = v # rest" "v < g_memoryFrames fs"
  shows "\<exists>fs'. G_lruReplacement pid pg fs =
            Inr ((fst (g_memory fs ! v), snd (g_memory fs ! v), v), fs') \<and>
          g_memory fs' = (g_memory fs)[v := (pid, pg)] \<and>
          g_nextFrame fs' = g_nextFrame fs \<and>
          g_memoryFrames fs' = g_memoryFrames fs \<and>
          g_lru_list fs' = removeAll v rest @ [v]"
  using assms by (simp add: G_lruReplacement_def G_fs_wf_def G_releaseFrame_def Let_def)

lemma G_randomReplacement_ok:
  assumes "G_fs_wf fs"
  shows "\<exists>fs'. G_randomReplacement r pid pg fs =
            Inr ((fst (g_memory fs ! (r mod g_memoryFrames fs)), snd (g_memory fs ! (r mod g_memoryFrames fs)),
                  r mod g_memoryFrames fs), fs') \<and>
          g_memory fs' = (g_memory fs)[r mod g_memoryFrames fs := (pid, pg)] \<and>
          g_nextFrame fs' = g_nextFrame fs \<and>
          g_memoryFrames fs' = g_memoryFrames fs \<and>
          g_lru_list fs' = removeAll (r mod g_memoryFrames fs) (g_lru_list fs)"
  using assms by (simp add: G_randomReplacement_def G_fs_wf_def G_releaseFrame_def Let_def)

lemma G_allocateFrame_free:
  assumes "G_fs_wf fs" "is_free (g_memory fs ! g_nextFrame fs)"
  shows "\<exists>fs'. G_allocateFrame pid pg fs = Inr (Some (g_nextFrame fs), fs') \<and>
          g_memory fs' = (g_memory fs)[g_nextFrame fs := (pid, pg)] \<and>
          g_nextFrame fs' = (g_nextFrame fs + 1) mod g_memoryFrames fs \<and>
          g_memoryFrames fs' = g_memoryFrames fs \<and>
          g_lru_list fs' = g_lru_list fs @ [g_nextFrame fs]"
  using assms by (simp add: G_allocateFrame_def G_fs_wf_def is_free_def)

lemma G_allocateFrame_occupied:
  assumes "G_fs_wf fs" "\<not> is_free (g_memory fs ! g_nextFrame fs)"
  shows "G_allocateFrame pid pg fs = Inr (None, fs)"
  using assms by (simp add: G_allocateFrame_def G_fs_wf_def is_free_def)

lemma region_full_iff: "region_full mem = (\<forall>f < length mem. \<not> is_free (mem ! f))"
  by (simp add: region_full_def list_all_length)

lemma G_cursor_free_iff:
  assumes "G_fs_wf fs" "G_fill fs"
  shows "is_free (g_memory fs ! g_nextFrame fs) = (\<not> region_full (g_memory fs))"
  using assms unfolding G_fs_wf_def G_fill_def region_full_iff by auto

subsection \<open>The loops of the optimal policy\<close>


lemma find_upt_Some:
  "(find P [a ..< n] = Some v) = (a \<le> v \<and> v < n \<and> P v \<and> (\<forall>i. a \<le> i \<and> i < v \<longrightarrow> \<not> P i))"
proof
  assume "find P [a ..< n] = Some v"
  then obtain i where i: "i < n - a" "P (a + i)" "v = a + i" "\<forall>j<i. \<not> P (a + j)"
    by (auto simp: find_Some_iff)
  have "\<not> P k" if "a \<le> k" "k < v" for k
  proof -
    have "k - a < i" "k = a + (k - a)" using that i(3) by auto
    then show ?thesis using i(4) by metis
  qed
  then show "a \<le> v \<and> v < n \<and> P v \<and> (\<forall>i. a \<le> i \<and> i < v \<longrightarrow> \<not> P i)"
    using i by auto
next
  assume r: "a \<le> v \<and> v < n \<and> P v \<and> (\<forall>i. a \<le> i \<and> i < v \<longrightarrow> \<not> P i)"
  then have "v - a < length [a ..< n] \<and> P ([a ..< n] ! (v - a)) \<and> v = [a ..< n] ! (v - a) \<and>
             (\<forall>j < v - a. \<not> P ([a ..< n] ! j))"
    by auto
  then show "find P [a ..< n] = Some v" unfolding find_Some_iff by blast
qed

lemma find_upt_None: "(find P [a ..< n] = None) = (\<forall>i. a \<le> i \<and> i < n \<longrightarrow> \<not> P i)"
  by (auto simp: find_None_iff)

lemma scan_future_find:
  "j0 \<le> length tr \<Longrightarrow>
   scan_future (drop j0 tr) j0 (fst e) (snd e) = find (\<lambda>j. tr ! j = e) [j0 ..< length tr]"
proof (induction "length tr - j0" arbitrary: j0)
  case 0
  then show ?case by simp
next
  case (Suc d)
  then have lt: "j0 < length tr" and d: "d = length tr - Suc j0" by auto
  have dr: "drop j0 tr = tr ! j0 # drop (Suc j0) tr" using lt by (simp add: Cons_nth_drop_Suc)
  have up: "[j0 ..< length tr] = j0 # [Suc j0 ..< length tr]" using lt by (simp add: upt_conv_Cons)
  show ?case using Suc.hyps(1)[OF d] lt
    by (auto simp: dr up prod_eq_iff)
qed

lemma scan_future_next_access:
  "scan_future (drop (Suc ci) tr) (Suc ci) (fst e) (snd e) = next_access tr ci e"
proof (cases "Suc ci \<le> length tr")
  case True
  then show ?thesis by (simp add: scan_future_find next_access_def)
next
  case False
  then show ?thesis by (simp add: next_access_def)
qed


lemma list_all_upt: "list_all Q [0 ..< m] = (\<forall>k<m. Q k)"
  by (auto simp: list_all_iff)

lemma optimal_loop_Cons:
  assumes that: "i < length mem"
  shows "optimal_loop mem tr ci (i # is) acc =
     (case next_access tr ci (mem ! i) of
        Some j \<Rightarrow> if fst (snd acc) < int j then optimal_loop mem tr ci is (Some i, int j, mem ! i)
                  else optimal_loop mem tr ci is acc
      | None \<Rightarrow> Inr (Some i, fst (snd acc), mem ! i))"
proof -
  obtain a b c d where acc: "acc = (a, b, c, d)" by (cases acc)
  obtain x y where m: "mem ! i = (x, y)" by (cases "mem ! i")
  have "scan_future (drop (Suc ci) tr) (Suc ci) x y = next_access tr ci (mem ! i)"
    using scan_future_next_access[of ci tr "mem ! i"] by (simp add: m)
  then show ?thesis using that by (simp add: acc m Let_def split: option.split)
qed

lemma optimal_loop_short_circuit:
  assumes "n \<le> length mem"
  shows "find (\<lambda>i. next_access tr ci (mem ! i) = None) [a ..< n] = Some i0 \<Longrightarrow>
         \<exists>fi'. optimal_loop mem tr ci [a ..< n] acc = Inr (Some i0, fi', mem ! i0)"
proof (induction "n - a" arbitrary: a acc)
  case 0
  then show ?case by simp
next
  case (Suc d)
  then have an: "a < n" and d: "d = n - Suc a" by auto
  have up: "[a ..< n] = a # [Suc a ..< n]" using an by (simp add: upt_conv_Cons)
  have al: "a < length mem" using an assms by simp
  show ?case
  proof (cases "next_access tr ci (mem ! a)")
    case None
    then have "i0 = a" using Suc.prems by (simp add: up)
    then show ?thesis using None unfolding up optimal_loop_Cons[OF al] by simp
  next
    case (Some j)
    then have f: "find (\<lambda>i. next_access tr ci (mem ! i) = None) [Suc a ..< n] = Some i0"
      using Suc.prems by (simp add: up)
    show ?thesis
      using Suc.hyps(1)[OF d f] Some unfolding up optimal_loop_Cons[OF al] by simp
  qed
qed

lemma optimal_loop_farthest:
  assumes "n \<le> length mem"
  shows "find (\<lambda>i. next_access tr ci (mem ! i) = None) [a ..< n] = None \<Longrightarrow>
         (optimal_loop mem tr ci [a ..< n] acc = Inr acc \<and>
            (\<forall>i. a \<le> i \<and> i < n \<longrightarrow> int (the (next_access tr ci (mem ! i))) \<le> fst (snd acc))) \<or>
         (\<exists>v. a \<le> v \<and> v < n \<and>
            optimal_loop mem tr ci [a ..< n] acc =
              Inr (Some v, int (the (next_access tr ci (mem ! v))), mem ! v) \<and>
            fst (snd acc) < int (the (next_access tr ci (mem ! v))) \<and>
            (\<forall>i. a \<le> i \<and> i < v \<longrightarrow> the (next_access tr ci (mem ! i)) < the (next_access tr ci (mem ! v))) \<and>
            (\<forall>i. v \<le> i \<and> i < n \<longrightarrow> the (next_access tr ci (mem ! i)) \<le> the (next_access tr ci (mem ! v))))"
proof (induction "n - a" arbitrary: a acc)
  case 0
  then show ?case by simp
next
  case (Suc d)
  then have an: "a < n" and d: "d = n - Suc a" by auto
  have up: "[a ..< n] = a # [Suc a ..< n]" using an by (simp add: upt_conv_Cons)
  have al: "a < length mem" using an assms by simp
  from Suc.prems obtain j where j: "next_access tr ci (mem ! a) = Some j"
    and f: "find (\<lambda>i. next_access tr ci (mem ! i) = None) [Suc a ..< n] = None"
    by (auto simp: up split: if_splits)
  let ?nu = "\<lambda>i. the (next_access tr ci (mem ! i))"
  let ?fi = "fst (snd acc)"
  have split_a: "(a \<le> i) = (i = a \<or> Suc a \<le> i)" for i by auto
  show ?case
  proof (cases "?fi < int j")
    case True
    have eq: "optimal_loop mem tr ci [a ..< n] acc =
              optimal_loop mem tr ci [Suc a ..< n] (Some a, int j, mem ! a)"
      using True j unfolding up optimal_loop_Cons[OF al] by simp
    from Suc.hyps(1)[OF d f, of "(Some a, int j, mem ! a)"]
    show ?thesis
    proof
      assume h: "optimal_loop mem tr ci [Suc a ..< n] (Some a, int j, mem ! a) =
                   Inr (Some a, int j, mem ! a) \<and>
                 (\<forall>i. Suc a \<le> i \<and> i < n \<longrightarrow> int (?nu i) \<le> fst (snd (Some a, int j, mem ! a)))"
      have "a \<le> a \<and> a < n \<and>
            optimal_loop mem tr ci [a ..< n] acc = Inr (Some a, int (?nu a), mem ! a) \<and>
            ?fi < int (?nu a) \<and> (\<forall>i. a \<le> i \<and> i < a \<longrightarrow> ?nu i < ?nu a) \<and>
            (\<forall>i. a \<le> i \<and> i < n \<longrightarrow> ?nu i \<le> ?nu a)"
        using h an True j eq by (auto simp: split_a)
      then show ?thesis by blast
    next
      assume "\<exists>v. Suc a \<le> v \<and> v < n \<and>
            optimal_loop mem tr ci [Suc a ..< n] (Some a, int j, mem ! a) =
              Inr (Some v, int (?nu v), mem ! v) \<and>
            fst (snd (Some a, int j, mem ! a)) < int (?nu v) \<and>
            (\<forall>i. Suc a \<le> i \<and> i < v \<longrightarrow> ?nu i < ?nu v) \<and>
            (\<forall>i. v \<le> i \<and> i < n \<longrightarrow> ?nu i \<le> ?nu v)"
      then obtain v where v: "Suc a \<le> v" "v < n"
        "optimal_loop mem tr ci [Suc a ..< n] (Some a, int j, mem ! a) =
              Inr (Some v, int (?nu v), mem ! v)"
        "int j < int (?nu v)" "\<forall>i. Suc a \<le> i \<and> i < v \<longrightarrow> ?nu i < ?nu v"
        "\<forall>i. v \<le> i \<and> i < n \<longrightarrow> ?nu i \<le> ?nu v" by auto
      have "a \<le> v \<and> v < n \<and>
            optimal_loop mem tr ci [a ..< n] acc = Inr (Some v, int (?nu v), mem ! v) \<and>
            ?fi < int (?nu v) \<and> (\<forall>i. a \<le> i \<and> i < v \<longrightarrow> ?nu i < ?nu v) \<and>
            (\<forall>i. v \<le> i \<and> i < n \<longrightarrow> ?nu i \<le> ?nu v)"
        using v True j eq by (auto simp: split_a)
      then show ?thesis by blast
    qed
  next
    case False
    have eq: "optimal_loop mem tr ci [a ..< n] acc = optimal_loop mem tr ci [Suc a ..< n] acc"
      using False j unfolding up optimal_loop_Cons[OF al] by simp
    from Suc.hyps(1)[OF d f, of acc]
    show ?thesis
    proof
      assume h: "optimal_loop mem tr ci [Suc a ..< n] acc = Inr acc \<and>
                 (\<forall>i. Suc a \<le> i \<and> i < n \<longrightarrow> int (?nu i) \<le> ?fi)"
      have "optimal_loop mem tr ci [a ..< n] acc = Inr acc \<and>
            (\<forall>i. a \<le> i \<and> i < n \<longrightarrow> int (?nu i) \<le> ?fi)"
        using h False j eq by (auto simp: split_a)
      then show ?thesis by blast
    next
      assume "\<exists>v. Suc a \<le> v \<and> v < n \<and>
            optimal_loop mem tr ci [Suc a ..< n] acc =
              Inr (Some v, int (?nu v), mem ! v) \<and>
            ?fi < int (?nu v) \<and>
            (\<forall>i. Suc a \<le> i \<and> i < v \<longrightarrow> ?nu i < ?nu v) \<and>
            (\<forall>i. v \<le> i \<and> i < n \<longrightarrow> ?nu i \<le> ?nu v)"
      then obtain v where v: "Suc a \<le> v" "v < n"
        "optimal_loop mem tr ci [Suc a ..< n] acc =
              Inr (Some v, int (?nu v), mem ! v)"
        "?fi < int (?nu v)" "\<forall>i. Suc a \<le> i \<and> i < v \<longrightarrow> ?nu i < ?nu v"
        "\<forall>i. v \<le> i \<and> i < n \<longrightarrow> ?nu i \<le> ?nu v" by blast
      have "a \<le> v \<and> v < n \<and>
            optimal_loop mem tr ci [a ..< n] acc = Inr (Some v, int (?nu v), mem ! v) \<and>
            ?fi < int (?nu v) \<and> (\<forall>i. a \<le> i \<and> i < v \<longrightarrow> ?nu i < ?nu v) \<and>
            (\<forall>i. v \<le> i \<and> i < n \<longrightarrow> ?nu i \<le> ?nu v)"
        using v False j eq by (auto simp: split_a)
      then show ?thesis by blast
    qed
  qed
qed

lemma optimal_loop_spec:
  assumes "0 < length mem"
  shows "\<exists>v fi. v < length mem \<and> spec_optimal_victim mem tr ci = Some v \<and>
           optimal_loop mem tr ci [0 ..< length mem] (None, -1, -1, -1) = Inr (Some v, fi, mem ! v)"
proof (cases "find (\<lambda>i. next_access tr ci (mem ! i) = None) [0 ..< length mem]")
  case (Some i0)
  have "i0 < length mem" using Some by (simp add: find_upt_Some)
  moreover have "spec_optimal_victim mem tr ci = Some i0" by (simp add: spec_optimal_victim_def Some)
  ultimately show ?thesis
    using optimal_loop_short_circuit[OF le_refl Some, of "(None, -1, -1, -1)"] by blast
next
  case None
  let ?nu = "\<lambda>i. the (next_access tr ci (mem ! i))"
  from optimal_loop_farthest[OF le_refl None, of "(None, -1, -1, -1)"]
  show ?thesis
  proof
    assume "optimal_loop mem tr ci [0 ..< length mem] (None, -1, -1, -1) = Inr (None, -1, -1, -1) \<and>
            (\<forall>i. 0 \<le> i \<and> i < length mem \<longrightarrow> int (?nu i) \<le> fst (snd (None, -1, -1, -1)))"
    then have "int (?nu 0) \<le> -1" using assms by auto
    then show ?thesis by simp
  next
    assume "\<exists>v. 0 \<le> v \<and> v < length mem \<and>
            optimal_loop mem tr ci [0 ..< length mem] (None, -1, -1, -1) =
              Inr (Some v, int (?nu v), mem ! v) \<and>
            fst (snd (None, -1, -1, -1)) < int (?nu v) \<and>
            (\<forall>i. 0 \<le> i \<and> i < v \<longrightarrow> ?nu i < ?nu v) \<and>
            (\<forall>i. v \<le> i \<and> i < length mem \<longrightarrow> ?nu i \<le> ?nu v)"
    then obtain v where v: "v < length mem"
      "optimal_loop mem tr ci [0 ..< length mem] (None, -1, -1, -1) =
              Inr (Some v, int (?nu v), mem ! v)"
      "\<forall>i. i < v \<longrightarrow> ?nu i < ?nu v" "\<forall>i. v \<le> i \<and> i < length mem \<longrightarrow> ?nu i \<le> ?nu v" by auto
    have all: "\<forall>k < length mem. ?nu k \<le> ?nu v"
      using v(3,4) by (metis le_less_linear less_imp_le)
    have before: "\<forall>i < v. \<not> (\<forall>k < length mem. ?nu k \<le> ?nu i)"
      using v(1,3) by (metis not_le)
    have "find (\<lambda>i. list_all (\<lambda>k. ?nu k \<le> ?nu i) [0 ..< length mem]) [0 ..< length mem] = Some v"
      unfolding find_upt_Some list_all_upt using v(1) all before by auto
    then have "spec_optimal_victim mem tr ci = Some v" by (simp add: spec_optimal_victim_def None)
    then show ?thesis using v(1,2) by blast
  qed
qed

subsection \<open>Steps of the shared-pool engine\<close>


lemma G_optimalReplacement_ok:
  assumes "G_fs_wf fs"
  shows "\<exists>v fs'. v < g_memoryFrames fs \<and> spec_optimal_victim (g_memory fs) tr ci = Some v \<and>
          G_optimalReplacement pid pg tr ci fs =
            Inr ((fst (g_memory fs ! v), snd (g_memory fs ! v), v), fs') \<and>
          g_memory fs' = (g_memory fs)[v := (pid, pg)] \<and>
          g_nextFrame fs' = g_nextFrame fs \<and>
          g_memoryFrames fs' = g_memoryFrames fs \<and>
          g_lru_list fs' = removeAll v (g_lru_list fs)"
proof -
  have len: "length (g_memory fs) = g_memoryFrames fs" "0 < length (g_memory fs)"
    using assms by (auto simp: G_fs_wf_def)
  from optimal_loop_spec[OF len(2), of tr ci] obtain v fi where
    v: "v < length (g_memory fs)" "spec_optimal_victim (g_memory fs) tr ci = Some v"
       "optimal_loop (g_memory fs) tr ci [0 ..< length (g_memory fs)] (None, -1, -1, -1) =
          Inr (Some v, fi, g_memory fs ! v)" by blast
  obtain x y where m: "g_memory fs ! v = (x, y)" by (cases "g_memory fs ! v")
  have loop: "optimal_loop (g_memory fs) tr ci [0 ..< g_memoryFrames fs] (None, -1, -1, -1) =
          Inr (Some v, fi, x, y)" using v(3) by (simp add: len(1) m)
  have "G_optimalReplacement pid pg tr ci fs =
          Inr ((x, y, v), fs\<lparr>g_memory := (g_memory fs)[v := (pid, pg)], g_lru_list := removeAll v (g_lru_list fs)\<rparr>)"
    unfolding G_optimalReplacement_def loop using v(1) by (simp add: G_releaseFrame_def)
  then show ?thesis using v(1,2) by (simp add: m len(1))
qed

lemma bijection_reassign:
  assumes bij: "\<forall>P p f. valid_pid P \<longrightarrow> (pt_lookup pts P p = Some f) = (f < length mem \<and> mem ! f = (P, p))"
    and v: "v < length mem" and miss: "pt_lookup pts pid pg = None" and pid: "valid_pid pid"
    and look: "\<forall>P p. valid_pid P \<longrightarrow> pt_lookup pts' P p =
        (if P = pid \<and> p = pg then Some v
         else if P = fst (mem ! v) \<and> p = snd (mem ! v) then None else pt_lookup pts P p)"
  shows "\<forall>P p f. valid_pid P \<longrightarrow>
           (pt_lookup pts' P p = Some f) = (f < length (mem[v := (pid, pg)]) \<and> mem[v := (pid, pg)] ! f = (P, p))"
proof (intro allI impI)
  fix P p f assume P: "valid_pid P"
  have nomatch: "mem ! g \<noteq> (pid, pg)" if "g < length mem" for g
    using bij pid miss that by (metis option.distinct(1))
  show "(pt_lookup pts' P p = Some f) = (f < length (mem[v := (pid, pg)]) \<and> mem[v := (pid, pg)] ! f = (P, p))"
  proof (cases "P = pid \<and> p = pg")
    case True
    then show ?thesis using look[rule_format, OF P, of p] v nomatch by (auto simp: nth_list_update)
  next
    case False
    show ?thesis
    proof (cases "P = fst (mem ! v) \<and> p = snd (mem ! v)")
      case True
      then have mv: "mem ! v = (P, p)" by (simp add: prod_eq_iff)
      have l: "pt_lookup pts' P p = None" using look[rule_format, OF P, of p] False True by simp
      have "pt_lookup pts P p = Some v" using bij P v mv by blast
      then have "g = v" if "g < length mem" "mem ! g = (P, p)" for g
        using bij P that by (metis option.inject)
      then show ?thesis using l False v by (auto simp: nth_list_update)
    next
      case F2: False
      have l: "pt_lookup pts' P p = pt_lookup pts P p" using look[rule_format, OF P, of p] False F2 by simp
      have "mem ! v \<noteq> (P, p)" using F2 by (auto simp: prod_eq_iff)
      then show ?thesis using l False bij P v by (auto simp: nth_list_update)
    qed
  qed
qed


lemma region_full_update:
  "region_full mem \<Longrightarrow> \<not> is_free e \<Longrightarrow> region_full (mem[v := e])"
  by (cases "v < length mem") (auto simp: region_full_iff nth_list_update)

lemma valid_pid_not_free: "valid_pid P \<Longrightarrow> \<not> is_free (P, p)"
  by (simp add: valid_pid_def is_free_def)

lemma entries_ok_update:
  "entries_ok mem \<Longrightarrow> valid_pid P \<Longrightarrow> entries_ok (mem[v := (P, p)])"
  by (cases "v < length mem") (auto simp: entries_ok_def nth_list_update)

lemma sum_faults_cong:
  "(\<forall>P. valid_pid P \<longrightarrow> pt_faults pts' P = pt_faults pts P) \<Longrightarrow> sum_faults pts' = sum_faults pts"
  by (simp add: sum_faults_def valid_pid_def)

lemma valid_pid_cases: "valid_pid P = (P = 0 \<or> P = 1 \<or> P = 2 \<or> P = 3)"
  by (auto simp: valid_pid_def)

lemma sum_faults_bump:
  assumes "valid_pid pid" "length pts = 4"
  shows "sum_faults (count_fault pts pid) = sum_faults pts + 1"
  using assms unfolding valid_pid_cases
  by (auto simp: sum_faults_def pt_faults_def count_fault_def nth_list_update)

lemma bump_lookup:
  assumes "valid_pid pid" "length pts = 4" "valid_pid P"
  shows "pt_lookup (count_fault pts pid) P p = pt_lookup pts P p"
  using assms by (auto simp: pt_lookup_def count_fault_def nth_list_update valid_pid_def)

lemma bump_faults:
  assumes "valid_pid pid" "length pts = 4" "valid_pid P"
  shows "pt_faults (count_fault pts pid) P = (if P = pid then pt_faults pts P + 1 else pt_faults pts P)"
  using assms by (auto simp: pt_faults_def count_fault_def nth_list_update valid_pid_def)

lemma length_count_fault: "length (count_fault pts pid) = length pts"
  by (simp add: count_fault_def)

text \<open>A hit changes nothing but, under \<open>lru\<close>, the recency list.\<close>

lemma G_handleAccess_hit:
  assumes "valid_pid pid" "length (g_page_tables vm) = 4" "pt_lookup (g_page_tables vm) pid pg = Some f"
  shows "G_handleAccess rnd pid pg tr i vm =
           Inr (if g_replacement_policy vm = ''lru''
                then vm\<lparr>g_frame_status := G_updateLRU f (g_frame_status vm)\<rparr> else vm)"
  using assms by (simp add: G_handleAccess_def valid_pid_def pt_lookup_def)

lemma G_handleAccess_miss:
  assumes "valid_pid pid" "length (g_page_tables vm) = 4" "pt_lookup (g_page_tables vm) pid pg = None"
  shows "G_handleAccess rnd pid pg tr i vm =
           (case G_allocateFrame pid pg (g_frame_status vm) of
              Inl e \<Rightarrow> Inl e
            | Inr (Some frame, fs1) \<Rightarrow>
                (case store_page (count_fault (g_page_tables vm) pid) pid pg frame of
                   Inl e \<Rightarrow> Inl e
                 | Inr pts \<Rightarrow> Inr (vm\<lparr>g_global_page_fault_count := g_global_page_fault_count vm + 1,
                                      g_frame_status := fs1, g_page_tables := pts\<rparr>))
            | Inr (None, fs1) \<Rightarrow>
                G_replace rnd pid pg tr i
                  (vm\<lparr>g_global_page_fault_count := g_global_page_fault_count vm + 1,
                      g_page_tables := count_fault (g_page_tables vm) pid, g_frame_status := fs1\<rparr>))"
  using assms
  by (simp add: G_handleAccess_def valid_pid_def pt_lookup_def Let_def split: sum.splits option.splits prod.splits)

lemma G_inv_hit:
  assumes inv: "G_inv vm" and pid: "valid_pid pid" and hit: "pt_lookup (g_page_tables vm) pid pg = Some f"
  shows "G_inv (if g_replacement_policy vm = ''lru''
                then vm\<lparr>g_frame_status := G_updateLRU f (g_frame_status vm)\<rparr> else vm)"
proof (cases "g_replacement_policy vm = ''lru''")
  case False
  then show ?thesis using inv by simp
next
  case True
  have f: "f < length (g_memory (g_frame_status vm))" "g_memory (g_frame_status vm) ! f = (pid, pg)"
    using inv pid hit by (auto simp: G_inv_def G_bijection_def)
  then have occ: "\<not> is_free (g_memory (g_frame_status vm) ! f)" using pid by (simp add: valid_pid_not_free)
  have lru: "distinct (g_lru_list (g_frame_status vm))"
       "set (g_lru_list (g_frame_status vm)) =
          {f. f < length (g_memory (g_frame_status vm)) \<and> \<not> is_free (g_memory (g_frame_status vm) ! f)}"
    using inv True by (auto simp: G_inv_def G_lru_ok_def)
  have fin: "f \<in> set (g_lru_list (g_frame_status vm))" using lru(2) f(1) occ by simp
  have "G_lru_ok (vm\<lparr>g_frame_status := G_updateLRU f (g_frame_status vm)\<rparr>)"
    using lru fin by (auto simp: G_lru_ok_def G_updateLRU_def distinct_removeAll)
  then show ?thesis using inv True
    by (auto simp: G_inv_def G_fs_wf_def G_bijection_def G_fill_def G_updateLRU_def)
qed


lemma G_fill_alloc:
  assumes wf: "G_fs_wf fs" and fill: "G_fill fs" and nf: "\<not> region_full (g_memory fs)"
    and m: "g_memory fs' = (g_memory fs)[g_nextFrame fs := e]" and e: "\<not> is_free e"
    and c: "g_nextFrame fs' = (g_nextFrame fs + 1) mod g_memoryFrames fs"
  shows "G_fill fs'"
proof -
  let ?c = "g_nextFrame fs" and ?n = "g_memoryFrames fs"
  have len: "length (g_memory fs) = ?n" "?c < ?n" using wf by (auto simp: G_fs_wf_def)
  have fr: "\<forall>f < ?n. is_free (g_memory fs ! f) = (?c \<le> f)"
    using fill nf len by (auto simp: G_fill_def)
  show ?thesis
  proof (cases "Suc ?c < ?n")
    case True
    then have "g_nextFrame fs' = Suc ?c" using c by simp
    then show ?thesis using fr len e True unfolding G_fill_def m
      by (auto simp: nth_list_update)
  next
    case False
    then have "Suc ?c = ?n" using len by simp
    then have "\<forall>f < ?n. \<not> is_free ((g_memory fs)[?c := e] ! f)"
      using fr len e by (auto simp: nth_list_update)
    then show ?thesis unfolding G_fill_def m region_full_iff using len by simp
  qed
qed

lemma G_step_alloc:
  assumes inv: "G_inv vm" and pid: "valid_pid pid"
    and miss: "pt_lookup (g_page_tables vm) pid pg = None"
    and nf: "\<not> region_full (g_memory (g_frame_status vm))"
  shows "\<exists>vm'. G_handleAccess rnd pid pg tr i vm = Inr vm' \<and> G_inv vm' \<and>
           is_free (g_memory (g_frame_status vm) ! g_nextFrame (g_frame_status vm)) \<and>
           g_memory (g_frame_status vm') =
             (g_memory (g_frame_status vm))[g_nextFrame (g_frame_status vm) := (pid, pg)] \<and>
           g_nextFrame (g_frame_status vm') =
             (g_nextFrame (g_frame_status vm) + 1) mod g_memoryFrames (g_frame_status vm) \<and>
           g_memoryFrames (g_frame_status vm') = g_memoryFrames (g_frame_status vm) \<and>
           g_lru_list (g_frame_status vm') = g_lru_list (g_frame_status vm) @ [g_nextFrame (g_frame_status vm)] \<and>
           g_global_page_fault_count vm' = g_global_page_fault_count vm + 1 \<and>
           g_replacement_policy vm' = g_replacement_policy vm \<and>
           g_rand_calls vm' = g_rand_calls vm \<and>
           (\<forall>P p. valid_pid P \<longrightarrow> pt_lookup (g_page_tables vm') P p =
              (if P = pid \<and> p = pg then Some (g_nextFrame (g_frame_status vm))
               else pt_lookup (g_page_tables vm) P p)) \<and>
           (\<forall>P. valid_pid P \<longrightarrow> pt_faults (g_page_tables vm') P =
              (if P = pid then pt_faults (g_page_tables vm) P + 1 else pt_faults (g_page_tables vm) P))"
proof -
  let ?fs = "g_frame_status vm" and ?pts = "g_page_tables vm"
  let ?c = "g_nextFrame ?fs" and ?mem = "g_memory ?fs" and ?n = "g_memoryFrames ?fs"
  have wf: "G_fs_wf ?fs" and len4: "length ?pts = 4" and bij: "G_bijection vm"
    and eok: "entries_ok ?mem" and fill: "G_fill ?fs" and lru: "G_lru_ok vm"
    and cnt: "g_global_page_fault_count vm = sum_faults ?pts"
    using inv by (auto simp: G_inv_def)
  have len: "length ?mem = ?n" "?c < ?n" "0 < ?n" using wf by (auto simp: G_fs_wf_def)
  have free: "is_free (?mem ! ?c)" using G_cursor_free_iff[OF wf fill] nf by simp
  from G_allocateFrame_free[OF wf free, of pid pg] obtain fs1 where
    a: "G_allocateFrame pid pg ?fs = Inr (Some ?c, fs1)"
       "g_memory fs1 = ?mem[?c := (pid, pg)]" "g_nextFrame fs1 = (?c + 1) mod ?n"
       "g_memoryFrames fs1 = ?n" "g_lru_list fs1 = g_lru_list ?fs @ [?c]" by blast
  have len4': "length (count_fault ?pts pid) = 4" using len4 by (simp add: length_count_fault)
  from store_page_ok[OF pid len4', of pg ?c] obtain pts' where
    s: "store_page (count_fault ?pts pid) pid pg ?c = Inr pts'" "length pts' = 4"
       "\<forall>P p. valid_pid P \<longrightarrow> pt_lookup pts' P p =
           (if P = pid \<and> p = pg then Some ?c else pt_lookup (count_fault ?pts pid) P p)"
       "\<forall>P. valid_pid P \<longrightarrow> pt_faults pts' P = pt_faults (count_fault ?pts pid) P" by blast
  let ?vm' = "vm\<lparr>g_global_page_fault_count := g_global_page_fault_count vm + 1,
                  g_frame_status := fs1, g_page_tables := pts'\<rparr>"
  have step: "G_handleAccess rnd pid pg tr i vm = Inr ?vm'"
    by (simp add: G_handleAccess_miss[OF pid len4 miss] a(1) s(1))
  have look: "\<forall>P p. valid_pid P \<longrightarrow> pt_lookup pts' P p =
           (if P = pid \<and> p = pg then Some ?c else pt_lookup ?pts P p)"
    using s(3) bump_lookup[OF pid len4] by simp
  have look2: "\<forall>P p. valid_pid P \<longrightarrow> pt_lookup pts' P p =
        (if P = pid \<and> p = pg then Some ?c
         else if P = fst (?mem ! ?c) \<and> p = snd (?mem ! ?c) then None else pt_lookup ?pts P p)"
    using look free by (auto simp: is_free_def valid_pid_def)
  have bij0: "\<forall>P p f. valid_pid P \<longrightarrow> (pt_lookup ?pts P p = Some f) = (f < length ?mem \<and> ?mem ! f = (P, p))"
    using bij by (simp add: G_bijection_def)
  have cl: "?c < length ?mem" using len by simp
  have bij': "G_bijection ?vm'"
    unfolding G_bijection_def using bijection_reassign[OF bij0 cl miss pid look2] by (simp add: a(2))
  have wf': "G_fs_wf fs1" using len a by (simp add: G_fs_wf_def)
  have eok': "entries_ok (g_memory fs1)" using entries_ok_update[OF eok pid] a(2) by simp
  have fill': "G_fill fs1"
    using G_fill_alloc[OF wf fill nf a(2) valid_pid_not_free[OF pid] a(3)] .
  have lru': "G_lru_ok ?vm'"
  proof -
    have "distinct (g_lru_list ?fs @ [?c]) \<and>
          set (g_lru_list ?fs @ [?c]) = {f. f < length (?mem[?c := (pid, pg)]) \<and> \<not> is_free (?mem[?c := (pid, pg)] ! f)}"
      if l: "distinct (g_lru_list ?fs)" "set (g_lru_list ?fs) = {f. f < length ?mem \<and> \<not> is_free (?mem ! f)}"
      using l free cl valid_pid_not_free[OF pid, of pg] by (auto simp: nth_list_update)
    then show ?thesis using lru by (simp add: G_lru_ok_def a(2,5))
  qed
  have faults: "\<forall>P. valid_pid P \<longrightarrow> pt_faults pts' P =
              (if P = pid then pt_faults ?pts P + 1 else pt_faults ?pts P)"
    using s(4) bump_faults[OF pid len4] by simp
  have "sum_faults pts' = sum_faults (count_fault ?pts pid)" using s(4) by (rule sum_faults_cong)
  then have cnt': "g_global_page_fault_count ?vm' = sum_faults (g_page_tables ?vm')"
    using cnt sum_faults_bump[OF pid len4] by simp
  have inv': "G_inv ?vm'"
    unfolding G_inv_def using wf' s(2) bij' eok' fill' lru' cnt' by simp
  show ?thesis
    using step inv' free a(2-5) look faults by (intro exI[of _ ?vm']) simp
qed


lemma G_replace_known:
  assumes "known_policy (g_replacement_policy vm1)"
  shows "G_replace rnd pid pg tr i vm1 =
     (case G_policy_routine rnd pid pg tr i vm1 of
        Inl e \<Rightarrow> Inl e
      | Inr ((old_pid, old_page_no, evicted_frame), fs2) \<Rightarrow>
          (case evict_update (g_page_tables vm1) old_pid old_page_no pid pg evicted_frame of
             Inl e \<Rightarrow> Inl e
           | Inr pts \<Rightarrow>
               Inr (vm1\<lparr>g_frame_status := fs2, g_page_tables := pts,
                        g_rand_calls := (if g_replacement_policy vm1 = ''random''
                                         then Suc (g_rand_calls vm1) else g_rand_calls vm1)\<rparr>)))"
  using assms unfolding known_policy_def G_replace_def G_policy_routine_def
  by (auto split: sum.splits prod.splits)

lemma G_replace_unknown:
  assumes "\<not> known_policy (g_replacement_policy vm1)"
  shows "G_replace rnd pid pg tr i vm1 = Inr vm1"
  using assms unfolding known_policy_def G_replace_def by simp

lemma G_policy_routine_ok:
  assumes wf: "G_fs_wf (g_frame_status vm)" and kp: "known_policy (g_replacement_policy vm)"
    and lru: "g_replacement_policy vm = ''lru'' \<longrightarrow>
                g_lru_list (g_frame_status vm) \<noteq> [] \<and> hd (g_lru_list (g_frame_status vm)) < g_memoryFrames (g_frame_status vm)"
  shows "\<exists>v fs2. v < g_memoryFrames (g_frame_status vm) \<and>
           G_policy_routine rnd pid pg tr i vm =
             Inr ((fst (g_memory (g_frame_status vm) ! v), snd (g_memory (g_frame_status vm) ! v), v), fs2) \<and>
           g_memory fs2 = (g_memory (g_frame_status vm))[v := (pid, pg)] \<and>
           g_memoryFrames fs2 = g_memoryFrames (g_frame_status vm) \<and>
           g_nextFrame fs2 = (if g_replacement_policy vm = ''fifo''
                              then (g_nextFrame (g_frame_status vm) + 1) mod g_memoryFrames (g_frame_status vm)
                              else g_nextFrame (g_frame_status vm)) \<and>
           g_lru_list fs2 = (if g_replacement_policy vm = ''lru''
                             then removeAll v (tl (g_lru_list (g_frame_status vm))) @ [v]
                             else removeAll v (g_lru_list (g_frame_status vm))) \<and>
           (g_replacement_policy vm = ''fifo'' \<longrightarrow> v = g_nextFrame (g_frame_status vm)) \<and>
           (g_replacement_policy vm = ''lru'' \<longrightarrow> v = hd (g_lru_list (g_frame_status vm))) \<and>
           (g_replacement_policy vm = ''optimal'' \<longrightarrow>
              spec_optimal_victim (g_memory (g_frame_status vm)) tr i = Some v) \<and>
           (g_replacement_policy vm = ''random'' \<longrightarrow>
              v = rnd (g_rand_calls vm) mod g_memoryFrames (g_frame_status vm))"
proof -
  let ?fs = "g_frame_status vm"
  have n: "0 < g_memoryFrames ?fs" "g_nextFrame ?fs < g_memoryFrames ?fs"
    using wf by (auto simp: G_fs_wf_def)
  consider (fifo) "g_replacement_policy vm = ''fifo''" | (lru) "g_replacement_policy vm = ''lru''"
    | (opt) "g_replacement_policy vm = ''optimal''" | (rnd) "g_replacement_policy vm = ''random''"
    using kp by (auto simp: known_policy_def)
  then show ?thesis
  proof cases
    case fifo
    from G_fifoReplacement_ok[OF wf, of pid pg] n fifo show ?thesis
      by (auto simp: G_policy_routine_def)
  next
    case lru
    then obtain v rest where l: "g_lru_list ?fs = v # rest" "v < g_memoryFrames ?fs"
      using assms(3) by (cases "g_lru_list ?fs") auto
    from G_lruReplacement_ok[OF wf l, of pid pg] l lru show ?thesis
      by (auto simp: G_policy_routine_def)
  next
    case opt
    from G_optimalReplacement_ok[OF wf, of tr i pid pg] opt show ?thesis
      by (auto simp: G_policy_routine_def)
  next
    case rnd
    have "rnd (g_rand_calls vm) mod g_memoryFrames ?fs < g_memoryFrames ?fs" using n by simp
    with G_randomReplacement_ok[OF wf, of "rnd (g_rand_calls vm)" pid pg] rnd show ?thesis
      by (auto simp: G_policy_routine_def)
  qed
qed


lemma G_step_evict:
  assumes inv: "G_inv vm" and pid: "valid_pid pid"
    and miss: "pt_lookup (g_page_tables vm) pid pg = None"
    and full: "region_full (g_memory (g_frame_status vm))"
    and kp: "known_policy (g_replacement_policy vm)"
  shows "\<exists>vm' v. G_handleAccess rnd pid pg tr i vm = Inr vm' \<and> G_inv vm' \<and>
           v < g_memoryFrames (g_frame_status vm) \<and>
           g_memory (g_frame_status vm') = (g_memory (g_frame_status vm))[v := (pid, pg)] \<and>
           g_memoryFrames (g_frame_status vm') = g_memoryFrames (g_frame_status vm) \<and>
           g_nextFrame (g_frame_status vm') =
             (if g_replacement_policy vm = ''fifo''
              then (g_nextFrame (g_frame_status vm) + 1) mod g_memoryFrames (g_frame_status vm)
              else g_nextFrame (g_frame_status vm)) \<and>
           g_global_page_fault_count vm' = g_global_page_fault_count vm + 1 \<and>
           g_replacement_policy vm' = g_replacement_policy vm \<and>
           g_rand_calls vm' = (if g_replacement_policy vm = ''random''
                               then Suc (g_rand_calls vm) else g_rand_calls vm) \<and>
           (\<forall>P p. valid_pid P \<longrightarrow> pt_lookup (g_page_tables vm') P p =
              (if P = pid \<and> p = pg then Some v
               else if P = fst (g_memory (g_frame_status vm) ! v) \<and> p = snd (g_memory (g_frame_status vm) ! v)
                    then None else pt_lookup (g_page_tables vm) P p)) \<and>
           (\<forall>P. valid_pid P \<longrightarrow> pt_faults (g_page_tables vm') P =
              (if P = pid then pt_faults (g_page_tables vm) P + 1 else pt_faults (g_page_tables vm) P)) \<and>
           (g_replacement_policy vm = ''fifo'' \<longrightarrow> v = g_nextFrame (g_frame_status vm)) \<and>
           (g_replacement_policy vm = ''lru'' \<longrightarrow> v = hd (g_lru_list (g_frame_status vm))) \<and>
           (g_replacement_policy vm = ''optimal'' \<longrightarrow>
              spec_optimal_victim (g_memory (g_frame_status vm)) tr i = Some v) \<and>
           (g_replacement_policy vm = ''random'' \<longrightarrow>
              v = rnd (g_rand_calls vm) mod g_memoryFrames (g_frame_status vm))"
proof -
  let ?fs = "g_frame_status vm" and ?pts = "g_page_tables vm"
  let ?c = "g_nextFrame ?fs" and ?mem = "g_memory ?fs" and ?n = "g_memoryFrames ?fs"
  let ?pol = "g_replacement_policy vm"
  have wf: "G_fs_wf ?fs" and len4: "length ?pts = 4" and bij: "G_bijection vm"
    and eok: "entries_ok ?mem" and fill: "G_fill ?fs" and lru: "G_lru_ok vm"
    and cnt: "g_global_page_fault_count vm = sum_faults ?pts"
    using inv by (auto simp: G_inv_def)
  have len: "length ?mem = ?n" "?c < ?n" "0 < ?n" using wf by (auto simp: G_fs_wf_def)
  have occ: "\<not> is_free (?mem ! ?c)" using G_cursor_free_iff[OF wf fill] full by simp
  have a: "G_allocateFrame pid pg ?fs = Inr (None, ?fs)" by (rule G_allocateFrame_occupied[OF wf occ])
  let ?vm1 = "vm\<lparr>g_global_page_fault_count := g_global_page_fault_count vm + 1,
                  g_page_tables := count_fault ?pts pid, g_frame_status := ?fs\<rparr>"
  have step1: "G_handleAccess rnd pid pg tr i vm = G_replace rnd pid pg tr i ?vm1"
    by (simp add: G_handleAccess_miss[OF pid len4 miss] a)
  have allocc: "\<forall>f < ?n. \<not> is_free (?mem ! f)" using full len by (simp add: region_full_iff)
  have lru_ne: "?pol = ''lru'' \<longrightarrow> g_lru_list ?fs \<noteq> [] \<and> hd (g_lru_list ?fs) < ?n"
  proof
    assume l: "?pol = ''lru''"
    have e: "(f < length ?mem \<and> \<not> is_free (?mem ! f)) = (f < ?n)" for f
      using allocc len(1) by auto
    have s: "set (g_lru_list ?fs) = {f. f < ?n}"
      using lru l unfolding G_lru_ok_def e by blast
    have "0 \<in> set (g_lru_list ?fs)" unfolding s using len(3) by simp
    then have ne: "g_lru_list ?fs \<noteq> []" by force
    then have "hd (g_lru_list ?fs) \<in> {f. f < ?n}" unfolding s[symmetric] by (rule hd_in_set)
    then show "g_lru_list ?fs \<noteq> [] \<and> hd (g_lru_list ?fs) < ?n" using ne by simp
  qed
  have wf1: "G_fs_wf (g_frame_status ?vm1)" using wf by simp
  have kp1: "known_policy (g_replacement_policy ?vm1)" using kp by simp
  have lru1: "g_replacement_policy ?vm1 = ''lru'' \<longrightarrow>
                g_lru_list (g_frame_status ?vm1) \<noteq> [] \<and>
                hd (g_lru_list (g_frame_status ?vm1)) < g_memoryFrames (g_frame_status ?vm1)"
    using lru_ne by simp
  from G_policy_routine_ok[OF wf1 kp1 lru1, of rnd pid pg tr i] obtain v fs2 where
    r: "v < ?n"
       "G_policy_routine rnd pid pg tr i ?vm1 = Inr ((fst (?mem ! v), snd (?mem ! v), v), fs2)"
       "g_memory fs2 = ?mem[v := (pid, pg)]" "g_memoryFrames fs2 = ?n"
       "g_nextFrame fs2 = (if ?pol = ''fifo'' then (?c + 1) mod ?n else ?c)"
       "g_lru_list fs2 = (if ?pol = ''lru'' then removeAll v (tl (g_lru_list ?fs)) @ [v]
                          else removeAll v (g_lru_list ?fs))"
       "?pol = ''fifo'' \<longrightarrow> v = ?c" "?pol = ''lru'' \<longrightarrow> v = hd (g_lru_list ?fs)"
       "?pol = ''optimal'' \<longrightarrow> spec_optimal_victim ?mem tr i = Some v"
       "?pol = ''random'' \<longrightarrow> v = rnd (g_rand_calls vm) mod ?n"
    by auto
  have vl: "v < length ?mem" using r(1) len by simp
  have vocc: "\<not> is_free (?mem ! v)" using allocc r(1) by simp
  then have oldv: "valid_pid (fst (?mem ! v))" using eok vl by (auto simp: entries_ok_def)
  have len4': "length (count_fault ?pts pid) = 4" using len4 by (simp add: length_count_fault)
  from evict_update_ok[OF oldv pid len4', of "snd (?mem ! v)" pg v] obtain pts' where
    e: "evict_update (count_fault ?pts pid) (fst (?mem ! v)) (snd (?mem ! v)) pid pg v = Inr pts'"
       "length pts' = 4"
       "\<forall>P p. valid_pid P \<longrightarrow> pt_lookup pts' P p =
          (if P = pid \<and> p = pg then Some v
           else if P = fst (?mem ! v) \<and> p = snd (?mem ! v) then None
                else pt_lookup (count_fault ?pts pid) P p)"
       "\<forall>P. valid_pid P \<longrightarrow> pt_faults pts' P = pt_faults (count_fault ?pts pid) P" by blast
  let ?vm' = "?vm1\<lparr>g_frame_status := fs2, g_page_tables := pts',
                    g_rand_calls := (if ?pol = ''random'' then Suc (g_rand_calls vm) else g_rand_calls vm)\<rparr>"
  have step: "G_handleAccess rnd pid pg tr i vm = Inr ?vm'"
    unfolding step1 G_replace_known[OF kp1] r(2) by (simp add: e(1))
  have look: "\<forall>P p. valid_pid P \<longrightarrow> pt_lookup pts' P p =
          (if P = pid \<and> p = pg then Some v
           else if P = fst (?mem ! v) \<and> p = snd (?mem ! v) then None else pt_lookup ?pts P p)"
    using e(3) bump_lookup[OF pid len4] by simp
  have bij0: "\<forall>P p f. valid_pid P \<longrightarrow> (pt_lookup ?pts P p = Some f) = (f < length ?mem \<and> ?mem ! f = (P, p))"
    using bij by (simp add: G_bijection_def)
  have bij': "G_bijection ?vm'"
    unfolding G_bijection_def using bijection_reassign[OF bij0 vl miss pid look] by (simp add: r(3))
  have wf': "G_fs_wf fs2" using len r by (simp add: G_fs_wf_def)
  have eok': "entries_ok (g_memory fs2)" using entries_ok_update[OF eok pid] r(3) by simp
  have full': "region_full (g_memory fs2)"
    using region_full_update[OF full valid_pid_not_free[OF pid]] r(3) by simp
  then have fill': "G_fill fs2" by (simp add: G_fill_def)
  have allocc': "\<forall>f < ?n. \<not> is_free (g_memory fs2 ! f)" using full' len r(3) by (simp add: region_full_iff)
  have lru': "G_lru_ok ?vm'"
  proof -
    have "distinct (g_lru_list fs2) \<and> set (g_lru_list fs2) = {f. f < ?n}" if l: "?pol = ''lru''"
    proof -
      have e: "(f < length ?mem \<and> \<not> is_free (?mem ! f)) = (f < ?n)" for f
        using allocc len(1) by auto
      have d: "distinct (g_lru_list ?fs)" and s: "set (g_lru_list ?fs) = {f. f < ?n}"
        using lru l unfolding G_lru_ok_def e by blast+
      obtain rest where rest: "g_lru_list ?fs = v # rest"
        using lru_ne l r(8) by (cases "g_lru_list ?fs") auto
      have "removeAll v rest = rest" using d rest by (simp add: removeAll_id)
      then have "g_lru_list fs2 = rest @ [v]" using r(6) l rest by simp
      then show ?thesis using d s rest by auto
    qed
    then show ?thesis using allocc' len r(3) by (auto simp: G_lru_ok_def)
  qed
  have faults: "\<forall>P. valid_pid P \<longrightarrow> pt_faults pts' P =
              (if P = pid then pt_faults ?pts P + 1 else pt_faults ?pts P)"
    using e(4) bump_faults[OF pid len4] by simp
  have "sum_faults pts' = sum_faults (count_fault ?pts pid)" using e(4) by (rule sum_faults_cong)
  then have cnt': "g_global_page_fault_count ?vm' = sum_faults (g_page_tables ?vm')"
    using cnt sum_faults_bump[OF pid len4] by simp
  have inv': "G_inv ?vm'"
    unfolding G_inv_def using wf' e(2) bij' eok' fill' lru' cnt' by simp
  show ?thesis
    using step inv' r(1,3,4,5,7,8,9,10) look faults
    by (intro exI[of _ ?vm'] exI[of _ v]) simp
qed

lemma G_step_drop:
  assumes inv: "G_inv vm" and pid: "valid_pid pid"
    and miss: "pt_lookup (g_page_tables vm) pid pg = None"
    and full: "region_full (g_memory (g_frame_status vm))"
    and kp: "\<not> known_policy (g_replacement_policy vm)"
  shows "G_handleAccess rnd pid pg tr i vm =
           Inr (vm\<lparr>g_global_page_fault_count := g_global_page_fault_count vm + 1,
                   g_page_tables := count_fault (g_page_tables vm) pid\<rparr>) \<and>
         G_inv (vm\<lparr>g_global_page_fault_count := g_global_page_fault_count vm + 1,
                   g_page_tables := count_fault (g_page_tables vm) pid\<rparr>)"
proof -
  let ?fs = "g_frame_status vm" and ?pts = "g_page_tables vm"
  have wf: "G_fs_wf ?fs" and len4: "length ?pts = 4" and bij: "G_bijection vm"
    and fill: "G_fill ?fs" and cnt: "g_global_page_fault_count vm = sum_faults ?pts"
    using inv by (auto simp: G_inv_def)
  have occ: "\<not> is_free (g_memory ?fs ! g_nextFrame ?fs)" using G_cursor_free_iff[OF wf fill] full by simp
  have a: "G_allocateFrame pid pg ?fs = Inr (None, ?fs)" by (rule G_allocateFrame_occupied[OF wf occ])
  have step: "G_handleAccess rnd pid pg tr i vm =
           Inr (vm\<lparr>g_global_page_fault_count := g_global_page_fault_count vm + 1,
                   g_page_tables := count_fault ?pts pid\<rparr>)"
    using kp by (simp add: G_handleAccess_miss[OF pid len4 miss] a G_replace_unknown)
  have "G_inv (vm\<lparr>g_global_page_fault_count := g_global_page_fault_count vm + 1,
                   g_page_tables := count_fault ?pts pid\<rparr>)"
    using inv sum_faults_bump[OF pid len4] bump_lookup[OF pid len4]
    by (simp add: G_inv_def G_bijection_def G_lru_ok_def length_count_fault)
  with step show ?thesis by simp
qed


lemma G_handleAccess_bad_pid:
  assumes "length (g_page_tables vm) = 4" "\<not> valid_pid pid"
  shows "G_handleAccess rnd pid pg tr i vm = Inl PidOutOfRange"
  using assms by (auto simp: G_handleAccess_def valid_pid_def)

text \<open>Every step from a well-formed state succeeds and keeps the state well-formed.\<close>

lemma G_step_total:
  assumes inv: "G_inv vm" and pid: "valid_pid pid"
  shows "\<exists>vm'. G_handleAccess rnd pid pg tr i vm = Inr vm' \<and> G_inv vm' \<and>
           g_replacement_policy vm' = g_replacement_policy vm \<and>
           g_memoryFrames (g_frame_status vm') = g_memoryFrames (g_frame_status vm)"
proof (cases "pt_lookup (g_page_tables vm) pid pg")
  case (Some f)
  have len4: "length (g_page_tables vm) = 4" using inv by (simp add: G_inv_def)
  show ?thesis
    using G_handleAccess_hit[OF pid len4 Some, of rnd tr i] G_inv_hit[OF inv pid Some]
    by (auto simp: G_updateLRU_def)
next
  case None
  show ?thesis
  proof (cases "region_full (g_memory (g_frame_status vm))")
    case False
    from G_step_alloc[OF inv pid None False, of rnd tr i] show ?thesis by blast
  next
    case True
    show ?thesis
    proof (cases "known_policy (g_replacement_policy vm)")
      case kp: True
      from G_step_evict[OF inv pid None True kp, of rnd tr i] show ?thesis by blast
    next
      case kp: False
      from G_step_drop[OF inv pid None True kp, of rnd tr i] show ?thesis by auto
    qed
  qed
qed

lemma G_step_inv:
  assumes inv: "G_inv vm" and step: "G_handleAccess rnd pid pg tr i vm = Inr vm'"
  shows "G_inv vm' \<and> valid_pid pid \<and> g_replacement_policy vm' = g_replacement_policy vm \<and>
         g_memoryFrames (g_frame_status vm') = g_memoryFrames (g_frame_status vm)"
proof (cases "valid_pid pid")
  case True
  from G_step_total[OF inv True, of rnd pg tr i] step True show ?thesis by auto
next
  case False
  have "length (g_page_tables vm) = 4" using inv by (simp add: G_inv_def)
  from G_handleAccess_bad_pid[OF this False, of rnd pg tr i] step show ?thesis by simp
qed

lemma G_steps_inv:
  "G_inv vm \<Longrightarrow> G_steps rnd tr i k vm = Inr vm' \<Longrightarrow>
   G_inv vm' \<and> g_replacement_policy vm' = g_replacement_policy vm \<and>
   g_memoryFrames (g_frame_status vm') = g_memoryFrames (g_frame_status vm)"
proof (induction k arbitrary: i vm)
  case 0
  then show ?case by simp
next
  case (Suc k)
  from Suc.prems(2) obtain vm1 where
    s1: "G_handleAccess rnd (fst (tr ! i)) (snd (tr ! i)) tr i vm = Inr vm1"
    and s2: "G_steps rnd tr (Suc i) k vm1 = Inr vm'"
    by (auto split: sum.splits)
  from G_step_inv[OF Suc.prems(1) s1] Suc.IH[OF _ s2] show ?case by simp
qed

lemma G_steps_add:
  "G_steps rnd tr i (a + b) vm =
     (case G_steps rnd tr i a vm of Inl e \<Rightarrow> Inl e | Inr vm1 \<Rightarrow> G_steps rnd tr (i + a) b vm1)"
  by (induction a arbitrary: i vm) (auto split: sum.splits)

lemma G_steps_total:
  "G_inv vm \<Longrightarrow> (\<forall>j. i \<le> j \<and> j < i + k \<longrightarrow> valid_pid (fst (tr ! j))) \<Longrightarrow>
   \<exists>vm'. G_steps rnd tr i k vm = Inr vm'"
proof (induction k arbitrary: i vm)
  case 0
  then show ?case by simp
next
  case (Suc k)
  have v: "valid_pid (fst (tr ! i))" using Suc.prems(2) by simp
  from G_step_total[OF Suc.prems(1) v, of rnd "snd (tr ! i)" tr i] obtain vm1 where
    s1: "G_handleAccess rnd (fst (tr ! i)) (snd (tr ! i)) tr i vm = Inr vm1" and i1: "G_inv vm1" by blast
  have "\<forall>j. Suc i \<le> j \<and> j < Suc i + k \<longrightarrow> valid_pid (fst (tr ! j))" using Suc.prems(2) by simp
  from Suc.IH[OF i1 this] show ?case by (simp add: s1)
qed

lemma G_init_ok:
  assumes "1 \<le> nf"
  shows "\<exists>vm. G_VirtualMemoryManager_init ps nf policy = Inr vm \<and> G_inv vm \<and>
           g_replacement_policy vm = policy \<and> g_memoryFrames (g_frame_status vm) = nat nf \<and>
           g_global_page_fault_count vm = 0 \<and>
           g_memory (g_frame_status vm) = replicate (nat nf) (-1, 0) \<and>
           g_nextFrame (g_frame_status vm) = 0"
proof -
  let ?vm = "\<lparr>g_page_size = ps, g_num_frames = nf, g_replacement_policy = policy,
               g_page_tables = map PageTable_init [0, 1, 2, 3],
               g_frame_status = \<lparr>g_isEmpty = True, g_memoryFrames = nat nf,
                g_memory = replicate (nat nf) (-1, 0),
                g_nextFrame = 0, g_lru_list = []\<rparr>, g_global_page_fault_count = 0, g_rand_calls = 0\<rparr>"
  have i: "G_VirtualMemoryManager_init ps nf policy = Inr ?vm"
    using assms by (simp add: G_VirtualMemoryManager_init_def G_FrameStatus_init_def)
  have look: "pt_lookup (map PageTable_init [0, 1, 2, 3]) P p = None" if "valid_pid P" for P p
    using that unfolding valid_pid_cases by (auto simp: pt_lookup_def PageTable_init_def)
  have "G_bijection ?vm" unfolding G_bijection_def using look by (auto simp: valid_pid_def)
  moreover have "G_fs_wf (g_frame_status ?vm)" using assms by (simp add: G_fs_wf_def)
  moreover have "entries_ok (g_memory (g_frame_status ?vm))" by (simp add: entries_ok_def is_free_def)
  moreover have "G_fill (g_frame_status ?vm)" by (simp add: G_fill_def is_free_def)
  moreover have "G_lru_ok ?vm" by (auto simp: G_lru_ok_def is_free_def)
  moreover have "g_global_page_fault_count ?vm = sum_faults (g_page_tables ?vm)"
    by (simp add: sum_faults_def pt_faults_def PageTable_init_def)
  ultimately have "G_inv ?vm" by (simp add: G_inv_def)
  then show ?thesis using i by simp
qed

lemma G_run_prefix_inv:
  assumes "1 \<le> nf" "G_run_prefix rnd ps nf policy tr k = Inr vm"
  shows "G_inv vm \<and> g_replacement_policy vm = policy \<and> g_memoryFrames (g_frame_status vm) = nat nf"
proof -
  from G_init_ok[OF assms(1), of ps policy] obtain vm0 where
    i: "G_VirtualMemoryManager_init ps nf policy = Inr vm0" "G_inv vm0"
       "g_replacement_policy vm0 = policy" "g_memoryFrames (g_frame_status vm0) = nat nf" by blast
  have "G_steps rnd tr 0 k vm0 = Inr vm" using assms(2) by (simp add: G_run_prefix_def i(1))
  from G_steps_inv[OF i(2) this] i(3,4) show ?thesis by simp
qed

lemma G_run_prefix_total:
  assumes "1 \<le> nf" "\<forall>j < k. valid_pid (fst (tr ! j))"
  shows "\<exists>vm. G_run_prefix rnd ps nf policy tr k = Inr vm"
proof -
  from G_init_ok[OF assms(1), of ps policy] obtain vm0 where
    i: "G_VirtualMemoryManager_init ps nf policy = Inr vm0" "G_inv vm0" by blast
  have "\<forall>j. 0 \<le> j \<and> j < 0 + k \<longrightarrow> valid_pid (fst (tr ! j))" using assms(2) by simp
  from G_steps_total[OF i(2) this, of rnd] show ?thesis by (simp add: G_run_prefix_def i(1))
qed

subsection \<open>Steps of the partitioned engine\<close>


lemma valid_pid_in_range: "length xs = 4 \<Longrightarrow> in_range pid xs = valid_pid pid"
  by (simp add: in_range_def valid_pid_def)

lemma L_allocate_loop_find:
  assumes "in_range pid mem" "\<forall>i \<in> set is. i < length (mem ! nat pid)"
  shows "L_allocate_loop mem pid is = Inr (find (\<lambda>i. is_free (mem ! nat pid ! i)) is)"
  using assms by (induction "is") (auto simp: is_free_def)

lemma L_allocateFrame_ok:
  assumes wf: "L_fs_wf fs" and pid: "valid_pid pid"
  shows "L_allocateFrame pid pg fs =
           (case find (\<lambda>i. is_free (l_memory fs ! nat pid ! i)) [0 ..< l_memoryFramesPerProcess fs] of
              None \<Rightarrow> Inr (None, fs)
            | Some i \<Rightarrow> Inr (Some i,
                 fs\<lparr>l_memory := (l_memory fs)[nat pid := (l_memory fs ! nat pid)[i := (pid, pg)]],
                    l_lru_list := (l_lru_list fs)[nat pid := l_lru_list fs ! nat pid @ [i]]\<rparr>))"
proof -
  have r: "in_range pid (l_memory fs)" "in_range pid (l_lru_list fs)"
    using wf pid by (auto simp: L_fs_wf_def valid_pid_in_range)
  have "\<forall>i \<in> set [0 ..< l_memoryFramesPerProcess fs]. i < length (l_memory fs ! nat pid)"
    using wf pid by (auto simp: L_fs_wf_def)
  from L_allocate_loop_find[OF r(1) this] r(2) show ?thesis
    by (simp add: L_allocateFrame_def split: option.splits)
qed

lemma L_releaseFrame_ok:
  assumes "in_range pid (l_memory fs)" "in_range pid (l_lru_list fs)" "v < length (l_memory fs ! nat pid)"
  shows "L_releaseFrame pid v fs =
           Inr (fs\<lparr>l_memory := (l_memory fs)[nat pid := (l_memory fs ! nat pid)[v := (-1, 0)]],
                   l_lru_list := (l_lru_list fs)[nat pid := removeAll v (l_lru_list fs ! nat pid)]\<rparr>)"
  using assms by (simp add: L_releaseFrame_def)

lemma valid_pid_nat: "valid_pid P \<Longrightarrow> nat P < 4"
  unfolding valid_pid_def by linarith

lemma L_wf_facts:
  assumes "L_fs_wf fs" "valid_pid pid"
  shows "in_range pid (l_memory fs)" "in_range pid (l_lru_list fs)" "in_range pid (l_nextFrame fs)"
    "length (l_memory fs ! nat pid) = l_memoryFramesPerProcess fs"
    "l_nextFrame fs ! nat pid < l_memoryFramesPerProcess fs" "0 < l_memoryFramesPerProcess fs"
    "nat pid < length (l_memory fs)" "nat pid < length (l_lru_list fs)" "nat pid < length (l_nextFrame fs)"
  using assms valid_pid_nat[OF assms(2)] by (auto simp: L_fs_wf_def valid_pid_in_range)

lemma L_fifoReplacement_ok:
  assumes wf: "L_fs_wf fs" and pid: "valid_pid pid"
  shows "\<exists>fs'. L_fifoReplacement pid pg fs =
            Inr ((fst (l_memory fs ! nat pid ! (l_nextFrame fs ! nat pid)),
                  snd (l_memory fs ! nat pid ! (l_nextFrame fs ! nat pid)),
                  l_nextFrame fs ! nat pid), fs') \<and>
          l_memory fs' = (l_memory fs)[nat pid := (l_memory fs ! nat pid)[l_nextFrame fs ! nat pid := (pid, pg)]] \<and>
          l_nextFrame fs' = (l_nextFrame fs)[nat pid := (l_nextFrame fs ! nat pid + 1) mod l_memoryFramesPerProcess fs] \<and>
          l_memoryFramesPerProcess fs' = l_memoryFramesPerProcess fs \<and>
          l_lru_list fs' = (l_lru_list fs)[nat pid := removeAll (l_nextFrame fs ! nat pid) (l_lru_list fs ! nat pid)]"
proof -
  note f = L_wf_facts[OF wf pid]
  show ?thesis
    using f by (simp add: L_fifoReplacement_def L_releaseFrame_ok Let_def)
qed

lemma L_lruReplacement_ok:
  assumes wf: "L_fs_wf fs" and pid: "valid_pid pid"
    and l: "l_lru_list fs ! nat pid = v # rest" "v < l_memoryFramesPerProcess fs"
  shows "\<exists>fs'. L_lruReplacement pid pg fs =
            Inr ((fst (l_memory fs ! nat pid ! v), snd (l_memory fs ! nat pid ! v), v), fs') \<and>
          l_memory fs' = (l_memory fs)[nat pid := (l_memory fs ! nat pid)[v := (pid, pg)]] \<and>
          l_nextFrame fs' = l_nextFrame fs \<and>
          l_memoryFramesPerProcess fs' = l_memoryFramesPerProcess fs \<and>
          l_lru_list fs' = (l_lru_list fs)[nat pid := removeAll v rest @ [v]]"
proof -
  note f = L_wf_facts[OF wf pid]
  have r: "in_range pid ((l_lru_list fs)[nat pid := rest])" using f(2) by (simp add: in_range_def)
  show ?thesis
    using f l r by (simp add: L_lruReplacement_def L_releaseFrame_def Let_def)
qed

lemma L_randomReplacement_ok:
  assumes wf: "L_fs_wf fs" and pid: "valid_pid pid"
  shows "\<exists>fs'. L_randomReplacement r pid pg fs =
            Inr ((fst (l_memory fs ! nat pid ! (r mod l_memoryFramesPerProcess fs)),
                  snd (l_memory fs ! nat pid ! (r mod l_memoryFramesPerProcess fs)),
                  r mod l_memoryFramesPerProcess fs), fs') \<and>
          l_memory fs' = (l_memory fs)[nat pid := (l_memory fs ! nat pid)[r mod l_memoryFramesPerProcess fs := (pid, pg)]] \<and>
          l_nextFrame fs' = l_nextFrame fs \<and>
          l_memoryFramesPerProcess fs' = l_memoryFramesPerProcess fs \<and>
          l_lru_list fs' = (l_lru_list fs)[nat pid := removeAll (r mod l_memoryFramesPerProcess fs) (l_lru_list fs ! nat pid)]"
proof -
  note f = L_wf_facts[OF wf pid]
  show ?thesis
    using f by (simp add: L_randomReplacement_def L_releaseFrame_ok Let_def)
qed

lemma L_optimalReplacement_ok:
  assumes wf: "L_fs_wf fs" and pid: "valid_pid pid"
  shows "\<exists>v fs'. v < l_memoryFramesPerProcess fs \<and>
          spec_optimal_victim (l_memory fs ! nat pid) tr ci = Some v \<and>
          L_optimalReplacement pid pg tr ci fs =
            Inr ((fst (l_memory fs ! nat pid ! v), snd (l_memory fs ! nat pid ! v), v), fs') \<and>
          l_memory fs' = (l_memory fs)[nat pid := (l_memory fs ! nat pid)[v := (pid, pg)]] \<and>
          l_nextFrame fs' = l_nextFrame fs \<and>
          l_memoryFramesPerProcess fs' = l_memoryFramesPerProcess fs \<and>
          l_lru_list fs' = (l_lru_list fs)[nat pid := removeAll v (l_lru_list fs ! nat pid)]"
proof -
  note f = L_wf_facts[OF wf pid]
  let ?part = "l_memory fs ! nat pid"
  have len: "length ?part = l_memoryFramesPerProcess fs" "0 < length ?part" using f by auto
  from optimal_loop_spec[OF len(2), of tr ci] obtain v fi where
    v: "v < length ?part" "spec_optimal_victim ?part tr ci = Some v"
       "optimal_loop ?part tr ci [0 ..< length ?part] (None, -1, -1, -1) = Inr (Some v, fi, ?part ! v)" by blast
  obtain x y where m: "?part ! v = (x, y)" by (cases "?part ! v")
  have loop: "optimal_loop ?part tr ci [0 ..< l_memoryFramesPerProcess fs] (None, -1, -1, -1) =
          Inr (Some v, fi, x, y)" using v(3) by (simp add: len(1) m)
  have "L_optimalReplacement pid pg tr ci fs =
          Inr ((x, y, v), fs\<lparr>l_memory := (l_memory fs)[nat pid := ?part[v := (pid, pg)]],
                  l_lru_list := (l_lru_list fs)[nat pid := removeAll v (l_lru_list fs ! nat pid)]\<rparr>)"
    unfolding L_optimalReplacement_def loop using v(1) f by (simp add: L_releaseFrame_def)
  then show ?thesis using v(1,2) by (simp add: m len(1))
qed


lemma valid_pid_nat_eq: "valid_pid P \<Longrightarrow> valid_pid Q \<Longrightarrow> (nat P = nat Q) = (P = Q)"
  unfolding valid_pid_def by linarith

lemma L_bijection_update:
  assumes bij: "\<forall>P p f. valid_pid P \<longrightarrow>
                 (pt_lookup pts P p = Some f) = (f < length (mem ! nat P) \<and> mem ! nat P ! f = (P, p))"
    and pid: "valid_pid pid" and l4: "nat pid < length mem" and v: "v < length (mem ! nat pid)"
    and miss: "pt_lookup pts pid pg = None"
    and old: "is_free (mem ! nat pid ! v) \<or> fst (mem ! nat pid ! v) = pid"
    and look: "\<forall>P p. valid_pid P \<longrightarrow> pt_lookup pts' P p =
        (if P = pid \<and> p = pg then Some v
         else if P = fst (mem ! nat pid ! v) \<and> p = snd (mem ! nat pid ! v) then None else pt_lookup pts P p)"
  shows "\<forall>P p f. valid_pid P \<longrightarrow>
           (pt_lookup pts' P p = Some f) =
           (f < length (mem[nat pid := (mem ! nat pid)[v := (pid, pg)]] ! nat P) \<and>
            mem[nat pid := (mem ! nat pid)[v := (pid, pg)]] ! nat P ! f = (P, p))"
proof (intro allI impI)
  fix P p f assume P: "valid_pid P"
  let ?part = "mem ! nat pid"
  show "(pt_lookup pts' P p = Some f) =
           (f < length (mem[nat pid := ?part[v := (pid, pg)]] ! nat P) \<and>
            mem[nat pid := ?part[v := (pid, pg)]] ! nat P ! f = (P, p))"
  proof (cases "P = pid")
    case False
    then have ne: "nat P \<noteq> nat pid" using valid_pid_nat_eq[OF P pid] by simp
    have "P \<noteq> fst (?part ! v)" using old False P by (auto simp: is_free_def valid_pid_def)
    then have "pt_lookup pts' P p = pt_lookup pts P p" using look[rule_format, OF P, of p] False by simp
    then show ?thesis using bij P ne by (simp add: nth_list_update)
  next
    case True
    have nomatch: "?part ! g \<noteq> (pid, pg)" if "g < length ?part" for g
      using bij pid miss that by (metis option.distinct(1))
    have upd: "mem[nat pid := ?part[v := (pid, pg)]] ! nat P = ?part[v := (pid, pg)]"
      using True l4 by simp
    show ?thesis
    proof (cases "p = pg")
      case pg: True
      then show ?thesis unfolding upd using look[rule_format, OF P, of p] True v nomatch
        by (auto simp: nth_list_update)
    next
      case pg: False
      show ?thesis
      proof (cases "P = fst (?part ! v) \<and> p = snd (?part ! v)")
        case T2: True
        then have mv: "?part ! v = (pid, p)" using True by (simp add: prod_eq_iff)
        have l: "pt_lookup pts' P p = None" using look[rule_format, OF P, of p] pg T2 by simp
        have "pt_lookup pts pid p = Some v" using bij pid v mv by blast
        then have "g = v" if "g < length ?part" "?part ! g = (pid, p)" for g
          using bij pid that by (metis option.inject)
        then show ?thesis unfolding upd using l pg v True by (auto simp: nth_list_update)
      next
        case F2: False
        have l: "pt_lookup pts' P p = pt_lookup pts P p" using look[rule_format, OF P, of p] pg F2 by simp
        have "?part ! v \<noteq> (P, p)" using F2 by (auto simp: prod_eq_iff)
        then show ?thesis unfolding upd using l pg bij P v True by (auto simp: nth_list_update)
      qed
    qed
  qed
qed

lemma L_handleAccess_bad_pid:
  assumes "length (l_page_tables vm) = 4" "\<not> valid_pid pid"
  shows "L_handleAccess rnd pid pg tr i vm = Inl PidOutOfRange"
  using assms by (simp add: L_handleAccess_def valid_pid_in_range)

lemma L_handleAccess_hit:
  assumes "valid_pid pid" "length (l_page_tables vm) = 4" "length (l_lru_list (l_frame_status vm)) = 4"
    "pt_lookup (l_page_tables vm) pid pg = Some f"
  shows "L_handleAccess rnd pid pg tr i vm =
           Inr (if l_replacement_policy vm = ''lru''
                then vm\<lparr>l_frame_status := (l_frame_status vm)
                           \<lparr>l_lru_list := (l_lru_list (l_frame_status vm))[nat pid :=
                               removeAll f (l_lru_list (l_frame_status vm) ! nat pid) @ [f]]\<rparr>\<rparr>
                else vm)"
  using assms by (simp add: L_handleAccess_def valid_pid_in_range pt_lookup_def)

lemma L_handleAccess_miss:
  assumes "valid_pid pid" "length (l_page_tables vm) = 4" "pt_lookup (l_page_tables vm) pid pg = None"
  shows "L_handleAccess rnd pid pg tr i vm =
           (case L_allocateFrame pid pg (l_frame_status vm) of
              Inl e \<Rightarrow> Inl e
            | Inr (Some frame, fs1) \<Rightarrow>
                (case store_page (count_fault (l_page_tables vm) pid) pid pg frame of
                   Inl e \<Rightarrow> Inl e
                 | Inr pts \<Rightarrow> Inr (vm\<lparr>l_global_page_fault_count := l_global_page_fault_count vm + 1,
                                      l_frame_status := fs1, l_page_tables := pts\<rparr>))
            | Inr (None, fs1) \<Rightarrow>
                L_replace rnd pid pg tr i
                  (vm\<lparr>l_global_page_fault_count := l_global_page_fault_count vm + 1,
                      l_page_tables := count_fault (l_page_tables vm) pid, l_frame_status := fs1\<rparr>))"
  using assms
  by (simp add: L_handleAccess_def valid_pid_in_range pt_lookup_def Let_def split: sum.splits option.splits prod.splits)

lemma L_replace_known:
  assumes "known_policy (l_replacement_policy vm1)"
  shows "L_replace rnd pid pg tr i vm1 =
     (case L_policy_routine rnd pid pg tr i vm1 of
        Inl e \<Rightarrow> Inl e
      | Inr ((old_pid, old_page_no, evicted_frame), fs2) \<Rightarrow>
          (case evict_update (l_page_tables vm1) old_pid old_page_no pid pg evicted_frame of
             Inl e \<Rightarrow> Inl e
           | Inr pts \<Rightarrow>
               Inr (vm1\<lparr>l_frame_status := fs2, l_page_tables := pts,
                        l_rand_calls := (if l_replacement_policy vm1 = ''random''
                                         then Suc (l_rand_calls vm1) else l_rand_calls vm1)\<rparr>)))"
  using assms unfolding known_policy_def L_replace_def L_policy_routine_def
  by (auto split: sum.splits prod.splits)

lemma L_replace_unknown:
  assumes "\<not> known_policy (l_replacement_policy vm1)"
  shows "L_replace rnd pid pg tr i vm1 = Inr vm1"
  using assms unfolding known_policy_def L_replace_def by simp

lemma L_policy_routine_ok:
  assumes wf: "L_fs_wf (l_frame_status vm)" and pid: "valid_pid pid"
    and kp: "known_policy (l_replacement_policy vm)"
    and lru: "l_replacement_policy vm = ''lru'' \<longrightarrow>
                l_lru_list (l_frame_status vm) ! nat pid \<noteq> [] \<and>
                hd (l_lru_list (l_frame_status vm) ! nat pid) < l_memoryFramesPerProcess (l_frame_status vm)"
  shows "\<exists>v fs2. v < l_memoryFramesPerProcess (l_frame_status vm) \<and>
           L_policy_routine rnd pid pg tr i vm =
             Inr ((fst (l_memory (l_frame_status vm) ! nat pid ! v),
                   snd (l_memory (l_frame_status vm) ! nat pid ! v), v), fs2) \<and>
           l_memory fs2 = (l_memory (l_frame_status vm))[nat pid :=
                             (l_memory (l_frame_status vm) ! nat pid)[v := (pid, pg)]] \<and>
           l_memoryFramesPerProcess fs2 = l_memoryFramesPerProcess (l_frame_status vm) \<and>
           l_nextFrame fs2 = (if l_replacement_policy vm = ''fifo''
                              then (l_nextFrame (l_frame_status vm))[nat pid :=
                                     (l_nextFrame (l_frame_status vm) ! nat pid + 1) mod
                                       l_memoryFramesPerProcess (l_frame_status vm)]
                              else l_nextFrame (l_frame_status vm)) \<and>
           l_lru_list fs2 = (l_lru_list (l_frame_status vm))[nat pid :=
                              (if l_replacement_policy vm = ''lru''
                               then removeAll v (tl (l_lru_list (l_frame_status vm) ! nat pid)) @ [v]
                               else removeAll v (l_lru_list (l_frame_status vm) ! nat pid))] \<and>
           (l_replacement_policy vm = ''fifo'' \<longrightarrow> v = l_nextFrame (l_frame_status vm) ! nat pid) \<and>
           (l_replacement_policy vm = ''lru'' \<longrightarrow> v = hd (l_lru_list (l_frame_status vm) ! nat pid)) \<and>
           (l_replacement_policy vm = ''optimal'' \<longrightarrow>
              spec_optimal_victim (l_memory (l_frame_status vm) ! nat pid) tr i = Some v) \<and>
           (l_replacement_policy vm = ''random'' \<longrightarrow>
              v = rnd (l_rand_calls vm) mod l_memoryFramesPerProcess (l_frame_status vm))"
proof -
  let ?fs = "l_frame_status vm"
  note f = L_wf_facts[OF wf pid]
  consider (fifo) "l_replacement_policy vm = ''fifo''" | (lru) "l_replacement_policy vm = ''lru''"
    | (opt) "l_replacement_policy vm = ''optimal''" | (rnd) "l_replacement_policy vm = ''random''"
    using kp by (auto simp: known_policy_def)
  then show ?thesis
  proof cases
    case fifo
    from L_fifoReplacement_ok[OF wf pid, of pg] f(5) fifo show ?thesis
      by (auto simp: L_policy_routine_def)
  next
    case lru
    then obtain v rest where l: "l_lru_list ?fs ! nat pid = v # rest" "v < l_memoryFramesPerProcess ?fs"
      using assms(4) by (cases "l_lru_list ?fs ! nat pid") auto
    from L_lruReplacement_ok[OF wf pid l, of pg] l lru show ?thesis
      by (auto simp: L_policy_routine_def)
  next
    case opt
    from L_optimalReplacement_ok[OF wf pid, of tr i pg] opt show ?thesis
      by (auto simp: L_policy_routine_def)
  next
    case rnd
    have "rnd (l_rand_calls vm) mod l_memoryFramesPerProcess ?fs < l_memoryFramesPerProcess ?fs"
      using f(6) by simp
    with L_randomReplacement_ok[OF wf pid, of "rnd (l_rand_calls vm)" pg] rnd show ?thesis
      by (auto simp: L_policy_routine_def)
  qed
qed


lemma nth_update_other:
  "valid_pid P \<Longrightarrow> valid_pid pid \<Longrightarrow> P \<noteq> pid \<Longrightarrow> xs[nat pid := x] ! nat P = xs ! nat P"
  using valid_pid_nat_eq[of P pid] by simp

lemma L_inv_hit:
  assumes inv: "L_inv vm" and pid: "valid_pid pid" and hit: "pt_lookup (l_page_tables vm) pid pg = Some f"
  shows "L_inv (if l_replacement_policy vm = ''lru''
                then vm\<lparr>l_frame_status := (l_frame_status vm)
                           \<lparr>l_lru_list := (l_lru_list (l_frame_status vm))[nat pid :=
                               removeAll f (l_lru_list (l_frame_status vm) ! nat pid) @ [f]]\<rparr>\<rparr>
                else vm)"
proof (cases "l_replacement_policy vm = ''lru''")
  case False
  then show ?thesis using inv by simp
next
  case True
  let ?fs = "l_frame_status vm"
  let ?part = "l_memory ?fs ! nat pid"
  let ?lru' = "(l_lru_list ?fs)[nat pid := removeAll f (l_lru_list ?fs ! nat pid) @ [f]]"
  let ?vm' = "vm\<lparr>l_frame_status := ?fs\<lparr>l_lru_list := ?lru'\<rparr>\<rparr>"
  have wf: "L_fs_wf ?fs" using inv by (simp add: L_inv_def)
  note w = L_wf_facts[OF wf pid]
  have f: "f < length ?part" "?part ! f = (pid, pg)"
    using inv pid hit by (auto simp: L_inv_def L_bijection_def)
  then have occ: "\<not> is_free (?part ! f)" using pid by (simp add: valid_pid_not_free)
  have lru: "\<forall>P. valid_pid P \<longrightarrow> distinct (l_lru_list ?fs ! nat P) \<and>
       set (l_lru_list ?fs ! nat P) = {f. f < length (l_memory ?fs ! nat P) \<and> \<not> is_free (l_memory ?fs ! nat P ! f)}"
    using inv True by (simp add: L_inv_def L_lru_ok_def)
  have "distinct (?lru' ! nat P) \<and>
       set (?lru' ! nat P) = {f. f < length (l_memory ?fs ! nat P) \<and> \<not> is_free (l_memory ?fs ! nat P ! f)}"
    if P: "valid_pid P" for P
  proof (cases "P = pid")
    case False
    then show ?thesis using lru P by (simp add: nth_update_other[OF P pid])
  next
    case eq: True
    have fin: "f \<in> set (l_lru_list ?fs ! nat pid)" using lru pid f(1) occ by simp
    have "?lru' ! nat P = removeAll f (l_lru_list ?fs ! nat pid) @ [f]" using eq w(8) by simp
    then show ?thesis using lru pid fin eq by (auto simp: distinct_removeAll)
  qed
  then have "L_lru_ok ?vm'" by (simp add: L_lru_ok_def)
  moreover have "L_fs_wf (l_frame_status ?vm')" using wf by (simp add: L_fs_wf_def)
  moreover have "L_bijection ?vm'" using inv by (simp add: L_inv_def L_bijection_def)
  moreover have "L_entries_ok (l_frame_status ?vm')" using inv by (simp add: L_inv_def L_entries_ok_def)
  moreover have "L_fill (l_frame_status ?vm')" using inv by (simp add: L_inv_def L_fill_def)
  ultimately have "L_inv ?vm'" using inv by (simp add: L_inv_def)
  then show ?thesis using True by simp
qed

text \<open>Facts about a state whose partition \<open>pid\<close> got the new entry at frame \<open>v\<close>.\<close>

lemma L_fs_wf_update:
  assumes wf: "L_fs_wf fs" and pid: "valid_pid pid"
    and m: "l_memory fs' = (l_memory fs)[nat pid := (l_memory fs ! nat pid)[v := e]]"
    and n: "l_memoryFramesPerProcess fs' = l_memoryFramesPerProcess fs"
    and c: "l_nextFrame fs' = l_nextFrame fs \<or>
            l_nextFrame fs' = (l_nextFrame fs)[nat pid := (l_nextFrame fs ! nat pid + 1) mod l_memoryFramesPerProcess fs]"
    and l: "length (l_lru_list fs') = 4"
  shows "L_fs_wf fs'"
proof -
  note w = L_wf_facts[OF wf pid]
  have len: "length (l_memory fs' ! nat P) = l_memoryFramesPerProcess fs'" if P: "valid_pid P" for P
    using wf P w(7) unfolding m n by (cases "P = pid") (auto simp: L_fs_wf_def nth_update_other[OF _ pid])
  have nx: "l_nextFrame fs' ! nat P < l_memoryFramesPerProcess fs'" if P: "valid_pid P" for P
    using c
  proof
    assume "l_nextFrame fs' = l_nextFrame fs"
    then show ?thesis using wf P n by (simp add: L_fs_wf_def)
  next
    assume a: "l_nextFrame fs' = (l_nextFrame fs)[nat pid := (l_nextFrame fs ! nat pid + 1) mod l_memoryFramesPerProcess fs]"
    show ?thesis
    proof (cases "P = pid")
      case True
      then show ?thesis using a w(6,9) n by simp
    next
      case False
      then show ?thesis using a wf P n by (simp add: L_fs_wf_def nth_update_other[OF P pid])
    qed
  qed
  have "length (l_nextFrame fs') = 4" using c wf by (auto simp: L_fs_wf_def)
  then show ?thesis using wf len nx l n unfolding L_fs_wf_def m by simp
qed

lemma L_entries_ok_update:
  assumes e: "L_entries_ok fs" and pid: "valid_pid pid" and l4: "nat pid < length (l_memory fs)"
    and m: "l_memory fs' = (l_memory fs)[nat pid := (l_memory fs ! nat pid)[v := (pid, pg)]]"
  shows "L_entries_ok fs'"
  unfolding L_entries_ok_def
proof (intro allI impI)
  fix P f assume a: "valid_pid P \<and> f < length (l_memory fs' ! nat P)"
  then have P: "valid_pid P" by simp
  show "is_free (l_memory fs' ! nat P ! f) \<or> fst (l_memory fs' ! nat P ! f) = P"
  proof (cases "P = pid")
    case False
    have "l_memory fs' ! nat P = l_memory fs ! nat P"
      unfolding m by (simp add: nth_update_other[OF P pid False])
    then show ?thesis using e a by (simp add: L_entries_ok_def)
  next
    case True
    then show ?thesis using e a l4 unfolding m
      by (cases "f = v") (auto simp: L_entries_ok_def nth_list_update)
  qed
qed

lemma L_fill_update:
  assumes fl: "L_fill fs" and pid: "valid_pid pid" and l4: "nat pid < length (l_memory fs)"
    and m: "l_memory fs' = (l_memory fs)[nat pid := part']"
    and part': "region_full part' \<or>
                (l_nextFrame fs' ! nat pid = 0 \<and> (\<exists>k. \<forall>f < length part'. is_free (part' ! f) = (k \<le> f)))"
    and c: "\<forall>P. valid_pid P \<and> P \<noteq> pid \<longrightarrow> l_nextFrame fs' ! nat P = l_nextFrame fs ! nat P"
  shows "L_fill fs'"
  unfolding L_fill_def
proof (intro allI impI)
  fix P assume P: "valid_pid P"
  show "region_full (l_memory fs' ! nat P) \<or>
        (l_nextFrame fs' ! nat P = 0 \<and>
         (\<exists>k. \<forall>f < length (l_memory fs' ! nat P). is_free (l_memory fs' ! nat P ! f) = (k \<le> f)))"
  proof (cases "P = pid")
    case False
    then show ?thesis using fl P c unfolding m by (simp add: L_fill_def nth_update_other[OF P pid])
  next
    case True
    then show ?thesis using part' l4 unfolding m by simp
  qed
qed


lemma L_lru_ok_update:
  assumes lru: "L_lru_ok vm" and pid: "valid_pid pid"
    and l4: "nat pid < length (l_memory (l_frame_status vm))" "nat pid < length (l_lru_list (l_frame_status vm))"
    and pol: "l_replacement_policy vm' = l_replacement_policy vm"
    and m: "l_memory (l_frame_status vm') = (l_memory (l_frame_status vm))[nat pid := part']"
    and l: "l_lru_list (l_frame_status vm') = (l_lru_list (l_frame_status vm))[nat pid := lru']"
    and own: "l_replacement_policy vm = ''lru'' \<longrightarrow>
                distinct lru' \<and> set lru' = {f. f < length part' \<and> \<not> is_free (part' ! f)}"
  shows "L_lru_ok vm'"
  unfolding L_lru_ok_def
proof (intro allI impI)
  fix P assume p: "l_replacement_policy vm' = ''lru''" and P: "valid_pid P"
  have old: "distinct (l_lru_list (l_frame_status vm) ! nat P) \<and>
        set (l_lru_list (l_frame_status vm) ! nat P) =
          {f. f < length (l_memory (l_frame_status vm) ! nat P) \<and>
              \<not> is_free (l_memory (l_frame_status vm) ! nat P ! f)}"
    using lru p pol P by (simp add: L_lru_ok_def)
  show "distinct (l_lru_list (l_frame_status vm') ! nat P) \<and>
        set (l_lru_list (l_frame_status vm') ! nat P) =
          {f. f < length (l_memory (l_frame_status vm') ! nat P) \<and>
              \<not> is_free (l_memory (l_frame_status vm') ! nat P ! f)}"
  proof (cases "P = pid")
    case False
    show ?thesis unfolding m l using old by (simp add: nth_update_other[OF P pid False])
  next
    case True
    then show ?thesis unfolding m l using own p pol l4 by simp
  qed
qed

lemma L_first_free:
  assumes nf: "\<not> region_full part"
    and pre: "\<exists>k. \<forall>f < length part. is_free (part ! f) = (k \<le> f)"
  shows "\<exists>k. k < length part \<and> find (\<lambda>i. is_free (part ! i)) [0 ..< length part] = Some k \<and>
             (\<forall>f < length part. is_free (part ! f) = (k \<le> f))"
proof -
  from pre obtain k where k: "\<forall>f < length part. is_free (part ! f) = (k \<le> f)" by blast
  from nf obtain g where g: "g < length part" "is_free (part ! g)" by (auto simp: region_full_iff)
  then have "k \<le> g" using k by simp
  then have kl: "k < length part" using g(1) by simp
  have "find (\<lambda>i. is_free (part ! i)) [0 ..< length part] = Some k"
    unfolding find_upt_Some using k kl by auto
  then show ?thesis using k kl by blast
qed

lemma L_step_alloc:
  assumes inv: "L_inv vm" and pid: "valid_pid pid"
    and miss: "pt_lookup (l_page_tables vm) pid pg = None"
    and nf: "\<not> region_full (l_memory (l_frame_status vm) ! nat pid)"
  shows "\<exists>vm' k. L_handleAccess rnd pid pg tr i vm = Inr vm' \<and> L_inv vm' \<and>
           k < l_memoryFramesPerProcess (l_frame_status vm) \<and>
           find (\<lambda>i. is_free (l_memory (l_frame_status vm) ! nat pid ! i))
                [0 ..< l_memoryFramesPerProcess (l_frame_status vm)] = Some k \<and>
           is_free (l_memory (l_frame_status vm) ! nat pid ! k) \<and>
           l_nextFrame (l_frame_status vm) ! nat pid = 0 \<and>
           l_memory (l_frame_status vm') =
             (l_memory (l_frame_status vm))[nat pid := (l_memory (l_frame_status vm) ! nat pid)[k := (pid, pg)]] \<and>
           l_nextFrame (l_frame_status vm') = l_nextFrame (l_frame_status vm) \<and>
           l_memoryFramesPerProcess (l_frame_status vm') = l_memoryFramesPerProcess (l_frame_status vm) \<and>
           l_global_page_fault_count vm' = l_global_page_fault_count vm + 1 \<and>
           l_replacement_policy vm' = l_replacement_policy vm \<and>
           l_rand_calls vm' = l_rand_calls vm \<and>
           (\<forall>P p. valid_pid P \<longrightarrow> pt_lookup (l_page_tables vm') P p =
              (if P = pid \<and> p = pg then Some k else pt_lookup (l_page_tables vm) P p)) \<and>
           (\<forall>P. valid_pid P \<longrightarrow> pt_faults (l_page_tables vm') P =
              (if P = pid then pt_faults (l_page_tables vm) P + 1 else pt_faults (l_page_tables vm) P))"
proof -
  let ?fs = "l_frame_status vm" and ?pts = "l_page_tables vm"
  let ?mem = "l_memory ?fs" and ?m = "l_memoryFramesPerProcess ?fs"
  let ?part = "?mem ! nat pid"
  have wf: "L_fs_wf ?fs" and len4: "length ?pts = 4" and bij: "L_bijection vm"
    and eok: "L_entries_ok ?fs" and fill: "L_fill ?fs" and lru: "L_lru_ok vm"
    and cnt: "l_global_page_fault_count vm = sum_faults ?pts"
    using inv by (auto simp: L_inv_def)
  note w = L_wf_facts[OF wf pid]
  have c0: "l_nextFrame ?fs ! nat pid = 0"
    and pre: "\<exists>k. \<forall>f < length ?part. is_free (?part ! f) = (k \<le> f)"
    using fill pid nf by (auto simp: L_fill_def)
  from L_first_free[OF nf pre] obtain k where
    k: "k < length ?part" "find (\<lambda>i. is_free (?part ! i)) [0 ..< length ?part] = Some k"
       "\<forall>f < length ?part. is_free (?part ! f) = (k \<le> f)" by blast
  have kfree: "is_free (?part ! k)" using k(1,3) by simp
  let ?fs1 = "?fs\<lparr>l_memory := ?mem[nat pid := ?part[k := (pid, pg)]],
                    l_lru_list := (l_lru_list ?fs)[nat pid := l_lru_list ?fs ! nat pid @ [k]]\<rparr>"
  have a: "L_allocateFrame pid pg ?fs = Inr (Some k, ?fs1)"
    using L_allocateFrame_ok[OF wf pid, of pg] k(2) w(4) by simp
  have len4': "length (count_fault ?pts pid) = 4" using len4 by (simp add: length_count_fault)
  from store_page_ok[OF pid len4', of pg k] obtain pts' where
    s: "store_page (count_fault ?pts pid) pid pg k = Inr pts'" "length pts' = 4"
       "\<forall>P p. valid_pid P \<longrightarrow> pt_lookup pts' P p =
           (if P = pid \<and> p = pg then Some k else pt_lookup (count_fault ?pts pid) P p)"
       "\<forall>P. valid_pid P \<longrightarrow> pt_faults pts' P = pt_faults (count_fault ?pts pid) P" by blast
  let ?vm' = "vm\<lparr>l_global_page_fault_count := l_global_page_fault_count vm + 1,
                  l_frame_status := ?fs1, l_page_tables := pts'\<rparr>"
  have step: "L_handleAccess rnd pid pg tr i vm = Inr ?vm'"
    by (simp add: L_handleAccess_miss[OF pid len4 miss] a s(1))
  have look: "\<forall>P p. valid_pid P \<longrightarrow> pt_lookup pts' P p =
           (if P = pid \<and> p = pg then Some k else pt_lookup ?pts P p)"
    using s(3) bump_lookup[OF pid len4] by simp
  have look2: "\<forall>P p. valid_pid P \<longrightarrow> pt_lookup pts' P p =
        (if P = pid \<and> p = pg then Some k
         else if P = fst (?part ! k) \<and> p = snd (?part ! k) then None else pt_lookup ?pts P p)"
    using look kfree by (auto simp: is_free_def valid_pid_def)
  have bij0: "\<forall>P p f. valid_pid P \<longrightarrow>
      (pt_lookup ?pts P p = Some f) = (f < length (?mem ! nat P) \<and> ?mem ! nat P ! f = (P, p))"
    using bij by (simp add: L_bijection_def)
  have old: "is_free (?part ! k) \<or> fst (?part ! k) = pid" using kfree by simp
  have bij': "L_bijection ?vm'"
    unfolding L_bijection_def using L_bijection_update[OF bij0 pid w(7) k(1) miss old look2] by simp
  have wf': "L_fs_wf ?fs1"
    by (rule L_fs_wf_update[OF wf pid, where v = k and e = "(pid, pg)"]) (use wf in \<open>simp_all add: L_fs_wf_def\<close>)
  have eok': "L_entries_ok ?fs1"
    by (rule L_entries_ok_update[OF eok pid w(7), where v = k and pg = pg]) simp
  have part': "region_full (?part[k := (pid, pg)]) \<or>
                (l_nextFrame ?fs1 ! nat pid = 0 \<and>
                 (\<exists>j. \<forall>f < length (?part[k := (pid, pg)]). is_free (?part[k := (pid, pg)] ! f) = (j \<le> f)))"
  proof -
    have "\<forall>f < length (?part[k := (pid, pg)]). is_free (?part[k := (pid, pg)] ! f) = (Suc k \<le> f)"
      using k(1,3) valid_pid_not_free[OF pid, of pg] by (auto simp: nth_list_update)
    then show ?thesis using c0 by auto
  qed
  have fill': "L_fill ?fs1"
    by (rule L_fill_update[OF fill pid w(7), where part' = "?part[k := (pid, pg)]"]) (use part' in simp_all)
  have lru': "L_lru_ok ?vm'"
  proof (rule L_lru_ok_update[OF lru pid w(7,8), where part' = "?part[k := (pid, pg)]"
            and lru' = "l_lru_list ?fs ! nat pid @ [k]"])
    show "l_replacement_policy vm = ''lru'' \<longrightarrow>
            distinct (l_lru_list ?fs ! nat pid @ [k]) \<and>
            set (l_lru_list ?fs ! nat pid @ [k]) =
              {f. f < length (?part[k := (pid, pg)]) \<and> \<not> is_free (?part[k := (pid, pg)] ! f)}"
    proof
      assume "l_replacement_policy vm = ''lru''"
      then have l: "distinct (l_lru_list ?fs ! nat pid)"
        "set (l_lru_list ?fs ! nat pid) = {f. f < length ?part \<and> \<not> is_free (?part ! f)}"
        using lru pid by (auto simp: L_lru_ok_def)
      show "distinct (l_lru_list ?fs ! nat pid @ [k]) \<and>
            set (l_lru_list ?fs ! nat pid @ [k]) =
              {f. f < length (?part[k := (pid, pg)]) \<and> \<not> is_free (?part[k := (pid, pg)] ! f)}"
        using l kfree k(1) valid_pid_not_free[OF pid, of pg] by (auto simp: nth_list_update)
    qed
  qed simp_all
  have faults: "\<forall>P. valid_pid P \<longrightarrow> pt_faults pts' P =
              (if P = pid then pt_faults ?pts P + 1 else pt_faults ?pts P)"
    using s(4) bump_faults[OF pid len4] by simp
  have "sum_faults pts' = sum_faults (count_fault ?pts pid)" using s(4) by (rule sum_faults_cong)
  then have cnt': "l_global_page_fault_count ?vm' = sum_faults (l_page_tables ?vm')"
    using cnt sum_faults_bump[OF pid len4] by simp
  have inv': "L_inv ?vm'"
    unfolding L_inv_def using wf' s(2) bij' eok' fill' lru' cnt' by simp
  have km: "k < ?m" using k(1) w(4) by simp
  have fnd: "find (\<lambda>i. is_free (?part ! i)) [0 ..< ?m] = Some k" using k(2) w(4) by simp
  show ?thesis
    using step inv' km fnd kfree c0 look faults by (intro exI[of _ ?vm'] exI[of _ k]) simp
qed


lemma L_allocate_full:
  assumes wf: "L_fs_wf fs" and pid: "valid_pid pid" and full: "region_full (l_memory fs ! nat pid)"
  shows "L_allocateFrame pid pg fs = Inr (None, fs)"
proof -
  note w = L_wf_facts[OF wf pid]
  have "find (\<lambda>i. is_free (l_memory fs ! nat pid ! i)) [0 ..< l_memoryFramesPerProcess fs] = None"
    unfolding find_upt_None using full w(4) by (simp add: region_full_iff)
  then show ?thesis using L_allocateFrame_ok[OF wf pid, of pg] by simp
qed

lemma L_step_evict:
  assumes inv: "L_inv vm" and pid: "valid_pid pid"
    and miss: "pt_lookup (l_page_tables vm) pid pg = None"
    and full: "region_full (l_memory (l_frame_status vm) ! nat pid)"
    and kp: "known_policy (l_replacement_policy vm)"
  shows "\<exists>vm' v. L_handleAccess rnd pid pg tr i vm = Inr vm' \<and> L_inv vm' \<and>
           v < l_memoryFramesPerProcess (l_frame_status vm) \<and>
           fst (l_memory (l_frame_status vm) ! nat pid ! v) = pid \<and>
           l_memory (l_frame_status vm') =
             (l_memory (l_frame_status vm))[nat pid := (l_memory (l_frame_status vm) ! nat pid)[v := (pid, pg)]] \<and>
           l_memoryFramesPerProcess (l_frame_status vm') = l_memoryFramesPerProcess (l_frame_status vm) \<and>
           l_nextFrame (l_frame_status vm') =
             (if l_replacement_policy vm = ''fifo''
              then (l_nextFrame (l_frame_status vm))[nat pid :=
                     (l_nextFrame (l_frame_status vm) ! nat pid + 1) mod l_memoryFramesPerProcess (l_frame_status vm)]
              else l_nextFrame (l_frame_status vm)) \<and>
           l_global_page_fault_count vm' = l_global_page_fault_count vm + 1 \<and>
           l_replacement_policy vm' = l_replacement_policy vm \<and>
           l_rand_calls vm' = (if l_replacement_policy vm = ''random''
                               then Suc (l_rand_calls vm) else l_rand_calls vm) \<and>
           (\<forall>P p. valid_pid P \<longrightarrow> pt_lookup (l_page_tables vm') P p =
              (if P = pid \<and> p = pg then Some v
               else if P = pid \<and> p = snd (l_memory (l_frame_status vm) ! nat pid ! v)
                    then None else pt_lookup (l_page_tables vm) P p)) \<and>
           (\<forall>P. valid_pid P \<longrightarrow> pt_faults (l_page_tables vm') P =
              (if P = pid then pt_faults (l_page_tables vm) P + 1 else pt_faults (l_page_tables vm) P)) \<and>
           (l_replacement_policy vm = ''fifo'' \<longrightarrow> v = l_nextFrame (l_frame_status vm) ! nat pid) \<and>
           (l_replacement_policy vm = ''lru'' \<longrightarrow> v = hd (l_lru_list (l_frame_status vm) ! nat pid)) \<and>
           (l_replacement_policy vm = ''optimal'' \<longrightarrow>
              spec_optimal_victim (l_memory (l_frame_status vm) ! nat pid) tr i = Some v) \<and>
           (l_replacement_policy vm = ''random'' \<longrightarrow>
              v = rnd (l_rand_calls vm) mod l_memoryFramesPerProcess (l_frame_status vm))"
proof -
  let ?fs = "l_frame_status vm" and ?pts = "l_page_tables vm"
  let ?mem = "l_memory ?fs" and ?m = "l_memoryFramesPerProcess ?fs"
  let ?part = "?mem ! nat pid" and ?lru = "l_lru_list ?fs ! nat pid"
  let ?pol = "l_replacement_policy vm"
  have wf: "L_fs_wf ?fs" and len4: "length ?pts = 4" and bij: "L_bijection vm"
    and eok: "L_entries_ok ?fs" and fill: "L_fill ?fs" and lru: "L_lru_ok vm"
    and cnt: "l_global_page_fault_count vm = sum_faults ?pts"
    using inv by (auto simp: L_inv_def)
  note w = L_wf_facts[OF wf pid]
  have a: "L_allocateFrame pid pg ?fs = Inr (None, ?fs)" by (rule L_allocate_full[OF wf pid full])
  let ?vm1 = "vm\<lparr>l_global_page_fault_count := l_global_page_fault_count vm + 1,
                  l_page_tables := count_fault ?pts pid, l_frame_status := ?fs\<rparr>"
  have step1: "L_handleAccess rnd pid pg tr i vm = L_replace rnd pid pg tr i ?vm1"
    by (simp add: L_handleAccess_miss[OF pid len4 miss] a)
  have allocc: "\<forall>f < ?m. \<not> is_free (?part ! f)" using full w(4) by (simp add: region_full_iff)
  have e: "(f < length ?part \<and> \<not> is_free (?part ! f)) = (f < ?m)" for f
    using allocc w(4) by auto
  have lru_s: "distinct ?lru \<and> set ?lru = {f. f < ?m}" if l: "?pol = ''lru''"
    using lru l pid unfolding L_lru_ok_def e[symmetric] by blast
  have lru_ne: "?pol = ''lru'' \<longrightarrow> ?lru \<noteq> [] \<and> hd ?lru < ?m"
  proof
    assume l: "?pol = ''lru''"
    have s: "set ?lru = {f. f < ?m}" using lru_s[OF l] by simp
    have "0 \<in> set ?lru" unfolding s using w(6) by simp
    then have ne: "?lru \<noteq> []" by force
    then have "hd ?lru \<in> {f. f < ?m}" unfolding s[symmetric] by (rule hd_in_set)
    then show "?lru \<noteq> [] \<and> hd ?lru < ?m" using ne by simp
  qed
  have wf1: "L_fs_wf (l_frame_status ?vm1)" using wf by simp
  have kp1: "known_policy (l_replacement_policy ?vm1)" using kp by simp
  have lru1: "l_replacement_policy ?vm1 = ''lru'' \<longrightarrow>
                l_lru_list (l_frame_status ?vm1) ! nat pid \<noteq> [] \<and>
                hd (l_lru_list (l_frame_status ?vm1) ! nat pid) < l_memoryFramesPerProcess (l_frame_status ?vm1)"
    using lru_ne by simp
  have R: "\<exists>v fs2. v < ?m \<and>
       L_policy_routine rnd pid pg tr i ?vm1 = Inr ((fst (?part ! v), snd (?part ! v), v), fs2) \<and>
       l_memory fs2 = ?mem[nat pid := ?part[v := (pid, pg)]] \<and> l_memoryFramesPerProcess fs2 = ?m \<and>
       l_nextFrame fs2 = (if ?pol = ''fifo'' then (l_nextFrame ?fs)[nat pid := (l_nextFrame ?fs ! nat pid + 1) mod ?m]
                          else l_nextFrame ?fs) \<and>
       l_lru_list fs2 = (l_lru_list ?fs)[nat pid := (if ?pol = ''lru'' then removeAll v (tl ?lru) @ [v]
                          else removeAll v ?lru)] \<and>
       (?pol = ''fifo'' \<longrightarrow> v = l_nextFrame ?fs ! nat pid) \<and> (?pol = ''lru'' \<longrightarrow> v = hd ?lru) \<and>
       (?pol = ''optimal'' \<longrightarrow> spec_optimal_victim ?part tr i = Some v) \<and>
       (?pol = ''random'' \<longrightarrow> v = rnd (l_rand_calls vm) mod ?m)"
    using L_policy_routine_ok[OF wf1 pid kp1 lru1, of rnd pg tr i] by (simp cong: if_cong)
  then obtain v fs2 where
    r: "v < ?m"
       "L_policy_routine rnd pid pg tr i ?vm1 = Inr ((fst (?part ! v), snd (?part ! v), v), fs2)"
       "l_memory fs2 = ?mem[nat pid := ?part[v := (pid, pg)]]" "l_memoryFramesPerProcess fs2 = ?m"
       "l_nextFrame fs2 = (if ?pol = ''fifo'' then (l_nextFrame ?fs)[nat pid := (l_nextFrame ?fs ! nat pid + 1) mod ?m]
                          else l_nextFrame ?fs)"
       "l_lru_list fs2 = (l_lru_list ?fs)[nat pid := (if ?pol = ''lru'' then removeAll v (tl ?lru) @ [v]
                          else removeAll v ?lru)]"
       "?pol = ''fifo'' \<longrightarrow> v = l_nextFrame ?fs ! nat pid" "?pol = ''lru'' \<longrightarrow> v = hd ?lru"
       "?pol = ''optimal'' \<longrightarrow> spec_optimal_victim ?part tr i = Some v"
       "?pol = ''random'' \<longrightarrow> v = rnd (l_rand_calls vm) mod ?m"
    by blast
  have vl: "v < length ?part" using r(1) w(4) by simp
  have vocc: "\<not> is_free (?part ! v)" using allocc r(1) by simp
  then have oldpid: "fst (?part ! v) = pid" using eok vl pid by (auto simp: L_entries_ok_def)
  have len4': "length (count_fault ?pts pid) = 4" using len4 by (simp add: length_count_fault)
  from evict_update_ok[OF pid pid len4', of "snd (?part ! v)" pg v] obtain pts' where
    ev: "evict_update (count_fault ?pts pid) pid (snd (?part ! v)) pid pg v = Inr pts'"
       "length pts' = 4"
       "\<forall>P p. valid_pid P \<longrightarrow> pt_lookup pts' P p =
          (if P = pid \<and> p = pg then Some v
           else if P = pid \<and> p = snd (?part ! v) then None
                else pt_lookup (count_fault ?pts pid) P p)"
       "\<forall>P. valid_pid P \<longrightarrow> pt_faults pts' P = pt_faults (count_fault ?pts pid) P" by blast
  let ?vm' = "?vm1\<lparr>l_frame_status := fs2, l_page_tables := pts',
                    l_rand_calls := (if ?pol = ''random'' then Suc (l_rand_calls vm) else l_rand_calls vm)\<rparr>"
  have step: "L_handleAccess rnd pid pg tr i vm = Inr ?vm'"
    unfolding step1 L_replace_known[OF kp1] r(2) oldpid by (simp add: ev(1))
  have look: "\<forall>P p. valid_pid P \<longrightarrow> pt_lookup pts' P p =
          (if P = pid \<and> p = pg then Some v
           else if P = pid \<and> p = snd (?part ! v) then None else pt_lookup ?pts P p)"
    using ev(3) bump_lookup[OF pid len4] by simp
  have look2: "\<forall>P p. valid_pid P \<longrightarrow> pt_lookup pts' P p =
          (if P = pid \<and> p = pg then Some v
           else if P = fst (?part ! v) \<and> p = snd (?part ! v) then None else pt_lookup ?pts P p)"
    using look oldpid by simp
  have bij0: "\<forall>P p f. valid_pid P \<longrightarrow>
      (pt_lookup ?pts P p = Some f) = (f < length (?mem ! nat P) \<and> ?mem ! nat P ! f = (P, p))"
    using bij by (simp add: L_bijection_def)
  have old: "is_free (?part ! v) \<or> fst (?part ! v) = pid" using oldpid by simp
  have bij': "L_bijection ?vm'"
    unfolding L_bijection_def using L_bijection_update[OF bij0 pid w(7) vl miss old look2] by (simp add: r(3))
  have l4': "length (l_lru_list fs2) = 4" using r(6) wf by (simp add: L_fs_wf_def)
  have nx: "l_nextFrame fs2 = l_nextFrame ?fs \<or>
            l_nextFrame fs2 = (l_nextFrame ?fs)[nat pid := (l_nextFrame ?fs ! nat pid + 1) mod ?m]"
    using r(5) by auto
  have wf': "L_fs_wf fs2" by (rule L_fs_wf_update[OF wf pid r(3) r(4) nx l4'])
  have eok': "L_entries_ok fs2" by (rule L_entries_ok_update[OF eok pid w(7) r(3)])
  have full': "region_full (?part[v := (pid, pg)])"
    by (rule region_full_update[OF full valid_pid_not_free[OF pid]])
  have others: "\<forall>P. valid_pid P \<and> P \<noteq> pid \<longrightarrow> l_nextFrame fs2 ! nat P = l_nextFrame ?fs ! nat P"
    using r(5) pid by (auto simp: nth_update_other)
  have fill': "L_fill fs2"
    by (rule L_fill_update[OF fill pid w(7) r(3) _ others]) (use full' in simp)
  have lru': "L_lru_ok ?vm'"
  proof (rule L_lru_ok_update[OF lru pid w(7,8), where part' = "?part[v := (pid, pg)]"
            and lru' = "(if ?pol = ''lru'' then removeAll v (tl ?lru) @ [v] else removeAll v ?lru)"])
    show "?pol = ''lru'' \<longrightarrow>
            distinct (if ?pol = ''lru'' then removeAll v (tl ?lru) @ [v] else removeAll v ?lru) \<and>
            set (if ?pol = ''lru'' then removeAll v (tl ?lru) @ [v] else removeAll v ?lru) =
              {f. f < length (?part[v := (pid, pg)]) \<and> \<not> is_free (?part[v := (pid, pg)] ! f)}"
    proof
      assume l: "?pol = ''lru''"
      have d: "distinct ?lru" and s: "set ?lru = {f. f < ?m}" using lru_s[OF l] by simp_all
      obtain rest where rest: "?lru = v # rest"
        using lru_ne l r(8) by (cases ?lru) auto
      have "removeAll v rest = rest" using d rest by (simp add: removeAll_id)
      then have eq: "(if ?pol = ''lru'' then removeAll v (tl ?lru) @ [v] else removeAll v ?lru) = rest @ [v]"
        using l rest by simp
      have e': "(f < length (?part[v := (pid, pg)]) \<and> \<not> is_free (?part[v := (pid, pg)] ! f)) = (f < ?m)" for f
        using full' w(4) by (auto simp: region_full_iff)
      show "distinct (if ?pol = ''lru'' then removeAll v (tl ?lru) @ [v] else removeAll v ?lru) \<and>
            set (if ?pol = ''lru'' then removeAll v (tl ?lru) @ [v] else removeAll v ?lru) =
              {f. f < length (?part[v := (pid, pg)]) \<and> \<not> is_free (?part[v := (pid, pg)] ! f)}"
        unfolding eq e' using d s rest by auto
    qed
  qed (simp_all add: r(3,6))
  have faults: "\<forall>P. valid_pid P \<longrightarrow> pt_faults pts' P =
              (if P = pid then pt_faults ?pts P + 1 else pt_faults ?pts P)"
    using ev(4) bump_faults[OF pid len4] by simp
  have "sum_faults pts' = sum_faults (count_fault ?pts pid)" using ev(4) by (rule sum_faults_cong)
  then have cnt': "l_global_page_fault_count ?vm' = sum_faults (l_page_tables ?vm')"
    using cnt sum_faults_bump[OF pid len4] by simp
  have inv': "L_inv ?vm'"
    unfolding L_inv_def using wf' ev(2) bij' eok' fill' lru' cnt' by simp
  show ?thesis
    using step inv' r(1,3,4,5,7,8,9,10) oldpid look faults
    by (intro exI[of _ ?vm'] exI[of _ v]) simp
qed

lemma L_step_drop:
  assumes inv: "L_inv vm" and pid: "valid_pid pid"
    and miss: "pt_lookup (l_page_tables vm) pid pg = None"
    and full: "region_full (l_memory (l_frame_status vm) ! nat pid)"
    and kp: "\<not> known_policy (l_replacement_policy vm)"
  shows "L_handleAccess rnd pid pg tr i vm =
           Inr (vm\<lparr>l_global_page_fault_count := l_global_page_fault_count vm + 1,
                   l_page_tables := count_fault (l_page_tables vm) pid\<rparr>) \<and>
         L_inv (vm\<lparr>l_global_page_fault_count := l_global_page_fault_count vm + 1,
                   l_page_tables := count_fault (l_page_tables vm) pid\<rparr>)"
proof -
  let ?fs = "l_frame_status vm" and ?pts = "l_page_tables vm"
  have wf: "L_fs_wf ?fs" and len4: "length ?pts = 4"
    and cnt: "l_global_page_fault_count vm = sum_faults ?pts"
    using inv by (auto simp: L_inv_def)
  have a: "L_allocateFrame pid pg ?fs = Inr (None, ?fs)" by (rule L_allocate_full[OF wf pid full])
  have step: "L_handleAccess rnd pid pg tr i vm =
           Inr (vm\<lparr>l_global_page_fault_count := l_global_page_fault_count vm + 1,
                   l_page_tables := count_fault ?pts pid\<rparr>)"
    using kp by (simp add: L_handleAccess_miss[OF pid len4 miss] a L_replace_unknown)
  have "L_inv (vm\<lparr>l_global_page_fault_count := l_global_page_fault_count vm + 1,
                   l_page_tables := count_fault ?pts pid\<rparr>)"
    using inv sum_faults_bump[OF pid len4] bump_lookup[OF pid len4]
    by (simp add: L_inv_def L_bijection_def L_lru_ok_def length_count_fault)
  with step show ?thesis by simp
qed


lemma L_step_total:
  assumes inv: "L_inv vm" and pid: "valid_pid pid"
  shows "\<exists>vm'. L_handleAccess rnd pid pg tr i vm = Inr vm' \<and> L_inv vm' \<and>
           l_replacement_policy vm' = l_replacement_policy vm \<and>
           l_memoryFramesPerProcess (l_frame_status vm') = l_memoryFramesPerProcess (l_frame_status vm)"
proof (cases "pt_lookup (l_page_tables vm) pid pg")
  case (Some f)
  have len4: "length (l_page_tables vm) = 4" "length (l_lru_list (l_frame_status vm)) = 4"
    using inv by (simp_all add: L_inv_def L_fs_wf_def)
  show ?thesis
    using L_handleAccess_hit[OF pid len4 Some, of rnd tr i] L_inv_hit[OF inv pid Some]
    by auto
next
  case None
  show ?thesis
  proof (cases "region_full (l_memory (l_frame_status vm) ! nat pid)")
    case False
    from L_step_alloc[OF inv pid None False, of rnd tr i] show ?thesis by blast
  next
    case True
    show ?thesis
    proof (cases "known_policy (l_replacement_policy vm)")
      case kp: True
      from L_step_evict[OF inv pid None True kp, of rnd tr i] show ?thesis by blast
    next
      case kp: False
      from L_step_drop[OF inv pid None True kp, of rnd tr i] show ?thesis by auto
    qed
  qed
qed

lemma L_step_inv:
  assumes inv: "L_inv vm" and step: "L_handleAccess rnd pid pg tr i vm = Inr vm'"
  shows "L_inv vm' \<and> valid_pid pid \<and> l_replacement_policy vm' = l_replacement_policy vm \<and>
         l_memoryFramesPerProcess (l_frame_status vm') = l_memoryFramesPerProcess (l_frame_status vm)"
proof (cases "valid_pid pid")
  case True
  from L_step_total[OF inv True, of rnd pg tr i] step True show ?thesis by auto
next
  case False
  have "length (l_page_tables vm) = 4" using inv by (simp add: L_inv_def)
  from L_handleAccess_bad_pid[OF this False, of rnd pg tr i] step show ?thesis by simp
qed

lemma L_steps_inv:
  "L_inv vm \<Longrightarrow> L_steps rnd tr i k vm = Inr vm' \<Longrightarrow>
   L_inv vm' \<and> l_replacement_policy vm' = l_replacement_policy vm \<and>
   l_memoryFramesPerProcess (l_frame_status vm') = l_memoryFramesPerProcess (l_frame_status vm)"
proof (induction k arbitrary: i vm)
  case 0
  then show ?case by simp
next
  case (Suc k)
  from Suc.prems(2) obtain vm1 where
    s1: "L_handleAccess rnd (fst (tr ! i)) (snd (tr ! i)) tr i vm = Inr vm1"
    and s2: "L_steps rnd tr (Suc i) k vm1 = Inr vm'"
    by (auto split: sum.splits)
  from L_step_inv[OF Suc.prems(1) s1] Suc.IH[OF _ s2] show ?case by simp
qed

lemma L_steps_add:
  "L_steps rnd tr i (a + b) vm =
     (case L_steps rnd tr i a vm of Inl e \<Rightarrow> Inl e | Inr vm1 \<Rightarrow> L_steps rnd tr (i + a) b vm1)"
  by (induction a arbitrary: i vm) (auto split: sum.splits)

lemma L_steps_total:
  "L_inv vm \<Longrightarrow> (\<forall>j. i \<le> j \<and> j < i + k \<longrightarrow> valid_pid (fst (tr ! j))) \<Longrightarrow>
   \<exists>vm'. L_steps rnd tr i k vm = Inr vm'"
proof (induction k arbitrary: i vm)
  case 0
  then show ?case by simp
next
  case (Suc k)
  have v: "valid_pid (fst (tr ! i))" using Suc.prems(2) by simp
  from L_step_total[OF Suc.prems(1) v, of rnd "snd (tr ! i)" tr i] obtain vm1 where
    s1: "L_handleAccess rnd (fst (tr ! i)) (snd (tr ! i)) tr i vm = Inr vm1" and i1: "L_inv vm1" by blast
  have "\<forall>j. Suc i \<le> j \<and> j < Suc i + k \<longrightarrow> valid_pid (fst (tr ! j))" using Suc.prems(2) by simp
  from Suc.IH[OF i1 this] show ?case by (simp add: s1)
qed

lemma c_div_4: "0 \<le> nf \<Longrightarrow> c_div nf 4 = nf div 4"
  by (simp add: c_div_def)

lemma nth_replicate4: "valid_pid P \<Longrightarrow> replicate 4 x ! nat P = x"
  using valid_pid_nat[of P] by simp

lemma L_init_ok:
  assumes "4 \<le> nf"
  shows "\<exists>vm. L_VirtualMemoryManager_init ps nf policy = Inr vm \<and> L_inv vm \<and>
           l_replacement_policy vm = policy \<and>
           l_memoryFramesPerProcess (l_frame_status vm) = nat (nf div 4) \<and>
           l_global_page_fault_count vm = 0 \<and>
           l_memory (l_frame_status vm) = replicate 4 (replicate (nat (nf div 4)) (-1, 0)) \<and>
           l_nextFrame (l_frame_status vm) = replicate 4 0"
proof -
  let ?m = "nat (nf div 4)"
  let ?fs = "\<lparr>l_memoryFramesPerProcess = ?m, l_memory = replicate 4 (replicate ?m (-1, 0)),
                l_nextFrame = replicate 4 0, l_lru_list = replicate 4 []\<rparr>"
  let ?vm = "\<lparr>l_page_size = ps, l_num_frames = nf, l_replacement_policy = policy,
               l_page_tables = map PageTable_init [0, 1, 2, 3],
               l_frame_status = ?fs, l_global_page_fault_count = 0, l_rand_calls = 0\<rparr>"
  have m: "0 < ?m" using assms by simp
  have d: "c_div nf 4 = nf div 4" using assms by (simp add: c_div_4)
  have "\<not> nf div 4 < 0" using assms by simp
  then have i: "L_VirtualMemoryManager_init ps nf policy = Inr ?vm"
    by (simp add: L_VirtualMemoryManager_init_def L_FrameStatus_init_def d)
  have look: "pt_lookup (map PageTable_init [0, 1, 2, 3]) P p = None" if "valid_pid P" for P p
    using that unfolding valid_pid_cases by (auto simp: pt_lookup_def PageTable_init_def)
  have "L_bijection ?vm" unfolding L_bijection_def using look by (auto simp: nth_replicate4 valid_pid_def)
  moreover have "L_fs_wf ?fs" using m by (simp add: L_fs_wf_def nth_replicate4)
  moreover have "L_entries_ok ?fs" by (auto simp: L_entries_ok_def is_free_def nth_replicate4)
  moreover have "L_fill ?fs" by (auto simp: L_fill_def is_free_def nth_replicate4)
  moreover have "L_lru_ok ?vm" by (auto simp: L_lru_ok_def is_free_def nth_replicate4)
  moreover have "l_global_page_fault_count ?vm = sum_faults (l_page_tables ?vm)"
    by (simp add: sum_faults_def pt_faults_def PageTable_init_def)
  ultimately have "L_inv ?vm" by (simp add: L_inv_def)
  then show ?thesis using i by simp
qed

lemma L_run_prefix_inv:
  assumes "4 \<le> nf" "L_run_prefix rnd ps nf policy tr k = Inr vm"
  shows "L_inv vm \<and> l_replacement_policy vm = policy \<and>
         l_memoryFramesPerProcess (l_frame_status vm) = nat (nf div 4)"
proof -
  from L_init_ok[OF assms(1), of ps policy] obtain vm0 where
    i: "L_VirtualMemoryManager_init ps nf policy = Inr vm0" "L_inv vm0"
       "l_replacement_policy vm0 = policy" "l_memoryFramesPerProcess (l_frame_status vm0) = nat (nf div 4)" by blast
  have "L_steps rnd tr 0 k vm0 = Inr vm" using assms(2) by (simp add: L_run_prefix_def i(1))
  from L_steps_inv[OF i(2) this] i(3,4) show ?thesis by simp
qed

lemma L_run_prefix_total:
  assumes "4 \<le> nf" "\<forall>j < k. valid_pid (fst (tr ! j))"
  shows "\<exists>vm. L_run_prefix rnd ps nf policy tr k = Inr vm"
proof -
  from L_init_ok[OF assms(1), of ps policy] obtain vm0 where
    i: "L_VirtualMemoryManager_init ps nf policy = Inr vm0" "L_inv vm0" by blast
  have "\<forall>j. 0 \<le> j \<and> j < 0 + k \<longrightarrow> valid_pid (fst (tr ! j))" using assms(2) by simp
  from L_steps_total[OF i(2) this, of rnd] show ?thesis by (simp add: L_run_prefix_def i(1))
qed

subsection \<open>Fault counters\<close>


lemma evict_update_faults:
  assumes ok: "evict_update pts op opg pid pg f = Inr pts'" and len: "length pts = 4" and pid: "valid_pid pid"
  shows "length pts' = 4 \<and> (\<forall>P. valid_pid P \<longrightarrow> pt_faults pts' P = pt_faults pts P)"
proof (cases "valid_pid op")
  case True
  from evict_update_ok[OF True pid len, of opg pg f] ok show ?thesis by auto
next
  case False
  then show ?thesis using ok erase_page_err[OF False len, of opg] by (simp add: evict_update_def)
qed

text \<open>
  The effect of one access on the counters, with no assumption on the frame pool: a hit
  leaves every counter as it is, a miss adds one to the global counter and one to the
  counter of the accessing process.
\<close>

lemma G_handleAccess_counts:
  assumes len: "length (g_page_tables vm) = 4"
    and step: "G_handleAccess rnd pid pg tr i vm = Inr vm'"
  shows "length (g_page_tables vm') = 4 \<and> valid_pid pid \<and>
         (pt_lookup (g_page_tables vm) pid pg \<noteq> None \<longrightarrow>
            g_global_page_fault_count vm' = g_global_page_fault_count vm \<and>
            (\<forall>P. valid_pid P \<longrightarrow> pt_faults (g_page_tables vm') P = pt_faults (g_page_tables vm) P)) \<and>
         (pt_lookup (g_page_tables vm) pid pg = None \<longrightarrow>
            g_global_page_fault_count vm' = g_global_page_fault_count vm + 1 \<and>
            (\<forall>P. valid_pid P \<longrightarrow> pt_faults (g_page_tables vm') P =
               (if P = pid then pt_faults (g_page_tables vm) P + 1 else pt_faults (g_page_tables vm) P)))"
proof -
  have pid: "valid_pid pid"
    using G_handleAccess_bad_pid[OF len, of pid rnd pg tr i] step by auto
  let ?pts = "g_page_tables vm"
  have len': "length (count_fault ?pts pid) = 4" using len by (simp add: length_count_fault)
  show ?thesis
  proof (cases "pt_lookup ?pts pid pg")
    case (Some f)
    from G_handleAccess_hit[OF pid len Some, of rnd tr i] step have
      "vm' = (if g_replacement_policy vm = ''lru''
              then vm\<lparr>g_frame_status := G_updateLRU f (g_frame_status vm)\<rparr> else vm)" by simp
    then show ?thesis using Some pid len by auto
  next
    case None
    note m = G_handleAccess_miss[OF pid len None, of rnd tr i]
    have "length (g_page_tables vm') = 4 \<and>
          g_global_page_fault_count vm' = g_global_page_fault_count vm + 1 \<and>
          (\<forall>P. valid_pid P \<longrightarrow> pt_faults (g_page_tables vm') P = pt_faults (count_fault ?pts pid) P)"
    proof (cases "G_allocateFrame pid pg (g_frame_status vm)")
      case (Inl e)
      then show ?thesis using step m by simp
    next
      case (Inr r)
      obtain fr fs1 where r: "r = (fr, fs1)" by (cases r)
      show ?thesis
      proof (cases fr)
        case (Some frame)
        from store_page_ok[OF pid len', of pg frame] obtain pts' where
          s: "store_page (count_fault ?pts pid) pid pg frame = Inr pts'" "length pts' = 4"
             "\<forall>P. valid_pid P \<longrightarrow> pt_faults pts' P = pt_faults (count_fault ?pts pid) P" by blast
        have "vm' = vm\<lparr>g_global_page_fault_count := g_global_page_fault_count vm + 1,
                       g_frame_status := fs1, g_page_tables := pts'\<rparr>"
          using step m Inr r Some s(1) by simp
        then show ?thesis using s by simp
      next
        case None
        let ?vm1 = "vm\<lparr>g_global_page_fault_count := g_global_page_fault_count vm + 1,
                        g_page_tables := count_fault ?pts pid, g_frame_status := fs1\<rparr>"
        have rep: "G_replace rnd pid pg tr i ?vm1 = Inr vm'" using step m Inr r None by simp
        show ?thesis
        proof (cases "known_policy (g_replacement_policy vm)")
          case False
          then have "vm' = ?vm1" using rep G_replace_unknown[of ?vm1 rnd pid pg tr i] by simp
          then show ?thesis using len' by simp
        next
          case True
          then have kp1: "known_policy (g_replacement_policy ?vm1)" by simp
          from rep obtain op opg ev fs2 pts' where
            e: "evict_update (count_fault ?pts pid) op opg pid pg ev = Inr pts'"
            and v: "vm' = ?vm1\<lparr>g_frame_status := fs2, g_page_tables := pts',
                        g_rand_calls := (if g_replacement_policy ?vm1 = ''random''
                                         then Suc (g_rand_calls ?vm1) else g_rand_calls ?vm1)\<rparr>"
            unfolding G_replace_known[OF kp1] by (auto split: sum.splits prod.splits)
          from evict_update_faults[OF e len' pid] v show ?thesis by simp
        qed
      qed
    qed
    then show ?thesis using None pid bump_faults[OF pid len] by simp
  qed
qed

lemma L_handleAccess_counts:
  assumes len: "length (l_page_tables vm) = 4"
    and step: "L_handleAccess rnd pid pg tr i vm = Inr vm'"
  shows "length (l_page_tables vm') = 4 \<and> valid_pid pid \<and>
         (pt_lookup (l_page_tables vm) pid pg \<noteq> None \<longrightarrow>
            l_global_page_fault_count vm' = l_global_page_fault_count vm \<and>
            (\<forall>P. valid_pid P \<longrightarrow> pt_faults (l_page_tables vm') P = pt_faults (l_page_tables vm) P)) \<and>
         (pt_lookup (l_page_tables vm) pid pg = None \<longrightarrow>
            l_global_page_fault_count vm' = l_global_page_fault_count vm + 1 \<and>
            (\<forall>P. valid_pid P \<longrightarrow> pt_faults (l_page_tables vm') P =
               (if P = pid then pt_faults (l_page_tables vm) P + 1 else pt_faults (l_page_tables vm) P)))"
proof -
  have pid: "valid_pid pid"
    using L_handleAccess_bad_pid[OF len, of pid rnd pg tr i] step by auto
  let ?pts = "l_page_tables vm"
  have len': "length (count_fault ?pts pid) = 4" using len by (simp add: length_count_fault)
  show ?thesis
  proof (cases "pt_lookup ?pts pid pg")
    case (Some f)
    have "l_global_page_fault_count vm' = l_global_page_fault_count vm \<and> l_page_tables vm' = l_page_tables vm"
      using step Some pid len
      by (auto simp: L_handleAccess_def valid_pid_in_range pt_lookup_def split: if_splits)
    then show ?thesis using Some pid len by auto
  next
    case None
    note m = L_handleAccess_miss[OF pid len None, of rnd tr i]
    have "length (l_page_tables vm') = 4 \<and>
          l_global_page_fault_count vm' = l_global_page_fault_count vm + 1 \<and>
          (\<forall>P. valid_pid P \<longrightarrow> pt_faults (l_page_tables vm') P = pt_faults (count_fault ?pts pid) P)"
    proof (cases "L_allocateFrame pid pg (l_frame_status vm)")
      case (Inl e)
      then show ?thesis using step m by simp
    next
      case (Inr r)
      obtain fr fs1 where r: "r = (fr, fs1)" by (cases r)
      show ?thesis
      proof (cases fr)
        case (Some frame)
        from store_page_ok[OF pid len', of pg frame] obtain pts' where
          s: "store_page (count_fault ?pts pid) pid pg frame = Inr pts'" "length pts' = 4"
             "\<forall>P. valid_pid P \<longrightarrow> pt_faults pts' P = pt_faults (count_fault ?pts pid) P" by blast
        have "vm' = vm\<lparr>l_global_page_fault_count := l_global_page_fault_count vm + 1,
                       l_frame_status := fs1, l_page_tables := pts'\<rparr>"
          using step m Inr r Some s(1) by simp
        then show ?thesis using s by simp
      next
        case None
        let ?vm1 = "vm\<lparr>l_global_page_fault_count := l_global_page_fault_count vm + 1,
                        l_page_tables := count_fault ?pts pid, l_frame_status := fs1\<rparr>"
        have rep: "L_replace rnd pid pg tr i ?vm1 = Inr vm'" using step m Inr r None by simp
        show ?thesis
        proof (cases "known_policy (l_replacement_policy vm)")
          case False
          then have "vm' = ?vm1" using rep L_replace_unknown[of ?vm1 rnd pid pg tr i] by simp
          then show ?thesis using len' by simp
        next
          case True
          then have kp1: "known_policy (l_replacement_policy ?vm1)" by simp
          from rep obtain op opg ev fs2 pts' where
            e: "evict_update (count_fault ?pts pid) op opg pid pg ev = Inr pts'"
            and v: "vm' = ?vm1\<lparr>l_frame_status := fs2, l_page_tables := pts',
                        l_rand_calls := (if l_replacement_policy ?vm1 = ''random''
                                         then Suc (l_rand_calls ?vm1) else l_rand_calls ?vm1)\<rparr>"
            unfolding L_replace_known[OF kp1] by (auto split: sum.splits prod.splits)
          from evict_update_faults[OF e len' pid] v show ?thesis by simp
        qed
      qed
    qed
    then show ?thesis using None pid bump_faults[OF pid len] by simp
  qed
qed


lemma G_run_prefix_Suc:
  "G_run_prefix rnd ps nf policy tr (Suc k) =
     (case G_run_prefix rnd ps nf policy tr k of
        Inl e \<Rightarrow> Inl e
      | Inr vm \<Rightarrow> G_handleAccess rnd (fst (tr ! k)) (snd (tr ! k)) tr k vm)"
proof (cases "G_VirtualMemoryManager_init ps nf policy")
  case (Inl e)
  then show ?thesis by (simp add: G_run_prefix_def)
next
  case (Inr vm0)
  have "G_steps rnd tr 0 (k + 1) vm0 =
        (case G_steps rnd tr 0 k vm0 of Inl e \<Rightarrow> Inl e | Inr vm1 \<Rightarrow> G_steps rnd tr (0 + k) 1 vm1)"
    by (rule G_steps_add)
  then show ?thesis using Inr by (auto simp: G_run_prefix_def split: sum.splits)
qed

lemma L_run_prefix_Suc:
  "L_run_prefix rnd ps nf policy tr (Suc k) =
     (case L_run_prefix rnd ps nf policy tr k of
        Inl e \<Rightarrow> Inl e
      | Inr vm \<Rightarrow> L_handleAccess rnd (fst (tr ! k)) (snd (tr ! k)) tr k vm)"
proof (cases "L_VirtualMemoryManager_init ps nf policy")
  case (Inl e)
  then show ?thesis by (simp add: L_run_prefix_def)
next
  case (Inr vm0)
  have "L_steps rnd tr 0 (k + 1) vm0 =
        (case L_steps rnd tr 0 k vm0 of Inl e \<Rightarrow> Inl e | Inr vm1 \<Rightarrow> L_steps rnd tr (0 + k) 1 vm1)"
    by (rule L_steps_add)
  then show ?thesis using Inr by (auto simp: L_run_prefix_def split: sum.splits)
qed

lemma G_prefix_counts:
  "G_run_prefix rnd ps nf policy tr k = Inr vm \<Longrightarrow>
   length (g_page_tables vm) = 4 \<and> g_global_page_fault_count vm = sum_faults (g_page_tables vm)"
proof (induction k arbitrary: vm)
  case 0
  then show ?case
    by (auto simp: G_run_prefix_def G_VirtualMemoryManager_init_def sum_faults_def pt_faults_def
        PageTable_init_def split: sum.splits)
next
  case (Suc k)
  from Suc.prems obtain vm0 where p: "G_run_prefix rnd ps nf policy tr k = Inr vm0"
    and s: "G_handleAccess rnd (fst (tr ! k)) (snd (tr ! k)) tr k vm0 = Inr vm"
    by (auto simp: G_run_prefix_Suc split: sum.splits)
  from Suc.IH[OF p] have l: "length (g_page_tables vm0) = 4"
    and c: "g_global_page_fault_count vm0 = sum_faults (g_page_tables vm0)" by simp_all
  from G_handleAccess_counts[OF l s] c show ?case
    by (cases "pt_lookup (g_page_tables vm0) (fst (tr ! k)) (snd (tr ! k))")
       (auto simp: sum_faults_def valid_pid_cases)
qed

lemma L_prefix_counts:
  "L_run_prefix rnd ps nf policy tr k = Inr vm \<Longrightarrow>
   length (l_page_tables vm) = 4 \<and> l_global_page_fault_count vm = sum_faults (l_page_tables vm)"
proof (induction k arbitrary: vm)
  case 0
  then show ?case
    by (auto simp: L_run_prefix_def L_VirtualMemoryManager_init_def sum_faults_def pt_faults_def
        PageTable_init_def split: sum.splits)
next
  case (Suc k)
  from Suc.prems obtain vm0 where p: "L_run_prefix rnd ps nf policy tr k = Inr vm0"
    and s: "L_handleAccess rnd (fst (tr ! k)) (snd (tr ! k)) tr k vm0 = Inr vm"
    by (auto simp: L_run_prefix_Suc split: sum.splits)
  from Suc.IH[OF p] have l: "length (l_page_tables vm0) = 4"
    and c: "l_global_page_fault_count vm0 = sum_faults (l_page_tables vm0)" by simp_all
  from L_handleAccess_counts[OF l s] c show ?case
    by (cases "pt_lookup (l_page_tables vm0) (fst (tr ! k)) (snd (tr ! k))")
       (auto simp: sum_faults_def valid_pid_cases)
qed

lemma G_prefix_mono:
  "k \<le> k' \<Longrightarrow> G_run_prefix rnd ps nf policy tr k = Inr vm \<Longrightarrow>
   G_run_prefix rnd ps nf policy tr k' = Inr vm' \<Longrightarrow>
   g_global_page_fault_count vm \<le> g_global_page_fault_count vm' \<and>
   (\<forall>P. valid_pid P \<longrightarrow> pt_faults (g_page_tables vm) P \<le> pt_faults (g_page_tables vm') P)"
proof (induction k' arbitrary: vm' rule: dec_induct)
  case base
  then show ?case by simp
next
  case (step j)
  from step.prems(2) obtain vm0 where p: "G_run_prefix rnd ps nf policy tr j = Inr vm0"
    and s: "G_handleAccess rnd (fst (tr ! j)) (snd (tr ! j)) tr j vm0 = Inr vm'"
    by (auto simp: G_run_prefix_Suc split: sum.splits)
  have l: "length (g_page_tables vm0) = 4" using G_prefix_counts[OF p] by simp
  have st: "g_global_page_fault_count vm0 \<le> g_global_page_fault_count vm' \<and>
            (\<forall>P. valid_pid P \<longrightarrow> pt_faults (g_page_tables vm0) P \<le> pt_faults (g_page_tables vm') P)"
    using G_handleAccess_counts[OF l s]
    by (cases "pt_lookup (g_page_tables vm0) (fst (tr ! j)) (snd (tr ! j))") simp_all
  note ih = step.IH[OF step.prems(1) p]
  have "g_global_page_fault_count vm \<le> g_global_page_fault_count vm'" using st ih by linarith
  moreover have "pt_faults (g_page_tables vm) P \<le> pt_faults (g_page_tables vm') P" if "valid_pid P" for P
    using st ih that by (meson order_trans)
  ultimately show ?case by simp
qed

lemma L_prefix_mono:
  "k \<le> k' \<Longrightarrow> L_run_prefix rnd ps nf policy tr k = Inr vm \<Longrightarrow>
   L_run_prefix rnd ps nf policy tr k' = Inr vm' \<Longrightarrow>
   l_global_page_fault_count vm \<le> l_global_page_fault_count vm' \<and>
   (\<forall>P. valid_pid P \<longrightarrow> pt_faults (l_page_tables vm) P \<le> pt_faults (l_page_tables vm') P)"
proof (induction k' arbitrary: vm' rule: dec_induct)
  case base
  then show ?case by simp
next
  case (step j)
  from step.prems(2) obtain vm0 where p: "L_run_prefix rnd ps nf policy tr j = Inr vm0"
    and s: "L_handleAccess rnd (fst (tr ! j)) (snd (tr ! j)) tr j vm0 = Inr vm'"
    by (auto simp: L_run_prefix_Suc split: sum.splits)
  have l: "length (l_page_tables vm0) = 4" using L_prefix_counts[OF p] by simp
  have st: "l_global_page_fault_count vm0 \<le> l_global_page_fault_count vm' \<and>
            (\<forall>P. valid_pid P \<longrightarrow> pt_faults (l_page_tables vm0) P \<le> pt_faults (l_page_tables vm') P)"
    using L_handleAccess_counts[OF l s]
    by (cases "pt_lookup (l_page_tables vm0) (fst (tr ! j)) (snd (tr ! j))") simp_all
  note ih = step.IH[OF step.prems(1) p]
  have "l_global_page_fault_count vm \<le> l_global_page_fault_count vm'" using st ih by linarith
  moreover have "pt_faults (l_page_tables vm) P \<le> pt_faults (l_page_tables vm') P" if "valid_pid P" for P
    using st ih that by (meson order_trans)
  ultimately show ?case by simp
qed


lemma L_steps_error:
  "L_inv vm \<Longrightarrow> L_steps rnd tr i k vm = Inl e \<Longrightarrow>
   e = PidOutOfRange \<and> (\<exists>j. i \<le> j \<and> j < i + k \<and> \<not> valid_pid (fst (tr ! j)))"
proof (induction k arbitrary: i vm)
  case 0
  then show ?case by simp
next
  case (Suc k)
  show ?case
  proof (cases "valid_pid (fst (tr ! i))")
    case False
    have "length (l_page_tables vm) = 4" using Suc.prems(1) by (simp add: L_inv_def)
    from L_handleAccess_bad_pid[OF this False, of rnd "snd (tr ! i)" tr i] Suc.prems(2) False
    show ?thesis by auto
  next
    case True
    from L_step_total[OF Suc.prems(1) True, of rnd "snd (tr ! i)" tr i] obtain vm1 where
      s1: "L_handleAccess rnd (fst (tr ! i)) (snd (tr ! i)) tr i vm = Inr vm1" and i1: "L_inv vm1" by blast
    have "L_steps rnd tr (Suc i) k vm1 = Inl e" using Suc.prems(2) by (simp add: s1)
    from Suc.IH[OF i1 this] show ?thesis by (auto intro: Suc_leD)
  qed
qed

lemma G_steps_error:
  "G_inv vm \<Longrightarrow> G_steps rnd tr i k vm = Inl e \<Longrightarrow>
   e = PidOutOfRange \<and> (\<exists>j. i \<le> j \<and> j < i + k \<and> \<not> valid_pid (fst (tr ! j)))"
proof (induction k arbitrary: i vm)
  case 0
  then show ?case by simp
next
  case (Suc k)
  show ?case
  proof (cases "valid_pid (fst (tr ! i))")
    case False
    have "length (g_page_tables vm) = 4" using Suc.prems(1) by (simp add: G_inv_def)
    from G_handleAccess_bad_pid[OF this False, of rnd "snd (tr ! i)" tr i] Suc.prems(2) False
    show ?thesis by auto
  next
    case True
    from G_step_total[OF Suc.prems(1) True, of rnd "snd (tr ! i)" tr i] obtain vm1 where
      s1: "G_handleAccess rnd (fst (tr ! i)) (snd (tr ! i)) tr i vm = Inr vm1" and i1: "G_inv vm1" by blast
    have "G_steps rnd tr (Suc i) k vm1 = Inl e" using Suc.prems(2) by (simp add: s1)
    from Suc.IH[OF i1 this] show ?thesis by (auto intro: Suc_leD)
  qed
qed

lemma bijection_injective:
  assumes "\<forall>P p f. valid_pid P \<longrightarrow> (pt_lookup pts P p = Some f) = (f < length mem \<and> mem ! f = (P, p))"
    and "valid_pid P" "valid_pid P'" "pt_lookup pts P p = Some f" "pt_lookup pts P' p' = Some f"
  shows "P = P' \<and> p = p'"
proof -
  have "mem ! f = (P, p)" "mem ! f = (P', p')" using assms by blast+
  then show ?thesis by simp
qed


lemma L_run_prefix_error:
  assumes "4 \<le> nf" "L_run_prefix rnd ps nf policy tr k = Inl e"
  shows "e = PidOutOfRange \<and> (\<exists>j<k. \<not> valid_pid (fst (tr ! j)))"
proof -
  from L_init_ok[OF assms(1), of ps policy] obtain vm0 where
    i: "L_VirtualMemoryManager_init ps nf policy = Inr vm0" "L_inv vm0" by blast
  have "L_steps rnd tr 0 k vm0 = Inl e" using assms(2) by (simp add: L_run_prefix_def i(1))
  from L_steps_error[OF i(2) this] show ?thesis by auto
qed


lemma find_append_None: "find P xs = None \<Longrightarrow> find P (xs @ ys) = find P ys"
  by (induction xs) (auto split: if_splits)

lemma find_append_Some: "find P xs = Some x \<Longrightarrow> find P (xs @ ys) = Some x"
  by (induction xs) (auto split: if_splits)

lemma spec_allocate_full:
  assumes "region_full region" "c \<le> length region"
  shows "spec_allocate region c = None"
  using assms unfolding spec_allocate_def find_None_iff region_full_iff by auto

lemma spec_allocate_cursor_free:
  assumes "c < length region" "is_free (region ! c)"
  shows "spec_allocate region c = Some c"
proof -
  have "[c ..< length region] = c # [Suc c ..< length region]" using assms(1) by (simp add: upt_conv_Cons)
  then show ?thesis using assms(2) by (simp add: spec_allocate_def)
qed

lemma spec_allocate_zero: "spec_allocate region 0 = find (\<lambda>f. is_free (region ! f)) [0 ..< length region]"
  by (simp add: spec_allocate_def)


lemma next_access_Some_iff:
  "(next_access tr ci e = Some j) =
   (ci < j \<and> j < length tr \<and> tr ! j = e \<and> (\<forall>j'. ci < j' \<and> j' < j \<longrightarrow> tr ! j' \<noteq> e))"
  unfolding next_access_def find_upt_Some by (auto simp: Suc_le_eq)

lemma next_access_None_iff:
  "(next_access tr ci e = None) = (\<forall>j. ci < j \<and> j < length tr \<longrightarrow> tr ! j \<noteq> e)"
  unfolding next_access_def find_upt_None by (auto simp: Suc_le_eq)

lemma spec_optimal_victim_char:
  assumes "spec_optimal_victim mem tr ci = Some v"
  shows "v < length mem \<and>
         ((\<exists>i<length mem. next_access tr ci (mem ! i) = None) \<longrightarrow>
            next_access tr ci (mem ! v) = None \<and> (\<forall>i<v. next_access tr ci (mem ! i) \<noteq> None)) \<and>
         ((\<forall>i<length mem. next_access tr ci (mem ! i) \<noteq> None) \<longrightarrow>
            (\<forall>i<length mem. the (next_access tr ci (mem ! i)) \<le> the (next_access tr ci (mem ! v))))"
proof (cases "find (\<lambda>i. next_access tr ci (mem ! i) = None) [0 ..< length mem]")
  case (Some i0)
  then have "v = i0" using assms by (simp add: spec_optimal_victim_def)
  then show ?thesis using Some unfolding find_upt_Some by auto
next
  case None
  then have f: "find (\<lambda>i. list_all (\<lambda>k. the (next_access tr ci (mem ! k)) \<le> the (next_access tr ci (mem ! i)))
                      [0 ..< length mem]) [0 ..< length mem] = Some v"
    using assms by (simp add: spec_optimal_victim_def)
  have all: "\<forall>i<length mem. next_access tr ci (mem ! i) \<noteq> None"
    using None unfolding find_upt_None by simp
  from f have "v < length mem"
    "\<forall>k<length mem. the (next_access tr ci (mem ! k)) \<le> the (next_access tr ci (mem ! v))"
    unfolding find_upt_Some list_all_upt by simp_all
  then show ?thesis using all by auto
qed

subsection \<open>First-in-first-out: the cursor is at the oldest frame\<close>


lemma oldest_inv_evict:
  assumes inv: "oldest_inv A mem c" and full: "region_full mem" and c: "c < length mem"
    and bound: "\<forall>f. A f \<le> k" and e: "\<not> is_free e"
  shows "oldest_inv (A(c := Suc k)) (mem[c := e]) ((c + 1) mod length mem)"
proof -
  let ?n = "length mem"
  let ?c' = "Suc c mod ?n"
  have full': "region_full (mem[c := e])" by (rule region_full_update[OF full e])
  have c': "?c' = (if Suc c = ?n then 0 else Suc c)" using c by (auto simp: mod_Suc)
  have old: "A f \<le> A g" if "f < ?n" "g < ?n" "cyc_rank ?n c f \<le> cyc_rank ?n c g" for f g
    using inv full that by (simp add: oldest_inv_def)
  have "(A(c := Suc k)) f \<le> (A(c := Suc k)) g"
    if fg: "f < ?n" "g < ?n" "cyc_rank ?n ?c' f \<le> cyc_rank ?n ?c' g" for f g
  proof (cases "g = c")
    case True
    then show ?thesis using bound by (simp add: le_SucI)
  next
    case gc: False
    show ?thesis
    proof (cases "f = c")
      case True
      have "cyc_rank ?n ?c' c = ?n - 1" using c by (auto simp: cyc_rank_def c')
      moreover have "cyc_rank ?n ?c' g < ?n - 1" using c fg(2) gc by (auto simp: cyc_rank_def c')
      ultimately show ?thesis using fg(3) True by simp
    next
      case fc: False
      have r: "cyc_rank ?n c x = Suc (cyc_rank ?n ?c' x)" if "x < ?n" "x \<noteq> c" for x
        using that c by (auto simp: cyc_rank_def c')
      have "cyc_rank ?n c f \<le> cyc_rank ?n c g" using r[OF fg(1) fc] r[OF fg(2) gc] fg(3) by simp
      then show ?thesis using old[OF fg(1,2)] fc gc by simp
    qed
  qed
  then show ?thesis using full' by (simp add: oldest_inv_def)
qed

lemma oldest_inv_fill:
  assumes inv: "oldest_inv A mem c" and nfull: "\<not> region_full mem" and w: "w < length mem"
    and free: "is_free (mem ! w)" and first: "\<forall>f<w. \<not> is_free (mem ! f)"
    and bound: "\<forall>f. A f \<le> k" and e: "\<not> is_free e"
    and c': "Suc w = length mem \<longrightarrow> c' = 0"
  shows "oldest_inv (A(w := Suc k)) (mem[w := e]) c'"
proof -
  let ?n = "length mem"
  from inv nfull obtain k0 where k0: "\<forall>f < ?n. is_free (mem ! f) = (k0 \<le> f)"
    "\<forall>f g. f \<le> g \<and> g < k0 \<longrightarrow> A f \<le> A g" by (auto simp: oldest_inv_def)
  have "k0 \<le> w" using k0(1) w free by simp
  moreover have "\<not> k0 < w" using k0(1) first w by (metis less_trans order_refl)
  ultimately have wk: "w = k0" by simp
  have fr': "\<forall>f < ?n. is_free (mem[w := e] ! f) = (Suc w \<le> f)"
    using k0(1) e w wk by (auto simp: nth_list_update)
  have mono: "(A(w := Suc k)) f \<le> (A(w := Suc k)) g" if "f \<le> g" "g < Suc w" for f g
  proof (cases "g = w")
    case True
    then show ?thesis using bound by (simp add: le_SucI)
  next
    case False
    then have "g < k0" "f \<noteq> w" using that wk by auto
    then show ?thesis using k0(2) that(1) False by simp
  qed
  show ?thesis
  proof (cases "Suc w = ?n")
    case True
    then have full': "region_full (mem[w := e])" using fr' by (simp add: region_full_iff)
    have "cyc_rank ?n 0 x = x" for x by (simp add: cyc_rank_def)
    then show ?thesis using full' c' True mono by (simp add: oldest_inv_def)
  next
    case False
    then have sw: "Suc w < ?n" using w by simp
    then have "is_free (mem[w := e] ! Suc w)" using fr' by blast
    then have nfull': "\<not> region_full (mem[w := e])" using sw by (auto simp: region_full_iff)
    have "(\<forall>f < length (mem[w := e]). is_free (mem[w := e] ! f) = (Suc w \<le> f)) \<and>
          (\<forall>f g. f \<le> g \<and> g < Suc w \<longrightarrow> (A(w := Suc k)) f \<le> (A(w := Suc k)) g)"
      using fr' mono by simp
    then have "\<exists>k0. (\<forall>f < length (mem[w := e]). is_free (mem[w := e] ! f) = (k0 \<le> f)) \<and>
          (\<forall>f g. f \<le> g \<and> g < k0 \<longrightarrow> (A(w := Suc k)) f \<le> (A(w := Suc k)) g)"
      by (rule exI[of _ "Suc w"])
    then show ?thesis using nfull' unfolding oldest_inv_def by simp
  qed
qed

lemma oldest_inv_oldest:
  assumes "oldest_inv A mem c" "region_full mem" "c < length mem" "f < length mem"
  shows "A c \<le> A f"
proof -
  have "cyc_rank (length mem) c c = 0" by (simp add: cyc_rank_def)
  then show ?thesis using assms by (simp add: oldest_inv_def)
qed

lemma assigned_at_bound: "assigned_at mems k f \<le> k"
  by (induction k) (auto simp: le_SucI)

lemma assigned_at_same:
  "mems (Suc k) = mems k \<Longrightarrow> assigned_at mems (Suc k) = assigned_at mems k"
  by (rule ext) simp

lemma assigned_at_write:
  assumes "mems (Suc k) = (mems k)[w := e]" "w < length (mems k)" "e \<noteq> mems k ! w"
  shows "assigned_at mems (Suc k) = (assigned_at mems k)(w := Suc k)"
proof (rule ext)
  fix f show "assigned_at mems (Suc k) f = ((assigned_at mems k)(w := Suc k)) f"
    using assms by (cases "f = w") auto
qed


lemma not_known_fifo_lru: "''fifo'' \<noteq> ''lru''" by simp

lemma G_fifo_oldest:
  assumes nf: "1 \<le> nf"
  shows "G_run_prefix rnd ps nf ''fifo'' tr k = Inr vm \<Longrightarrow>
         oldest_inv (assigned_at (\<lambda>j. G_frames (G_run_prefix rnd ps nf ''fifo'' tr j)) k)
                    (g_memory (g_frame_status vm)) (g_nextFrame (g_frame_status vm))"
proof (induction k arbitrary: vm)
  case 0
  from G_init_ok[OF nf, of ps "''fifo''"] 0 have
    m: "g_memory (g_frame_status vm) = replicate (nat nf) (-1, 0)"
    by (auto simp: G_run_prefix_def)
  have "0 < nat nf" using nf by simp
  then have "0 < nat nf \<and> is_free (replicate (nat nf) (-1, 0) ! 0)" by (simp add: is_free_def)
  then have "\<not> region_full (replicate (nat nf) (-1, 0))"
    unfolding region_full_iff by (metis length_replicate)
  moreover have "\<forall>f < length (replicate (nat nf) (-1::int, 0::64 word)).
                   is_free (replicate (nat nf) (-1, 0) ! f) = (0 \<le> f)"
    by (simp add: is_free_def)
  ultimately show ?case unfolding oldest_inv_def m by auto
next
  case (Suc k)
  let ?mems = "\<lambda>j. G_frames (G_run_prefix rnd ps nf ''fifo'' tr j)"
  let ?pid = "fst (tr ! k)" and ?pg = "snd (tr ! k)"
  from Suc.prems obtain vm0 where p: "G_run_prefix rnd ps nf ''fifo'' tr k = Inr vm0"
    and s: "G_handleAccess rnd ?pid ?pg tr k vm0 = Inr vm"
    by (auto simp: G_run_prefix_Suc split: sum.splits)
  let ?fs = "g_frame_status vm0"
  let ?mem = "g_memory ?fs" and ?c = "g_nextFrame ?fs"
  note ih = Suc.IH[OF p]
  have inv: "G_inv vm0" and pol: "g_replacement_policy vm0 = ''fifo''"
    using G_run_prefix_inv[OF nf p] by simp_all
  have pid: "valid_pid ?pid" using G_step_inv[OF inv s] by simp
  have wf: "G_fs_wf ?fs" and fill: "G_fill ?fs" and bij: "G_bijection vm0"
    and len4: "length (g_page_tables vm0) = 4" using inv by (simp_all add: G_inv_def)
  have cl: "?c < length ?mem" using wf by (simp add: G_fs_wf_def)
  have n: "length ?mem = g_memoryFrames ?fs" using wf by (simp add: G_fs_wf_def)
  have mk: "?mems k = ?mem" by (simp add: G_frames_def p)
  have mk': "?mems (Suc k) = g_memory (g_frame_status vm)" by (simp add: G_frames_def Suc.prems)
  have bound: "\<forall>f. assigned_at ?mems k f \<le> k" by (simp add: assigned_at_bound)
  have newocc: "\<not> is_free (?pid, ?pg)" by (rule valid_pid_not_free[OF pid])
  show ?case
  proof (cases "pt_lookup (g_page_tables vm0) ?pid ?pg")
    case (Some f)
    have "vm = vm0" using G_handleAccess_hit[OF pid len4 Some, of rnd tr k] s pol by simp
    then show ?thesis using ih assigned_at_same[of ?mems k] mk mk' by simp
  next
    case None
    have ne: "(?pid, ?pg) \<noteq> ?mem ! ?c"
      using bij pid None cl unfolding G_bijection_def by (metis option.distinct(1))
    show ?thesis
    proof (cases "region_full ?mem")
      case False
      from G_step_alloc[OF inv pid None False, of rnd tr k] s have
        a: "is_free (?mem ! ?c)" "g_memory (g_frame_status vm) = ?mem[?c := (?pid, ?pg)]"
           "g_nextFrame (g_frame_status vm) = (?c + 1) mod g_memoryFrames ?fs"
        by auto
      have first: "\<forall>f < ?c. \<not> is_free (?mem ! f)"
        using fill False cl by (auto simp: G_fill_def)
      have c': "Suc ?c = length ?mem \<longrightarrow> g_nextFrame (g_frame_status vm) = 0"
        using a(3) n by simp
      have w: "assigned_at ?mems (Suc k) = (assigned_at ?mems k)(?c := Suc k)"
        by (rule assigned_at_write) (use ne in \<open>simp_all add: mk mk' a(2) cl\<close>)
      show ?thesis unfolding w a(2)
        by (rule oldest_inv_fill[OF ih False cl a(1) first bound newocc c'])
    next
      case True
      have kp: "known_policy (g_replacement_policy vm0)" using pol by (simp add: known_policy_def)
      from G_step_evict[OF inv pid None True kp, of rnd tr k] s pol have
        a: "g_memory (g_frame_status vm) = ?mem[?c := (?pid, ?pg)]"
           "g_nextFrame (g_frame_status vm) = (?c + 1) mod g_memoryFrames ?fs"
        by auto
      have w: "assigned_at ?mems (Suc k) = (assigned_at ?mems k)(?c := Suc k)"
        by (rule assigned_at_write) (use ne in \<open>simp_all add: mk mk' a(1) cl\<close>)
      show ?thesis unfolding w a n[symmetric]
        by (rule oldest_inv_evict[OF ih True cl bound newocc])
    qed
  qed
qed


lemma L_fifo_oldest:
  assumes nf: "4 \<le> nf" and P: "valid_pid P"
  shows "L_run_prefix rnd ps nf ''fifo'' tr k = Inr vm \<Longrightarrow>
         oldest_inv (assigned_at (\<lambda>j. L_frames (L_run_prefix rnd ps nf ''fifo'' tr j) ! nat P) k)
                    (l_memory (l_frame_status vm) ! nat P) (l_nextFrame (l_frame_status vm) ! nat P)"
proof (induction k arbitrary: vm)
  case 0
  from L_init_ok[OF nf, of ps "''fifo''"] 0 have
    m: "l_memory (l_frame_status vm) = replicate 4 (replicate (nat (nf div 4)) (-1, 0))"
    by (auto simp: L_run_prefix_def)
  have m': "l_memory (l_frame_status vm) ! nat P = replicate (nat (nf div 4)) (-1, 0)"
    unfolding m by (rule nth_replicate4[OF P])
  have "0 < nat (nf div 4)" using nf by simp
  then have "0 < nat (nf div 4) \<and> is_free (replicate (nat (nf div 4)) (-1, 0) ! 0)" by (simp add: is_free_def)
  then have "\<not> region_full (replicate (nat (nf div 4)) (-1, 0))"
    unfolding region_full_iff by (metis length_replicate)
  moreover have "\<forall>f < length (replicate (nat (nf div 4)) (-1::int, 0::64 word)).
                   is_free (replicate (nat (nf div 4)) (-1, 0) ! f) = (0 \<le> f)"
    by (simp add: is_free_def)
  ultimately show ?case unfolding oldest_inv_def m' by auto
next
  case (Suc k)
  let ?mems = "\<lambda>j. L_frames (L_run_prefix rnd ps nf ''fifo'' tr j) ! nat P"
  let ?pid = "fst (tr ! k)" and ?pg = "snd (tr ! k)"
  from Suc.prems obtain vm0 where p: "L_run_prefix rnd ps nf ''fifo'' tr k = Inr vm0"
    and s: "L_handleAccess rnd ?pid ?pg tr k vm0 = Inr vm"
    by (auto simp: L_run_prefix_Suc split: sum.splits)
  let ?fs = "l_frame_status vm0"
  let ?part = "l_memory ?fs ! nat P" and ?c = "l_nextFrame ?fs ! nat P"
  note ih = Suc.IH[OF p]
  have inv: "L_inv vm0" and pol: "l_replacement_policy vm0 = ''fifo''"
    using L_run_prefix_inv[OF nf p] by simp_all
  have pid: "valid_pid ?pid" using L_step_inv[OF inv s] by simp
  have wf: "L_fs_wf ?fs" and fill: "L_fill ?fs" and bij: "L_bijection vm0"
    and len4: "length (l_page_tables vm0) = 4" using inv by (simp_all add: L_inv_def)
  note w = L_wf_facts[OF wf P]
  have l4: "length (l_lru_list ?fs) = 4" using wf by (simp add: L_fs_wf_def)
  have cl: "?c < length ?part" using w(4,5) by simp
  have mk: "?mems k = ?part" by (simp add: L_frames_def p)
  have mk': "?mems (Suc k) = l_memory (l_frame_status vm) ! nat P" by (simp add: L_frames_def Suc.prems)
  have bound: "\<forall>f. assigned_at ?mems k f \<le> k" by (simp add: assigned_at_bound)
  have newocc: "\<not> is_free (?pid, ?pg)" by (rule valid_pid_not_free[OF pid])
  have kp: "known_policy (l_replacement_policy vm0)" using pol by (simp add: known_policy_def)
  show ?case
  proof (cases "pt_lookup (l_page_tables vm0) ?pid ?pg")
    case (Some f)
    have "vm = vm0" using L_handleAccess_hit[OF pid len4 l4 Some, of rnd tr k] s pol by simp
    then show ?thesis using ih assigned_at_same[of ?mems k] mk mk' by simp
  next
    case None
    show ?thesis
    proof (cases "?pid = P")
      case False
      then have ne: "P \<noteq> ?pid" by simp
      have same: "l_memory (l_frame_status vm) ! nat P = ?part \<and> l_nextFrame (l_frame_status vm) ! nat P = ?c"
      proof (cases "region_full (l_memory ?fs ! nat ?pid)")
        case nfull: False
        from L_step_alloc[OF inv pid None nfull, of rnd tr k] s obtain j where
          "l_memory (l_frame_status vm) = (l_memory ?fs)[nat ?pid := (l_memory ?fs ! nat ?pid)[j := (?pid, ?pg)]]"
          "l_nextFrame (l_frame_status vm) = l_nextFrame ?fs" by auto
        then show ?thesis by (simp add: nth_update_other[OF P pid ne])
      next
        case full: True
        from L_step_evict[OF inv pid None full kp, of rnd tr k] s pol obtain v where
          "l_memory (l_frame_status vm) = (l_memory ?fs)[nat ?pid := (l_memory ?fs ! nat ?pid)[v := (?pid, ?pg)]]"
          "l_nextFrame (l_frame_status vm) = (l_nextFrame ?fs)[nat ?pid :=
              (l_nextFrame ?fs ! nat ?pid + 1) mod l_memoryFramesPerProcess ?fs]" by auto
        then show ?thesis by (simp add: nth_update_other[OF P pid ne])
      qed
      then show ?thesis using ih assigned_at_same[of ?mems k] mk mk' by simp
    next
      case True
      have miss: "pt_lookup (l_page_tables vm0) P ?pg = None" using None True by simp
      have nomatch: "(P, ?pg) \<noteq> ?part ! g" if "g < length ?part" for g
        using bij P miss that unfolding L_bijection_def by (metis option.distinct(1))
      have l4m: "nat P < length (l_memory ?fs)" "nat P < length (l_nextFrame ?fs)" using w by simp_all
      show ?thesis
      proof (cases "region_full ?part")
        case nfull: False
        then have nf': "\<not> region_full (l_memory ?fs ! nat ?pid)" using True by simp
        from L_step_alloc[OF inv pid None nf', of rnd tr k] s True obtain j where
          a: "j < l_memoryFramesPerProcess ?fs"
             "find (\<lambda>i. is_free (?part ! i)) [0 ..< l_memoryFramesPerProcess ?fs] = Some j"
             "is_free (?part ! j)"
             "l_memory (l_frame_status vm) = (l_memory ?fs)[nat P := ?part[j := (P, ?pg)]]"
             "l_nextFrame (l_frame_status vm) = l_nextFrame ?fs" "?c = 0"
          by auto
        have jl: "j < length ?part" using a(1) w(4) by simp
        have first: "\<forall>f < j. \<not> is_free (?part ! f)" using a(2) unfolding find_upt_Some by simp
        have m': "l_memory (l_frame_status vm) ! nat P = ?part[j := (P, ?pg)]"
          using a(4) l4m by simp
        have c': "Suc j = length ?part \<longrightarrow> l_nextFrame (l_frame_status vm) ! nat P = 0"
          using a(5,6) by simp
        have wr: "assigned_at ?mems (Suc k) = (assigned_at ?mems k)(j := Suc k)"
          by (rule assigned_at_write[where e = "(P, ?pg)"]) (use nomatch[OF jl] in \<open>simp_all add: mk mk' m' jl\<close>)
        have occ: "\<not> is_free (P, ?pg)" by (rule valid_pid_not_free[OF P])
        show ?thesis unfolding wr m'
          by (rule oldest_inv_fill[OF ih nfull jl a(3) first bound occ c'])
      next
        case full: True
        then have f': "region_full (l_memory ?fs ! nat ?pid)" using True by simp
        from L_step_evict[OF inv pid None f' kp, of rnd tr k] s pol True have
          a: "l_memory (l_frame_status vm) = (l_memory ?fs)[nat P := ?part[?c := (P, ?pg)]]"
             "l_nextFrame (l_frame_status vm) = (l_nextFrame ?fs)[nat P := (?c + 1) mod l_memoryFramesPerProcess ?fs]"
          by auto
        have m': "l_memory (l_frame_status vm) ! nat P = ?part[?c := (P, ?pg)]"
          using a(1) l4m by simp
        have c': "l_nextFrame (l_frame_status vm) ! nat P = (?c + 1) mod length ?part"
          using a(2) l4m w(4) by simp
        have wr: "assigned_at ?mems (Suc k) = (assigned_at ?mems k)(?c := Suc k)"
          by (rule assigned_at_write[where e = "(P, ?pg)"]) (use nomatch[OF cl] in \<open>simp_all add: mk mk' m' cl\<close>)
        have occ: "\<not> is_free (P, ?pg)" by (rule valid_pid_not_free[OF P])
        show ?thesis unfolding wr m' c'
          by (rule oldest_inv_evict[OF ih full cl bound occ])
      qed
    qed
  qed
qed

section \<open>Fewest faults: the clairvoyant rule\<close>



lemma nxt_Nil: "nxt x [] = 0" by (simp add: nxt_def)

lemma nxt_Cons: "nxt x (r # \<sigma>) = (if r = x then 0 else Suc (nxt x \<sigma>))"
  by (simp add: nxt_def)

lemma in_region_subset: "S \<subseteq> S' \<Longrightarrow> in_region reg S \<rho> \<subseteq> in_region reg S' \<rho>"
  by (auto simp: in_region_def)

lemma in_region_finite: "finite S \<Longrightarrow> finite (in_region reg S \<rho>)"
  by (simp add: in_region_def)

lemma in_region_insert:
  "in_region reg (insert r S) \<rho> = (if reg r = \<rho> then insert r (in_region reg S \<rho>) else in_region reg S \<rho>)"
  by (auto simp: in_region_def)

lemma in_region_remove:
  "in_region reg (S - {z}) \<rho> = in_region reg S \<rho> - {z}"
  by (auto simp: in_region_def)

lemma cap_ok_subset: "cap_ok reg cap S' \<Longrightarrow> S \<subseteq> S' \<Longrightarrow> cap_ok reg cap S"
  unfolding cap_ok_def
  by (meson card_mono dual_order.trans finite_subset in_region_finite in_region_subset)

lemma cap_ok_add:
  assumes "cap_ok reg cap S" "card (in_region reg S (reg r)) < cap"
  shows "cap_ok reg cap (insert r S)"
proof -
  have f: "finite S" using assms(1) by (simp add: cap_ok_def)
  have "card (in_region reg (insert r S) \<rho>) \<le> cap" for \<rho>
  proof (cases "reg r = \<rho>")
    case True
    have "card (insert r (in_region reg S \<rho>)) \<le> Suc (card (in_region reg S \<rho>))"
      by (simp add: card_insert_le_m1 in_region_finite[OF f] card_insert_if)
    then show ?thesis using assms(2) True by (simp add: in_region_insert)
  next
    case False
    then show ?thesis using assms(1) by (simp add: in_region_insert cap_ok_def)
  qed
  then show ?thesis using f by (simp add: cap_ok_def)
qed

lemma card_region_remove:
  assumes "finite S" "z \<in> S" "reg z = \<rho>"
  shows "Suc (card (in_region reg (S - {z}) \<rho>)) = card (in_region reg S \<rho>)"
proof -
  have "z \<in> in_region reg S \<rho>" using assms by (simp add: in_region_def)
  then show ?thesis
    unfolding in_region_remove
    by (rule card_Suc_Diff1[OF in_region_finite[OF assms(1)]])
qed

lemma cap_ok_swap:
  assumes "cap_ok reg cap S" "z \<in> S" "reg z = reg r"
  shows "cap_ok reg cap (insert r (S - {z}))"
proof -
  have f: "finite S" using assms(1) by (simp add: cap_ok_def)
  have c: "cap_ok reg cap (S - {z})" using assms(1) by (rule cap_ok_subset) auto
  have "card (in_region reg (S - {z}) (reg r)) < cap"
    using card_region_remove[of S z reg "reg r", OF f assms(2,3)] assms(1) by (metis Suc_le_lessD cap_ok_def)
  then show ?thesis using cap_ok_add[OF c] by simp
qed

text \<open>More faults allowed is no harder.\<close>

lemma can_mono: "can reg cap S \<sigma> k \<Longrightarrow> k \<le> k' \<Longrightarrow> can reg cap S \<sigma> k'"
proof (induction \<sigma> arbitrary: S k k')
  case Nil
  then show ?case by simp
next
  case (Cons r \<sigma>)
  show ?case
  proof (cases "r \<in> S")
    case True
    then show ?thesis using Cons by simp
  next
    case False
    then obtain j where k: "k = Suc j" using Cons.prems(1) by (cases k) auto
    then obtain j' where k': "k' = Suc j'" "j \<le> j'" using Cons.prems(2) by (cases k') auto
    show ?thesis using Cons.prems(1) False k k' Cons.IH by auto
  qed
qed

text \<open>
  The shape of a fault: the new page joins a set \<open>U\<close> that is the old resident set,
  perhaps without one page of the region, and that leaves room in the region.
\<close>

lemma can_fault_iff:
  assumes ok: "cap_ok reg cap S" and r: "r \<notin> S"
  shows "can reg cap S (r # \<sigma>) (Suc k) =
         (\<exists>U. (U = S \<or> (\<exists>z \<in> S. reg z = reg r \<and> U = S - {z})) \<and>
              card (in_region reg U (reg r)) < cap \<and> can reg cap (insert r U) \<sigma> k)"
proof -
  have f: "finite S" using ok by (simp add: cap_ok_def)
  have lt: "card (in_region reg (S - {z}) (reg r)) < cap" if "z \<in> S" "reg z = reg r" for z
    using card_region_remove[of S z reg "reg r", OF f that] ok by (metis Suc_le_lessD cap_ok_def)
  show ?thesis using r lt by auto
qed



lemma fault_step_ok:
  assumes ok: "cap_ok reg cap S"
    and U: "U = S \<or> (\<exists>z \<in> S. reg z = reg r \<and> U = S - {z})"
    and lt: "card (in_region reg U (reg r)) < cap"
  shows "U \<subseteq> S" "cap_ok reg cap U" "cap_ok reg cap (insert r U)"
proof -
  show 1: "U \<subseteq> S" using U by auto
  show 2: "cap_ok reg cap U" using cap_ok_subset[OF ok 1] .
  show "cap_ok reg cap (insert r U)" using cap_ok_add[OF 2 lt] .
qed

text \<open>
  A fault can always be served so that a given set \<open>Y\<close> of resident pages stays, as long
  as \<open>Y\<close> leaves room in the region of the requested page.
\<close>

lemma fault_cover:
  assumes ok: "cap_ok reg cap S'"
    and Y: "Y \<subseteq> S'" and lt: "card (in_region reg Y (reg r)) < cap"
  shows "\<exists>U'. (U' = S' \<or> (\<exists>z \<in> S'. reg z = reg r \<and> U' = S' - {z})) \<and>
              card (in_region reg U' (reg r)) < cap \<and> Y \<subseteq> U'"
proof (cases "card (in_region reg S' (reg r)) < cap")
  case True
  then show ?thesis using Y by auto
next
  case False
  have f: "finite S'" using ok by (simp add: cap_ok_def)
  have "card (in_region reg Y (reg r)) < card (in_region reg S' (reg r))"
    using False lt by simp
  moreover have "in_region reg Y (reg r) \<subseteq> in_region reg S' (reg r)"
    using Y by (rule in_region_subset)
  ultimately obtain z where z: "z \<in> in_region reg S' (reg r)" "z \<notin> in_region reg Y (reg r)"
    by (metis less_irrefl subsetI subset_antisym)
  have zS: "z \<in> S'" and zr: "reg z = reg r" and zY: "z \<notin> Y"
    using z by (auto simp: in_region_def)
  have "card (in_region reg (S' - {z}) (reg r)) < cap"
    using card_region_remove[of S' z reg "reg r", OF f zS zr] ok
    by (metis Suc_le_lessD cap_ok_def)
  moreover have "Y \<subseteq> S' - {z}" using Y zY by auto
  ultimately show ?thesis using zS zr by blast
qed

text \<open>A larger resident set is no worse.\<close>

lemma can_superset:
  "can reg cap S \<sigma> k \<Longrightarrow> S \<subseteq> S' \<Longrightarrow> cap_ok reg cap S' \<Longrightarrow> can reg cap S' \<sigma> k"
proof (induction \<sigma> arbitrary: S S' k)
  case Nil
  then show ?case by simp
next
  case (Cons r \<sigma>)
  have okS: "cap_ok reg cap S" using cap_ok_subset[OF Cons.prems(3,2)] .
  show ?case
  proof (cases "r \<in> S")
    case True
    then have "can reg cap S \<sigma> k" "r \<in> S'" using Cons.prems by auto
    then show ?thesis using Cons.IH[OF _ Cons.prems(2,3)] by simp
  next
    case rS: False
    then obtain j where k: "k = Suc j" using Cons.prems(1) by (cases k) auto
    obtain U where U: "U = S \<or> (\<exists>z \<in> S. reg z = reg r \<and> U = S - {z})"
        "card (in_region reg U (reg r)) < cap" "can reg cap (insert r U) \<sigma> j"
      using Cons.prems(1) unfolding k can_fault_iff[OF okS rS] by blast
    have US: "U \<subseteq> S" using fault_step_ok(1)[OF okS U(1,2)] .
    show ?thesis
    proof (cases "r \<in> S'")
      case True
      have "insert r U \<subseteq> S'" using US Cons.prems(2) True by auto
      then have "can reg cap S' \<sigma> j" using Cons.IH[OF U(3) _ Cons.prems(3)] by simp
      then have "can reg cap S' \<sigma> k" using can_mono k by (metis le_SucI order_refl)
      then show ?thesis using True by simp
    next
      case False
      have "U \<subseteq> S'" using US Cons.prems(2) by auto
      from fault_cover[OF Cons.prems(3) this U(2)]
      obtain U' where U': "U' = S' \<or> (\<exists>z \<in> S'. reg z = reg r \<and> U' = S' - {z})"
          "card (in_region reg U' (reg r)) < cap" "U \<subseteq> U'" by blast
      have ok': "cap_ok reg cap (insert r U')" using fault_step_ok(3)[OF Cons.prems(3) U'(1,2)] .
      have "insert r U \<subseteq> insert r U'" using U'(3) by auto
      then have "can reg cap (insert r U') \<sigma> j" using Cons.IH[OF U(3) _ ok'] by simp
      then show ?thesis unfolding k can_fault_iff[OF Cons.prems(3) False] using U'(1,2) by blast
    qed
  qed
qed

text \<open>A resident set that lacks one page is at most one fault behind.\<close>

lemma can_behind:
  "can reg cap S \<sigma> k \<Longrightarrow> S - {a} \<subseteq> S' \<Longrightarrow> cap_ok reg cap S \<Longrightarrow> cap_ok reg cap S' \<Longrightarrow>
   can reg cap S' \<sigma> (Suc k)"
proof (induction \<sigma> arbitrary: S S' k)
  case Nil
  then show ?case by simp
next
  case (Cons r \<sigma>)
  note okS = Cons.prems(3) and okS' = Cons.prems(4)
  have fS: "finite S" using okS by (simp add: cap_ok_def)
  show ?case
  proof (cases "r \<in> S")
    case rS: True
    then have c: "can reg cap S \<sigma> k" using Cons.prems(1) by simp
    show ?thesis
    proof (cases "r \<in> S'")
      case True
      then show ?thesis using Cons.IH[OF c Cons.prems(2) okS okS'] by simp
    next
      case False
      then have ra: "r = a" using rS Cons.prems(2) by auto
      have "card (in_region reg (S - {r}) (reg r)) < cap"
        using card_region_remove[of S r reg "reg r", OF fS rS] okS
        by (metis Suc_le_lessD cap_ok_def)
      from fault_cover[OF okS' _ this] Cons.prems(2) ra
      obtain U' where U': "U' = S' \<or> (\<exists>z \<in> S'. reg z = reg r \<and> U' = S' - {z})"
          "card (in_region reg U' (reg r)) < cap" "S - {r} \<subseteq> U'" by blast
      have ok': "cap_ok reg cap (insert r U')" using fault_step_ok(3)[OF okS' U'(1,2)] .
      have "S \<subseteq> insert r U'" using U'(3) by auto
      then have "can reg cap (insert r U') \<sigma> k" using can_superset[OF c _ ok'] by simp
      then show ?thesis unfolding can_fault_iff[OF okS' False] using U'(1,2) by blast
    qed
  next
    case rS: False
    then obtain j where k: "k = Suc j" using Cons.prems(1) by (cases k) auto
    obtain U where U: "U = S \<or> (\<exists>z \<in> S. reg z = reg r \<and> U = S - {z})"
        "card (in_region reg U (reg r)) < cap" "can reg cap (insert r U) \<sigma> j"
      using Cons.prems(1) unfolding k can_fault_iff[OF okS rS] by blast
    have US: "U \<subseteq> S" and okU: "cap_ok reg cap (insert r U)"
      using fault_step_ok[OF okS U(1,2)] by auto
    show ?thesis
    proof (cases "r \<in> S'")
      case True
      have "insert r U - {a} \<subseteq> S'" using US Cons.prems(2) True by auto
      then have "can reg cap S' \<sigma> (Suc j)" using Cons.IH[OF U(3) _ okU okS'] by simp
      then have "can reg cap S' \<sigma> (Suc k)" using can_mono k by (metis le_SucI order_refl)
      then show ?thesis using True by simp
    next
      case False
      have fU: "finite U" using fS US by (rule rev_finite_subset)
      have "card (in_region reg (U - {a}) (reg r)) \<le> card (in_region reg U (reg r))"
        by (rule card_mono[OF in_region_finite[OF fU]]) (auto simp: in_region_def)
      then have lt: "card (in_region reg (U - {a}) (reg r)) < cap" using U(2) by simp
      have "U - {a} \<subseteq> S'" using US Cons.prems(2) by auto
      from fault_cover[OF okS' this lt]
      obtain U' where U': "U' = S' \<or> (\<exists>z \<in> S'. reg z = reg r \<and> U' = S' - {z})"
          "card (in_region reg U' (reg r)) < cap" "U - {a} \<subseteq> U'" by blast
      have ok': "cap_ok reg cap (insert r U')" using fault_step_ok(3)[OF okS' U'(1,2)] .
      have "insert r U - {a} \<subseteq> insert r U'" using U'(3) by auto
      then have "can reg cap (insert r U') \<sigma> (Suc j)" using Cons.IH[OF U(3) _ okU ok'] by simp
      then show ?thesis unfolding k can_fault_iff[OF okS' False] using U'(1,2) by blast
    qed
  qed
qed



lemma card_region_swap:
  assumes f: "finite T" and q: "q \<in> T" and z: "z \<notin> T" and rg: "reg z = reg q"
  shows "card (in_region reg (insert z (T - {q})) \<rho>) = card (in_region reg T \<rho>)"
proof (cases "reg q = \<rho>")
  case True
  have fr: "finite (in_region reg T \<rho>)" using f by (rule in_region_finite)
  have qi: "q \<in> in_region reg T \<rho>" using q True by (simp add: in_region_def)
  have zi: "z \<notin> in_region reg T \<rho> - {q}" using z by (simp add: in_region_def)
  have "in_region reg (insert z (T - {q})) \<rho> = insert z (in_region reg T \<rho> - {q})"
    using True rg by (auto simp: in_region_def)
  then have "card (in_region reg (insert z (T - {q})) \<rho>) = Suc (card (in_region reg T \<rho> - {q}))"
    using fr zi by simp
  also have "\<dots> = card (in_region reg T \<rho>)" using card_Suc_Diff1[OF fr qi] .
  finally show ?thesis .
next
  case False
  then have "in_region reg (insert z (T - {q})) \<rho> = in_region reg T \<rho>"
    using rg by (auto simp: in_region_def)
  then show ?thesis by simp
qed

text \<open>
  The exchange step: holding a page \<open>z\<close> in place of a page \<open>q\<close> of the same region is no
  worse when \<open>z\<close> is requested no later than \<open>q\<close>.
\<close>

lemma can_swap:
  "can reg cap T \<sigma> j \<Longrightarrow> q \<in> T \<Longrightarrow> z \<notin> T \<Longrightarrow> reg z = reg q \<Longrightarrow> nxt z \<sigma> \<le> nxt q \<sigma> \<Longrightarrow>
   cap_ok reg cap T \<Longrightarrow> can reg cap (insert z (T - {q})) \<sigma> j"
proof (induction \<sigma> arbitrary: T j)
  case Nil
  then show ?case by simp
next
  case (Cons r \<sigma>)
  note q = Cons.prems(2) and z = Cons.prems(3) and rg = Cons.prems(4) and okT = Cons.prems(6)
  let ?T' = "insert z (T - {q})"
  have fT: "finite T" using okT by (simp add: cap_ok_def)
  have okT': "cap_ok reg cap ?T'" using cap_ok_swap[OF okT q rg[symmetric]] .
  have zq: "z \<noteq> q" using q z by auto
  have rq: "r \<noteq> q" using Cons.prems(5) zq by (auto simp: nxt_Cons split: if_splits)
  show ?case
  proof (cases "r = z")
    case True
    then have rT: "r \<notin> T" using z by simp
    then obtain j' where j: "j = Suc j'" using Cons.prems(1) by (cases j) auto
    obtain U where U: "U = T \<or> (\<exists>w \<in> T. reg w = reg r \<and> U = T - {w})"
        "card (in_region reg U (reg r)) < cap" "can reg cap (insert r U) \<sigma> j'"
      using Cons.prems(1) unfolding j can_fault_iff[OF okT rT] by blast
    have US: "U \<subseteq> T" and okU: "cap_ok reg cap (insert r U)"
      using fault_step_ok[OF okT U(1,2)] by auto
    have "insert r U - {q} \<subseteq> ?T'" using US True by auto
    then have "can reg cap ?T' \<sigma> (Suc j')" using can_behind[OF U(3) _ okU okT'] by simp
    then show ?thesis using True j by simp
  next
    case rz: False
    have nx: "nxt z \<sigma> \<le> nxt q \<sigma>" using Cons.prems(5) rz rq by (simp add: nxt_Cons)
    show ?thesis
    proof (cases "r \<in> T")
      case True
      then have "can reg cap T \<sigma> j" using Cons.prems(1) by simp
      then have "can reg cap ?T' \<sigma> j" using Cons.IH[OF _ q z rg nx okT] by simp
      then show ?thesis using True rq by simp
    next
      case rT: False
      then have rT': "r \<notin> ?T'" using rz by simp
      obtain j' where j: "j = Suc j'" using Cons.prems(1) rT by (cases j) auto
      obtain U where U: "U = T \<or> (\<exists>w \<in> T. reg w = reg r \<and> U = T - {w})"
          "card (in_region reg U (reg r)) < cap" "can reg cap (insert r U) \<sigma> j'"
        using Cons.prems(1) unfolding j can_fault_iff[OF okT rT] by blast
      have okU: "cap_ok reg cap (insert r U)" using fault_step_ok(3)[OF okT U(1,2)] .
      have "\<exists>U'. (U' = ?T' \<or> (\<exists>w \<in> ?T'. reg w = reg r \<and> U' = ?T' - {w})) \<and>
                 card (in_region reg U' (reg r)) < cap \<and> can reg cap (insert r U') \<sigma> j'"
      proof (cases "q \<in> U")
        case False
        then obtain "reg q = reg r" "U = T - {q}" using U(1) q by auto
        then have "reg z = reg r" "insert r (?T' - {z}) = insert r U" using rg z by auto
        then have "can reg cap (insert r (?T' - {z})) \<sigma> j'" using U(3) by simp
        moreover have "card (in_region reg (?T' - {z}) (reg r)) < cap"
          using U(2) \<open>U = T - {q}\<close> z by simp
        ultimately show ?thesis using \<open>reg z = reg r\<close> by blast
      next
        case qU: True
        have zU: "z \<notin> insert r U" using z rz U(1) by auto
        have ih: "can reg cap (insert z (insert r U - {q})) \<sigma> j'"
          using Cons.IH[OF U(3) _ zU rg nx okU] qU by simp
        let ?U' = "insert z (U - {q})"
        have e: "insert z (insert r U - {q}) = insert r ?U'" using rq by auto
        have fU: "finite U" using U(1) fT by auto
        have c: "card (in_region reg ?U' (reg r)) < cap"
          using card_region_swap[OF fU qU _ rg, of "reg r"] zU U(2) by simp
        have "?U' = ?T' \<or> (\<exists>w \<in> ?T'. reg w = reg r \<and> ?U' = ?T' - {w})"
          using U(1) qU z by auto
        then show ?thesis using c ih unfolding e by blast
      qed
      then show ?thesis unfolding j can_fault_iff[OF okT' rT'] .
    qed
  qed
qed

text \<open>
  The clairvoyant rule has the fewest faults among all ways of serving the requests
  (Belady's MIN, within each region).
\<close>

lemma opt_run_least:
  "opt_run reg cap S \<sigma> k \<Longrightarrow> can reg cap S \<sigma> k' \<Longrightarrow> cap_ok reg cap S \<Longrightarrow> k \<le> k'"
proof (induction \<sigma> arbitrary: S k k')
  case Nil
  then show ?case by simp
next
  case (Cons r \<sigma>)
  note okS = Cons.prems(3)
  show ?case
  proof (cases "r \<in> S")
    case True
    then show ?thesis using Cons.IH[OF _ _ okS] Cons.prems(1,2) by simp
  next
    case rS: False
    obtain j where k: "k = Suc j" using Cons.prems(1) rS by (cases k) auto
    obtain j' where k': "k' = Suc j'" using Cons.prems(2) rS by (cases k') auto
    obtain U where U: "U = S \<or> (\<exists>w \<in> S. reg w = reg r \<and> U = S - {w})"
        "card (in_region reg U (reg r)) < cap" "can reg cap (insert r U) \<sigma> j'"
      using Cons.prems(2) unfolding k' can_fault_iff[OF okS rS] by blast
    have US: "U \<subseteq> S" and okU: "cap_ok reg cap (insert r U)"
      using fault_step_ok[OF okS U(1,2)] by auto
    show ?thesis
    proof (cases "card (in_region reg S (reg r)) < cap")
      case True
      then have o: "opt_run reg cap (insert r S) \<sigma> j" using Cons.prems(1) rS k by simp
      have ok1: "cap_ok reg cap (insert r S)" using cap_ok_add[OF okS True] .
      have "insert r U \<subseteq> insert r S" using US by auto
      then have "can reg cap (insert r S) \<sigma> j'" using can_superset[OF U(3) _ ok1] by simp
      then show ?thesis using Cons.IH[OF o _ ok1] k k' by simp
    next
      case False
      then obtain q where q: "q \<in> S" "reg q = reg r"
          "\<forall>y \<in> S. reg y = reg r \<longrightarrow> nxt y \<sigma> \<le> nxt q \<sigma>"
          "opt_run reg cap (insert r (S - {q})) \<sigma> j"
        using Cons.prems(1) rS k by auto
      have ok1: "cap_ok reg cap (insert r (S - {q}))" using cap_ok_swap[OF okS q(1,2)] .
      obtain w where w: "w \<in> S" "reg w = reg r" "U = S - {w}" using U(1,2) False by auto
      have "can reg cap (insert r (S - {q})) \<sigma> j'"
      proof (cases "w = q")
        case True
        then show ?thesis using U(3) w(3) by simp
      next
        case wq: False
        have 1: "q \<in> insert r U" using q(1) w(3) wq by auto
        have 2: "w \<notin> insert r U" using w rS by auto
        have 3: "reg w = reg q" using w(2) q(2) by simp
        have 4: "nxt w \<sigma> \<le> nxt q \<sigma>" using q(3) w(1,2) by simp
        have "insert w (insert r U - {q}) = insert r (S - {q})" using w wq rS q(1) by auto
        then show ?thesis using can_swap[OF U(3) 1 2 3 4 okU] by simp
      qed
      then show ?thesis using Cons.IH[OF q(4) _ ok1] k k' by simp
    qed
  qed
qed

text \<open>
  Serving the requests within fixed partitions is one way of serving them from a shared
  pool that is at least as large as all partitions together.
\<close>

lemma card_by_region:
  assumes f: "finite S" and Rs: "finite Rs" and all: "\<forall>x \<in> S. reg x \<in> Rs"
  shows "card S = (\<Sum>\<rho> \<in> Rs. card (in_region reg S \<rho>))"
proof -
  have "S = (\<Union>\<rho> \<in> Rs. in_region reg S \<rho>)" using all by (auto simp: in_region_def)
  then have "card S = card (\<Union>\<rho> \<in> Rs. in_region reg S \<rho>)" by simp
  also have "\<dots> = (\<Sum>\<rho> \<in> Rs. card (in_region reg S \<rho>))"
    by (rule card_UN_disjoint[OF Rs]) (auto simp: in_region_def f)
  finally show ?thesis .
qed

lemma can_shared:
  "can reg m S \<sigma> k \<Longrightarrow> cap_ok reg m S \<Longrightarrow> finite Rs \<Longrightarrow> \<forall>x \<in> S \<union> set \<sigma>. reg x \<in> Rs \<Longrightarrow>
   card Rs * m \<le> cap \<Longrightarrow> can (\<lambda>_. ()) cap S \<sigma> k"
proof (induction \<sigma> arbitrary: S k)
  case Nil
  then show ?case by simp
next
  case (Cons r \<sigma>)
  note okS = Cons.prems(2) and Rs = Cons.prems(3) and cap = Cons.prems(5)
  have fS: "finite S" using okS by (simp add: cap_ok_def)
  show ?case
  proof (cases "r \<in> S")
    case True
    then show ?thesis using Cons.IH[OF _ okS Rs _ cap] Cons.prems(1,4) by simp
  next
    case rS: False
    obtain j where k: "k = Suc j" using Cons.prems(1) rS by (cases k) auto
    obtain U where U: "U = S \<or> (\<exists>w \<in> S. reg w = reg r \<and> U = S - {w})"
        "card (in_region reg U (reg r)) < m" "can reg m (insert r U) \<sigma> j"
      using Cons.prems(1) unfolding k can_fault_iff[OF okS rS] by blast
    have US: "U \<subseteq> S" and okU: "cap_ok reg m (insert r U)"
      using fault_step_ok[OF okS U(1,2)] by auto
    have "\<forall>x \<in> insert r U \<union> set \<sigma>. reg x \<in> Rs" using Cons.prems(4) US by auto
    then have ih: "can (\<lambda>_. ()) cap (insert r U) \<sigma> j" using Cons.IH[OF U(3) okU Rs _ cap] by simp
    show ?thesis
    proof (cases "U = S")
      case True
      have "card S = (\<Sum>\<rho> \<in> Rs. card (in_region reg S \<rho>))"
        using card_by_region[OF fS Rs] Cons.prems(4) by simp
      also have "\<dots> < (\<Sum>\<rho> \<in> Rs. m)"
      proof (rule sum_strict_mono_ex1[OF Rs])
        show "\<forall>\<rho> \<in> Rs. card (in_region reg S \<rho>) \<le> m" using okS by (simp add: cap_ok_def)
        show "\<exists>\<rho> \<in> Rs. card (in_region reg S \<rho>) < m" using U(2) True Cons.prems(4) by auto
      qed
      finally have "card S < cap" using cap by simp
      moreover have "in_region (\<lambda>_. ()) S () = S" by (simp add: in_region_def)
      ultimately show ?thesis using rS k ih True by simp
    next
      case False
      then obtain w where "w \<in> S" "U = S - {w}" using U(1) by auto
      then show ?thesis using rS k ih by auto
    qed
  qed
qed


section \<open>Simulator runs as ways of serving the requests\<close>

lemma nxt_eqI:
  "d \<le> length \<sigma> \<Longrightarrow> \<forall>j<d. \<sigma> ! j \<noteq> x \<Longrightarrow> (d < length \<sigma> \<longrightarrow> \<sigma> ! d = x) \<Longrightarrow> nxt x \<sigma> = d"
proof (induction \<sigma> arbitrary: d)
  case Nil
  then show ?case by (simp add: nxt_Nil)
next
  case (Cons r \<sigma>)
  show ?case
  proof (cases d)
    case 0
    then show ?thesis using Cons.prems by (simp add: nxt_Cons)
  next
    case (Suc d')
    have "r \<noteq> x" using Cons.prems(2) Suc by auto
    moreover have "nxt x \<sigma> = d'"
    proof (rule Cons.IH)
      show "d' \<le> length \<sigma>" using Cons.prems(1) Suc by simp
      show "\<forall>j<d'. \<sigma> ! j \<noteq> x" using Cons.prems(2) Suc by auto
      show "d' < length \<sigma> \<longrightarrow> \<sigma> ! d' = x" using Cons.prems(3) Suc by simp
    qed
    ultimately show ?thesis using Suc by (simp add: nxt_Cons)
  qed
qed

lemma nxt_le: "nxt x \<sigma> \<le> length \<sigma>"
  unfolding nxt_def by (rule length_takeWhile_le)

lemma nxt_next_access_None:
  assumes "next_access tr i e = None"
  shows "nxt e (drop (Suc i) tr) = length tr - Suc i"
proof (rule nxt_eqI)
  show "length tr - Suc i \<le> length (drop (Suc i) tr)" by simp
  show "\<forall>j<length tr - Suc i. drop (Suc i) tr ! j \<noteq> e"
    using assms unfolding next_access_None_iff by auto
  show "length tr - Suc i < length (drop (Suc i) tr) \<longrightarrow> drop (Suc i) tr ! (length tr - Suc i) = e"
    by simp
qed

lemma nxt_next_access_Some:
  assumes "next_access tr i e = Some j"
  shows "nxt e (drop (Suc i) tr) = j - Suc i"
proof -
  have j: "i < j" "j < length tr" "tr ! j = e" "\<forall>j'. i < j' \<and> j' < j \<longrightarrow> tr ! j' \<noteq> e"
    using assms unfolding next_access_Some_iff by auto
  show ?thesis
  proof (rule nxt_eqI)
    show "j - Suc i \<le> length (drop (Suc i) tr)" using j(1,2) by simp
    show "\<forall>j'<j - Suc i. drop (Suc i) tr ! j' \<noteq> e"
    proof (intro allI impI)
      fix j' assume "j' < j - Suc i"
      then have "i < Suc i + j'" "Suc i + j' < j" by auto
      then have "tr ! (Suc i + j') \<noteq> e" using j(4) by blast
      moreover have "Suc i + j' \<le> length tr" using \<open>Suc i + j' < j\<close> j(2) by simp
      ultimately show "drop (Suc i) tr ! j' \<noteq> e" using j(2) \<open>Suc i + j' < j\<close> by simp
    qed
    show "j - Suc i < length (drop (Suc i) tr) \<longrightarrow> drop (Suc i) tr ! (j - Suc i) = e"
      using j(1,2,3) by simp
  qed
qed

text \<open>The victim of the optimal policy has the farthest next request among the frames.\<close>

lemma spec_optimal_victim_farthest:
  assumes v: "spec_optimal_victim mem tr i = Some v" and f: "f < length mem"
  shows "nxt (mem ! f) (drop (Suc i) tr) \<le> nxt (mem ! v) (drop (Suc i) tr)"
proof -
  note ch = spec_optimal_victim_char[OF v]
  show ?thesis
  proof (cases "\<exists>k<length mem. next_access tr i (mem ! k) = None")
    case True
    then have "next_access tr i (mem ! v) = None" using ch by blast
    then have "nxt (mem ! v) (drop (Suc i) tr) = length (drop (Suc i) tr)"
      using nxt_next_access_None by simp
    then show ?thesis using nxt_le[of "mem ! f" "drop (Suc i) tr"] by simp
  next
    case False
    then have all: "\<forall>k<length mem. next_access tr i (mem ! k) \<noteq> None" by simp
    then have le: "the (next_access tr i (mem ! f)) \<le> the (next_access tr i (mem ! v))"
      using ch f by blast
    obtain a where a: "next_access tr i (mem ! f) = Some a" using all f by blast
    obtain b where b: "next_access tr i (mem ! v) = Some b" using all ch by blast
    show ?thesis using le unfolding nxt_next_access_Some[OF a] nxt_next_access_Some[OF b] a b
      by simp
  qed
qed

text \<open>
  When no two occupied frames hold the same entry, a region holds as many entries as it
  has occupied frames.
\<close>

lemma occupied_card:
  assumes A: "A = {e. \<exists>f<length mem. mem ! f = e \<and> \<not> is_free e}"
    and inj: "\<forall>f g. f < length mem \<and> g < length mem \<and> mem ! f = mem ! g \<and> \<not> is_free (mem ! f) \<longrightarrow> f = g"
  shows "finite A \<and> card A \<le> length mem \<and> (card A < length mem) = (\<not> region_full mem)"
proof -
  let ?O = "{f. f < length mem \<and> \<not> is_free (mem ! f)}"
  have fO: "finite ?O" by simp
  have img: "A = (\<lambda>f. mem ! f) ` ?O" unfolding A by (force simp: image_iff)
  have "inj_on (\<lambda>f. mem ! f) ?O" using inj unfolding inj_on_def by blast
  then have c: "card A = card ?O" unfolding img by (rule card_image)
  have sub: "?O \<subseteq> {..<length mem}" by auto
  have le: "card ?O \<le> length mem" using card_mono[OF _ sub] by simp
  have "(card ?O < length mem) = (\<not> region_full mem)"
  proof (cases "region_full mem")
    case True
    then have "?O = {..<length mem}" unfolding region_full_iff by auto
    then show ?thesis using True by simp
  next
    case False
    then have "?O \<noteq> {..<length mem}" unfolding region_full_iff by auto
    then have "?O \<subset> {..<length mem}" using sub by blast
    then have "card ?O < card {..<length mem}" by (rule psubset_card_mono[rotated]) simp
    then show ?thesis using False by simp
  qed
  then show ?thesis using c le img fO by simp
qed

lemma G_resident_frames:
  assumes inv: "G_inv vm"
  shows "resident (g_page_tables vm) =
           {e. \<exists>f<length (g_memory (g_frame_status vm)). g_memory (g_frame_status vm) ! f = e \<and> \<not> is_free e}"
    and "\<forall>f g. f < length (g_memory (g_frame_status vm)) \<and> g < length (g_memory (g_frame_status vm)) \<and>
               g_memory (g_frame_status vm) ! f = g_memory (g_frame_status vm) ! g \<and>
               \<not> is_free (g_memory (g_frame_status vm) ! f) \<longrightarrow> f = g"
proof -
  let ?mem = "g_memory (g_frame_status vm)"
  have bij: "\<And>P p f. valid_pid P \<Longrightarrow>
      (pt_lookup (g_page_tables vm) P p = Some f) = (f < length ?mem \<and> ?mem ! f = (P, p))"
    using inv unfolding G_inv_def G_bijection_def by blast
  have eok: "\<And>f. f < length ?mem \<Longrightarrow> \<not> is_free (?mem ! f) \<Longrightarrow> valid_pid (fst (?mem ! f))"
    using inv unfolding G_inv_def entries_ok_def by blast
  show "resident (g_page_tables vm) = {e. \<exists>f<length ?mem. ?mem ! f = e \<and> \<not> is_free e}"
  proof (intro set_eqI iffI)
    fix e assume "e \<in> resident (g_page_tables vm)"
    then obtain f where "valid_pid (fst e)" "pt_lookup (g_page_tables vm) (fst e) (snd e) = Some f"
      unfolding resident_def by (cases e) auto
    then have "f < length ?mem \<and> ?mem ! f = e \<and> \<not> is_free e"
      using bij[of "fst e" "snd e" f] valid_pid_not_free[of "fst e" "snd e"] by simp
    then show "e \<in> {e. \<exists>f<length ?mem. ?mem ! f = e \<and> \<not> is_free e}" by blast
  next
    fix e assume "e \<in> {e. \<exists>f<length ?mem. ?mem ! f = e \<and> \<not> is_free e}"
    then obtain f where f: "f < length ?mem" "?mem ! f = e" "\<not> is_free e" by blast
    then have v: "valid_pid (fst e)" using eok[of f] by simp
    then have "pt_lookup (g_page_tables vm) (fst e) (snd e) = Some f"
      using bij[of "fst e" "snd e" f] f by simp
    then show "e \<in> resident (g_page_tables vm)" using v unfolding resident_def by (cases e) auto
  qed
  show "\<forall>f g. f < length ?mem \<and> g < length ?mem \<and> ?mem ! f = ?mem ! g \<and> \<not> is_free (?mem ! f) \<longrightarrow> f = g"
  proof (intro allI impI)
    fix f g assume "f < length ?mem \<and> g < length ?mem \<and> ?mem ! f = ?mem ! g \<and> \<not> is_free (?mem ! f)"
    then have a: "f < length ?mem" "g < length ?mem" "?mem ! g = ?mem ! f" "\<not> is_free (?mem ! f)"
      by auto
    have v: "valid_pid (fst (?mem ! f))" using eok[OF a(1,4)] .
    have "pt_lookup (g_page_tables vm) (fst (?mem ! f)) (snd (?mem ! f)) = Some f"
      using bij[OF v, of "snd (?mem ! f)" f] a(1) by simp
    moreover have "pt_lookup (g_page_tables vm) (fst (?mem ! f)) (snd (?mem ! f)) = Some g"
      using bij[OF v, of "snd (?mem ! f)" g] a(2,3) by simp
    ultimately show "f = g" by simp
  qed
qed

lemma in_region_unit: "in_region (\<lambda>_. ()) S \<rho> = S"
  by (simp add: in_region_def)

lemma G_resident_card:
  assumes inv: "G_inv vm"
  shows "cap_ok (\<lambda>_. ()) (g_memoryFrames (g_frame_status vm)) (resident (g_page_tables vm))"
    and "(card (resident (g_page_tables vm)) < g_memoryFrames (g_frame_status vm)) =
         (\<not> region_full (g_memory (g_frame_status vm)))"
proof -
  have len: "length (g_memory (g_frame_status vm)) = g_memoryFrames (g_frame_status vm)"
    using inv unfolding G_inv_def G_fs_wf_def by simp
  note oc = occupied_card[OF G_resident_frames[OF inv], unfolded len]
  show "cap_ok (\<lambda>_. ()) (g_memoryFrames (g_frame_status vm)) (resident (g_page_tables vm))"
    unfolding cap_ok_def in_region_unit using oc by simp
  show "(card (resident (g_page_tables vm)) < g_memoryFrames (g_frame_status vm)) =
         (\<not> region_full (g_memory (g_frame_status vm)))"
    using oc by simp
qed

lemma resident_load:
  assumes look: "\<forall>P p. valid_pid P \<longrightarrow> pt_lookup pts' P p =
                   (if P = pid \<and> p = pg then Some v else pt_lookup pts P p)"
    and pid: "valid_pid pid"
  shows "resident pts' = insert (pid, pg) (resident pts)"
proof (intro set_eqI)
  fix e :: entry
  obtain P p where e: "e = (P, p)" by (cases e)
  show "(e \<in> resident pts') = (e \<in> insert (pid, pg) (resident pts))"
  proof (cases "valid_pid P")
    case True
    show ?thesis unfolding e resident_def using True look[rule_format, OF True, of p] by auto
  next
    case False
    then show ?thesis unfolding e resident_def using pid by auto
  qed
qed

lemma resident_replace:
  assumes look: "\<forall>P p. valid_pid P \<longrightarrow> pt_lookup pts' P p =
                   (if P = pid \<and> p = pg then Some v
                    else if P = fst q \<and> p = snd q then None else pt_lookup pts P p)"
    and pid: "valid_pid pid"
  shows "resident pts' = insert (pid, pg) (resident pts - {q})"
proof (intro set_eqI)
  fix e :: entry
  obtain P p where e: "e = (P, p)" by (cases e)
  obtain Q r where q: "q = (Q, r)" by (cases q)
  show "(e \<in> resident pts') = (e \<in> insert (pid, pg) (resident pts - {q}))"
  proof (cases "valid_pid P")
    case True
    show ?thesis unfolding e resident_def using True look[rule_format, OF True, of p] q by auto
  next
    case False
    then show ?thesis unfolding e resident_def using pid by auto
  qed
qed

text \<open>What one access of the shared-pool engine does to the resident set.\<close>

lemma G_access_resident:
  assumes inv: "G_inv vm" and kp: "known_policy (g_replacement_policy vm)"
    and step: "G_handleAccess rnd pid pg tr i vm = Inr vm'"
  shows "((pid, pg) \<in> resident (g_page_tables vm) \<and>
          resident (g_page_tables vm') = resident (g_page_tables vm) \<and>
          g_global_page_fault_count vm' = g_global_page_fault_count vm) \<or>
         ((pid, pg) \<notin> resident (g_page_tables vm) \<and>
          g_global_page_fault_count vm' = g_global_page_fault_count vm + 1 \<and>
          (if card (resident (g_page_tables vm)) < g_memoryFrames (g_frame_status vm)
           then resident (g_page_tables vm') = insert (pid, pg) (resident (g_page_tables vm))
           else (\<exists>q \<in> resident (g_page_tables vm).
                   resident (g_page_tables vm') = insert (pid, pg) (resident (g_page_tables vm) - {q}) \<and>
                   (g_replacement_policy vm = ''optimal'' \<longrightarrow>
                      (\<forall>y \<in> resident (g_page_tables vm).
                         nxt y (drop (Suc i) tr) \<le> nxt q (drop (Suc i) tr))))))"
proof -
  let ?S = "resident (g_page_tables vm)" and ?mem = "g_memory (g_frame_status vm)"
  have pid: "valid_pid pid" using G_step_inv[OF inv step] by simp
  have len4: "length (g_page_tables vm) = 4" using inv unfolding G_inv_def by simp
  have len: "length ?mem = g_memoryFrames (g_frame_status vm)"
    using inv unfolding G_inv_def G_fs_wf_def by simp
  note fr = G_resident_frames[OF inv]
  note cd = G_resident_card(2)[OF inv]
  show ?thesis
  proof (cases "pt_lookup (g_page_tables vm) pid pg")
    case (Some f)
    have "vm' = (if g_replacement_policy vm = ''lru''
                 then vm\<lparr>g_frame_status := G_updateLRU f (g_frame_status vm)\<rparr> else vm)"
      using step unfolding G_handleAccess_hit[OF pid len4 Some] by simp
    then have "g_page_tables vm' = g_page_tables vm"
        "g_global_page_fault_count vm' = g_global_page_fault_count vm"
      by (simp_all split: if_splits)
    moreover have "(pid, pg) \<in> ?S" using pid Some by (simp add: resident_def)
    ultimately show ?thesis by simp
  next
    case None
    then have notin: "(pid, pg) \<notin> ?S" by (simp add: resident_def)
    show ?thesis
    proof (cases "region_full ?mem")
      case False
      from G_step_alloc[OF inv pid None False, of rnd tr i] step
      have cnt: "g_global_page_fault_count vm' = g_global_page_fault_count vm + 1"
        and look: "\<forall>P p. valid_pid P \<longrightarrow> pt_lookup (g_page_tables vm') P p =
              (if P = pid \<and> p = pg then Some (g_nextFrame (g_frame_status vm))
               else pt_lookup (g_page_tables vm) P p)"
        by auto
      have "resident (g_page_tables vm') = insert (pid, pg) ?S"
        using resident_load[OF look pid] .
      then show ?thesis using notin cnt cd False by simp
    next
      case True
      from G_step_evict[OF inv pid None True kp, of rnd tr i] step
      obtain v where v: "v < g_memoryFrames (g_frame_status vm)"
        and cnt: "g_global_page_fault_count vm' = g_global_page_fault_count vm + 1"
        and look: "\<forall>P p. valid_pid P \<longrightarrow> pt_lookup (g_page_tables vm') P p =
              (if P = pid \<and> p = pg then Some v
               else if P = fst (?mem ! v) \<and> p = snd (?mem ! v)
                    then None else pt_lookup (g_page_tables vm) P p)"
        and opt: "g_replacement_policy vm = ''optimal'' \<longrightarrow> spec_optimal_victim ?mem tr i = Some v"
        by auto
      have nfree: "\<not> is_free (?mem ! v)" using True v len unfolding region_full_iff by simp
      then have qS: "?mem ! v \<in> ?S" unfolding fr(1) using v len by auto
      have "resident (g_page_tables vm') = insert (pid, pg) (?S - {?mem ! v})"
        using resident_replace[OF look pid] .
      moreover have "\<forall>y \<in> ?S. nxt y (drop (Suc i) tr) \<le> nxt (?mem ! v) (drop (Suc i) tr)"
        if "g_replacement_policy vm = ''optimal''"
      proof
        fix y assume "y \<in> ?S"
        then obtain f where "f < length ?mem" "?mem ! f = y" unfolding fr(1) by blast
        then show "nxt y (drop (Suc i) tr) \<le> nxt (?mem ! v) (drop (Suc i) tr)"
          using spec_optimal_victim_farthest[of ?mem tr i v f] opt that by auto
      qed
      ultimately show ?thesis using notin cnt cd True qS by auto
    qed
  qed
qed

lemma access_step_can:
  assumes st: "access_step reg n far r \<sigma> S c S' c'"
    and c1: "can reg n S' \<sigma> k1"
  shows "\<exists>k. c' + int k1 = c + int k \<and> can reg n S (r # \<sigma>) k"
proof (cases "r \<in> S")
  case True
  then have "S' = S" "c' = c" using st unfolding access_step_def by auto
  then show ?thesis using c1 True by auto
next
  case False
  then have c: "c' = c + 1" using st unfolding access_step_def by auto
  have "can reg n S (r # \<sigma>) (Suc k1)"
  proof (cases "card (in_region reg S (reg r)) < n")
    case True
    then have "S' = insert r S" using st False unfolding access_step_def by auto
    then show ?thesis using c1 False True by simp
  next
    case nf: False
    then obtain q where "q \<in> S" "reg q = reg r" "S' = insert r (S - {q})"
      using st False unfolding access_step_def by auto
    then show ?thesis using c1 False by auto
  qed
  moreover have "c' + int k1 = c + int (Suc k1)" using c by simp
  ultimately show ?thesis by blast
qed

lemma access_step_opt:
  assumes st: "access_step reg n True r \<sigma> S c S' c'"
    and c1: "opt_run reg n S' \<sigma> k1"
  shows "\<exists>k. c' + int k1 = c + int k \<and> opt_run reg n S (r # \<sigma>) k"
proof (cases "r \<in> S")
  case True
  then have "S' = S" "c' = c" using st unfolding access_step_def by auto
  then show ?thesis using c1 True by auto
next
  case False
  then have c: "c' = c + 1" using st unfolding access_step_def by auto
  have "opt_run reg n S (r # \<sigma>) (Suc k1)"
  proof (cases "card (in_region reg S (reg r)) < n")
    case True
    then have "S' = insert r S" using st False unfolding access_step_def by auto
    then show ?thesis using c1 False True by simp
  next
    case nf: False
    then obtain q where "q \<in> S" "reg q = reg r" "S' = insert r (S - {q})"
        "\<forall>y \<in> S. reg y = reg r \<longrightarrow> nxt y \<sigma> \<le> nxt q \<sigma>"
      using st False unfolding access_step_def by auto
    then show ?thesis using c1 False nf by auto
  qed
  moreover have "c' + int k1 = c + int (Suc k1)" using c by simp
  ultimately show ?thesis by blast
qed

lemma G_access_step:
  assumes inv: "G_inv vm" and kp: "known_policy (g_replacement_policy vm)"
    and step: "G_handleAccess rnd (fst (tr ! i)) (snd (tr ! i)) tr i vm = Inr vm'"
  shows "access_step (\<lambda>_. ()) (g_memoryFrames (g_frame_status vm))
           (g_replacement_policy vm = ''optimal'') (tr ! i) (drop (Suc i) tr)
           (resident (g_page_tables vm)) (g_global_page_fault_count vm)
           (resident (g_page_tables vm')) (g_global_page_fault_count vm')"
  using G_access_resident[OF inv kp step] unfolding access_step_def in_region_unit
  by (auto split: if_splits)

lemma G_steps_can:
  "G_inv vm \<Longrightarrow> known_policy (g_replacement_policy vm) \<Longrightarrow> i + cnt = length tr \<Longrightarrow>
   G_steps rnd tr i cnt vm = Inr vm' \<Longrightarrow>
   \<exists>k. g_global_page_fault_count vm' = g_global_page_fault_count vm + int k \<and>
       can (\<lambda>_. ()) (g_memoryFrames (g_frame_status vm)) (resident (g_page_tables vm)) (drop i tr) k"
proof (induction cnt arbitrary: i vm)
  case 0
  then show ?case by simp
next
  case (Suc cnt)
  obtain vm1 where step: "G_handleAccess rnd (fst (tr ! i)) (snd (tr ! i)) tr i vm = Inr vm1"
    and rest: "G_steps rnd tr (Suc i) cnt vm1 = Inr vm'"
    using Suc.prems(4) by (auto split: sum.splits)
  have i: "i < length tr" "Suc i + cnt = length tr" using Suc.prems(3) by auto
  note si = G_step_inv[OF Suc.prems(1) step]
  have kp1: "known_policy (g_replacement_policy vm1)" using si Suc.prems(2) by simp
  from Suc.IH[OF _ kp1 i(2) rest] si
  obtain k1 where k1: "g_global_page_fault_count vm' = g_global_page_fault_count vm1 + int k1"
      "can (\<lambda>_. ()) (g_memoryFrames (g_frame_status vm)) (resident (g_page_tables vm1)) (drop (Suc i) tr) k1"
    by auto
  from access_step_can[OF G_access_step[OF Suc.prems(1,2) step] k1(2)]
  show ?case using k1(1) unfolding Cons_nth_drop_Suc[OF i(1)] by auto
qed

lemma G_steps_opt:
  "G_inv vm \<Longrightarrow> g_replacement_policy vm = ''optimal'' \<Longrightarrow> i + cnt = length tr \<Longrightarrow>
   G_steps rnd tr i cnt vm = Inr vm' \<Longrightarrow>
   \<exists>k. g_global_page_fault_count vm' = g_global_page_fault_count vm + int k \<and>
       opt_run (\<lambda>_. ()) (g_memoryFrames (g_frame_status vm)) (resident (g_page_tables vm)) (drop i tr) k"
proof (induction cnt arbitrary: i vm)
  case 0
  then show ?case by simp
next
  case (Suc cnt)
  obtain vm1 where step: "G_handleAccess rnd (fst (tr ! i)) (snd (tr ! i)) tr i vm = Inr vm1"
    and rest: "G_steps rnd tr (Suc i) cnt vm1 = Inr vm'"
    using Suc.prems(4) by (auto split: sum.splits)
  have i: "i < length tr" "Suc i + cnt = length tr" using Suc.prems(3) by auto
  have kp: "known_policy (g_replacement_policy vm)" using Suc.prems(2) by (simp add: known_policy_def)
  note si = G_step_inv[OF Suc.prems(1) step]
  have p1: "g_replacement_policy vm1 = ''optimal''" using si Suc.prems(2) by simp
  from Suc.IH[OF _ p1 i(2) rest] si
  obtain k1 where k1: "g_global_page_fault_count vm' = g_global_page_fault_count vm1 + int k1"
      "opt_run (\<lambda>_. ()) (g_memoryFrames (g_frame_status vm)) (resident (g_page_tables vm1)) (drop (Suc i) tr) k1"
    by auto
  have "access_step (\<lambda>_. ()) (g_memoryFrames (g_frame_status vm)) True (tr ! i) (drop (Suc i) tr)
           (resident (g_page_tables vm)) (g_global_page_fault_count vm)
           (resident (g_page_tables vm1)) (g_global_page_fault_count vm1)"
    using G_access_step[OF Suc.prems(1) kp step] Suc.prems(2) by simp
  from access_step_opt[OF this k1(2)]
  show ?case using k1(1) unfolding Cons_nth_drop_Suc[OF i(1)] by auto
qed

lemma L_resident_frames:
  assumes inv: "L_inv vm" and P: "valid_pid P"
  shows "in_region fst (resident (l_page_tables vm)) P =
           {e. \<exists>f<length (l_memory (l_frame_status vm) ! nat P).
                 l_memory (l_frame_status vm) ! nat P ! f = e \<and> \<not> is_free e}"
    and "\<forall>f g. f < length (l_memory (l_frame_status vm) ! nat P) \<and>
               g < length (l_memory (l_frame_status vm) ! nat P) \<and>
               l_memory (l_frame_status vm) ! nat P ! f = l_memory (l_frame_status vm) ! nat P ! g \<and>
               \<not> is_free (l_memory (l_frame_status vm) ! nat P ! f) \<longrightarrow> f = g"
proof -
  let ?mem = "l_memory (l_frame_status vm) ! nat P"
  have bij: "\<And>p f. (pt_lookup (l_page_tables vm) P p = Some f) = (f < length ?mem \<and> ?mem ! f = (P, p))"
    using inv P unfolding L_inv_def L_bijection_def by blast
  have eok: "\<And>f. f < length ?mem \<Longrightarrow> \<not> is_free (?mem ! f) \<Longrightarrow> fst (?mem ! f) = P"
    using inv P unfolding L_inv_def L_entries_ok_def by blast
  show "in_region fst (resident (l_page_tables vm)) P = {e. \<exists>f<length ?mem. ?mem ! f = e \<and> \<not> is_free e}"
  proof (intro set_eqI iffI)
    fix e assume "e \<in> in_region fst (resident (l_page_tables vm)) P"
    then obtain f where "fst e = P" "pt_lookup (l_page_tables vm) P (snd e) = Some f"
      unfolding resident_def in_region_def by (cases e) auto
    then have "f < length ?mem \<and> ?mem ! f = e \<and> \<not> is_free e"
      using bij[of "snd e" f] valid_pid_not_free[OF P, of "snd e"] by auto
    then show "e \<in> {e. \<exists>f<length ?mem. ?mem ! f = e \<and> \<not> is_free e}" by blast
  next
    fix e assume "e \<in> {e. \<exists>f<length ?mem. ?mem ! f = e \<and> \<not> is_free e}"
    then obtain f where f: "f < length ?mem" "?mem ! f = e" "\<not> is_free e" by blast
    then have v: "fst e = P" using eok[of f] by simp
    then have "pt_lookup (l_page_tables vm) P (snd e) = Some f"
      using bij[of "snd e" f] f by auto
    then show "e \<in> in_region fst (resident (l_page_tables vm)) P"
      using v P unfolding resident_def in_region_def by (cases e) auto
  qed
  show "\<forall>f g. f < length ?mem \<and> g < length ?mem \<and> ?mem ! f = ?mem ! g \<and> \<not> is_free (?mem ! f) \<longrightarrow> f = g"
  proof (intro allI impI)
    fix f g assume "f < length ?mem \<and> g < length ?mem \<and> ?mem ! f = ?mem ! g \<and> \<not> is_free (?mem ! f)"
    then have a: "f < length ?mem" "g < length ?mem" "?mem ! g = ?mem ! f" "\<not> is_free (?mem ! f)"
      by auto
    have v: "fst (?mem ! f) = P" using eok[OF a(1,4)] .
    have pe: "?mem ! f = (P, snd (?mem ! f))" using v by (simp add: prod_eq_iff)
    have "pt_lookup (l_page_tables vm) P (snd (?mem ! f)) = Some f"
      using bij[of "snd (?mem ! f)" f] a(1) pe by simp
    moreover have "pt_lookup (l_page_tables vm) P (snd (?mem ! f)) = Some g"
      using bij[of "snd (?mem ! f)" g] a(2,3) pe by simp
    ultimately show "f = g" by simp
  qed
qed

lemma resident_regions:
  "resident pts = in_region fst (resident pts) 0 \<union> in_region fst (resident pts) 1 \<union>
                  in_region fst (resident pts) 2 \<union> in_region fst (resident pts) 3"
  unfolding in_region_def resident_def valid_pid_cases by auto

lemma resident_region_invalid: "\<not> valid_pid P \<Longrightarrow> in_region fst (resident pts) P = {}"
  unfolding in_region_def resident_def by auto

lemma L_resident_card:
  assumes inv: "L_inv vm"
  shows "cap_ok fst (l_memoryFramesPerProcess (l_frame_status vm)) (resident (l_page_tables vm))"
    and "valid_pid P \<Longrightarrow>
         (card (in_region fst (resident (l_page_tables vm)) P) < l_memoryFramesPerProcess (l_frame_status vm)) =
         (\<not> region_full (l_memory (l_frame_status vm) ! nat P))"
proof -
  let ?S = "resident (l_page_tables vm)" and ?m = "l_memoryFramesPerProcess (l_frame_status vm)"
  have wf: "L_fs_wf (l_frame_status vm)" using inv unfolding L_inv_def by simp
  have oc: "finite (in_region fst ?S Q) \<and> card (in_region fst ?S Q) \<le> ?m \<and>
            (card (in_region fst ?S Q) < ?m) = (\<not> region_full (l_memory (l_frame_status vm) ! nat Q))"
    if "valid_pid Q" for Q
    using occupied_card[OF L_resident_frames[OF inv that]] L_wf_facts(4)[OF wf that] by simp
  show "valid_pid P \<Longrightarrow> (card (in_region fst ?S P) < ?m) = (\<not> region_full (l_memory (l_frame_status vm) ! nat P))"
    using oc by simp
  have "finite (in_region fst ?S 0)" "finite (in_region fst ?S 1)"
       "finite (in_region fst ?S 2)" "finite (in_region fst ?S 3)"
    using oc by (simp_all add: valid_pid_def)
  then have fin: "finite ?S" using resident_regions[of "l_page_tables vm"] by (metis finite_UnI)
  have "card (in_region fst ?S Q) \<le> ?m" for Q
  proof (cases "valid_pid Q")
    case True
    then show ?thesis using oc by simp
  next
    case False
    then show ?thesis using resident_region_invalid by simp
  qed
  then show "cap_ok fst ?m ?S" using fin unfolding cap_ok_def by simp
qed

text \<open>What one access of the partitioned engine does to the resident set.\<close>

lemma L_access_step:
  assumes inv: "L_inv vm" and kp: "known_policy (l_replacement_policy vm)"
    and step: "L_handleAccess rnd (fst (tr ! i)) (snd (tr ! i)) tr i vm = Inr vm'"
  shows "access_step fst (l_memoryFramesPerProcess (l_frame_status vm))
           (l_replacement_policy vm = ''optimal'') (tr ! i) (drop (Suc i) tr)
           (resident (l_page_tables vm)) (l_global_page_fault_count vm)
           (resident (l_page_tables vm')) (l_global_page_fault_count vm')"
proof -
  let ?pid = "fst (tr ! i)" and ?pg = "snd (tr ! i)"
  let ?S = "resident (l_page_tables vm)" and ?mem = "l_memory (l_frame_status vm) ! nat (fst (tr ! i))"
  have pid: "valid_pid ?pid" using L_step_inv[OF inv step] by simp
  have len4: "length (l_page_tables vm) = 4" "length (l_lru_list (l_frame_status vm)) = 4"
    using inv unfolding L_inv_def L_fs_wf_def by simp_all
  have wf: "L_fs_wf (l_frame_status vm)" using inv unfolding L_inv_def by simp
  have len: "length ?mem = l_memoryFramesPerProcess (l_frame_status vm)"
    using L_wf_facts(4)[OF wf pid] .
  note fr = L_resident_frames[OF inv pid]
  note cd = L_resident_card(2)[OF inv pid]
  show ?thesis
  proof (cases "pt_lookup (l_page_tables vm) ?pid ?pg")
    case (Some f)
    have "l_page_tables vm' = l_page_tables vm \<and>
          l_global_page_fault_count vm' = l_global_page_fault_count vm"
      using step unfolding L_handleAccess_hit[OF pid len4 Some] by (auto split: if_splits)
    moreover have "tr ! i \<in> ?S" using pid Some unfolding resident_def
      by (cases "tr ! i") auto
    ultimately show ?thesis unfolding access_step_def by simp
  next
    case None
    then have notin: "tr ! i \<notin> ?S" unfolding resident_def by (cases "tr ! i") auto
    show ?thesis
    proof (cases "region_full ?mem")
      case False
      from L_step_alloc[OF inv pid None False, of rnd tr i] step
      obtain k where cnt: "l_global_page_fault_count vm' = l_global_page_fault_count vm + 1"
        and look: "\<forall>P p. valid_pid P \<longrightarrow> pt_lookup (l_page_tables vm') P p =
              (if P = ?pid \<and> p = ?pg then Some k else pt_lookup (l_page_tables vm) P p)"
        by auto
      have "resident (l_page_tables vm') = insert (tr ! i) ?S"
        using resident_load[OF look pid] by simp
      then show ?thesis unfolding access_step_def using notin cnt cd False by simp
    next
      case True
      from L_step_evict[OF inv pid None True kp, of rnd tr i] step
      obtain v where v: "v < l_memoryFramesPerProcess (l_frame_status vm)"
        and own: "fst (?mem ! v) = ?pid"
        and cnt: "l_global_page_fault_count vm' = l_global_page_fault_count vm + 1"
        and look: "\<forall>P p. valid_pid P \<longrightarrow> pt_lookup (l_page_tables vm') P p =
              (if P = ?pid \<and> p = ?pg then Some v
               else if P = ?pid \<and> p = snd (?mem ! v)
                    then None else pt_lookup (l_page_tables vm) P p)"
        and opt: "l_replacement_policy vm = ''optimal'' \<longrightarrow> spec_optimal_victim ?mem tr i = Some v"
        by auto
      have look': "\<forall>P p. valid_pid P \<longrightarrow> pt_lookup (l_page_tables vm') P p =
              (if P = ?pid \<and> p = ?pg then Some v
               else if P = fst (?mem ! v) \<and> p = snd (?mem ! v)
                    then None else pt_lookup (l_page_tables vm) P p)"
        using look unfolding own .
      have nfree: "\<not> is_free (?mem ! v)" using True v len unfolding region_full_iff by simp
      then have "?mem ! v \<in> in_region fst ?S ?pid" unfolding fr(1) using v len by auto
      then have qS: "?mem ! v \<in> ?S" unfolding in_region_def by simp
      have new: "resident (l_page_tables vm') = insert (tr ! i) (?S - {?mem ! v})"
        using resident_replace[OF look' pid] by simp
      have far: "\<forall>y \<in> ?S. fst y = ?pid \<longrightarrow> nxt y (drop (Suc i) tr) \<le> nxt (?mem ! v) (drop (Suc i) tr)"
        if "l_replacement_policy vm = ''optimal''"
      proof (intro ballI impI)
        fix y assume "y \<in> ?S" "fst y = ?pid"
        then have "y \<in> in_region fst ?S ?pid" unfolding in_region_def by simp
        then obtain f where "f < length ?mem" "?mem ! f = y" unfolding fr(1) by blast
        then show "nxt y (drop (Suc i) tr) \<le> nxt (?mem ! v) (drop (Suc i) tr)"
          using spec_optimal_victim_farthest[of ?mem tr i v f] opt that by auto
      qed
      show ?thesis unfolding access_step_def using notin cnt cd True qS own new far by auto
    qed
  qed
qed

lemma L_steps_can:
  "L_inv vm \<Longrightarrow> known_policy (l_replacement_policy vm) \<Longrightarrow> i + cnt = length tr \<Longrightarrow>
   L_steps rnd tr i cnt vm = Inr vm' \<Longrightarrow>
   \<exists>k. l_global_page_fault_count vm' = l_global_page_fault_count vm + int k \<and>
       can fst (l_memoryFramesPerProcess (l_frame_status vm)) (resident (l_page_tables vm)) (drop i tr) k"
proof (induction cnt arbitrary: i vm)
  case 0
  then show ?case by simp
next
  case (Suc cnt)
  obtain vm1 where step: "L_handleAccess rnd (fst (tr ! i)) (snd (tr ! i)) tr i vm = Inr vm1"
    and rest: "L_steps rnd tr (Suc i) cnt vm1 = Inr vm'"
    using Suc.prems(4) by (auto split: sum.splits)
  have i: "i < length tr" "Suc i + cnt = length tr" using Suc.prems(3) by auto
  note si = L_step_inv[OF Suc.prems(1) step]
  have kp1: "known_policy (l_replacement_policy vm1)" using si Suc.prems(2) by simp
  from Suc.IH[OF _ kp1 i(2) rest] si
  obtain k1 where k1: "l_global_page_fault_count vm' = l_global_page_fault_count vm1 + int k1"
      "can fst (l_memoryFramesPerProcess (l_frame_status vm)) (resident (l_page_tables vm1)) (drop (Suc i) tr) k1"
    by auto
  from access_step_can[OF L_access_step[OF Suc.prems(1,2) step] k1(2)]
  show ?case using k1(1) unfolding Cons_nth_drop_Suc[OF i(1)] by auto
qed

lemma L_steps_opt:
  "L_inv vm \<Longrightarrow> l_replacement_policy vm = ''optimal'' \<Longrightarrow> i + cnt = length tr \<Longrightarrow>
   L_steps rnd tr i cnt vm = Inr vm' \<Longrightarrow>
   \<exists>k. l_global_page_fault_count vm' = l_global_page_fault_count vm + int k \<and>
       opt_run fst (l_memoryFramesPerProcess (l_frame_status vm)) (resident (l_page_tables vm)) (drop i tr) k"
proof (induction cnt arbitrary: i vm)
  case 0
  then show ?case by simp
next
  case (Suc cnt)
  obtain vm1 where step: "L_handleAccess rnd (fst (tr ! i)) (snd (tr ! i)) tr i vm = Inr vm1"
    and rest: "L_steps rnd tr (Suc i) cnt vm1 = Inr vm'"
    using Suc.prems(4) by (auto split: sum.splits)
  have i: "i < length tr" "Suc i + cnt = length tr" using Suc.prems(3) by auto
  have kp: "known_policy (l_replacement_policy vm)" using Suc.prems(2) by (simp add: known_policy_def)
  note si = L_step_inv[OF Suc.prems(1) step]
  have p1: "l_replacement_policy vm1 = ''optimal''" using si Suc.prems(2) by simp
  from Suc.IH[OF _ p1 i(2) rest] si
  obtain k1 where k1: "l_global_page_fault_count vm' = l_global_page_fault_count vm1 + int k1"
      "opt_run fst (l_memoryFramesPerProcess (l_frame_status vm)) (resident (l_page_tables vm1)) (drop (Suc i) tr) k1"
    by auto
  have "access_step fst (l_memoryFramesPerProcess (l_frame_status vm)) True (tr ! i) (drop (Suc i) tr)
           (resident (l_page_tables vm)) (l_global_page_fault_count vm)
           (resident (l_page_tables vm1)) (l_global_page_fault_count vm1)"
    using L_access_step[OF Suc.prems(1) kp step] Suc.prems(2) by simp
  from access_step_opt[OF this k1(2)]
  show ?case using k1(1) unfolding Cons_nth_drop_Suc[OF i(1)] by auto
qed

subsection \<open>Whole runs\<close>

lemma resident_init: "resident (map PageTable_init [0, 1, 2, 3]) = {}"
  unfolding resident_def pt_lookup_def valid_pid_cases by (auto simp: PageTable_init_def)

lemma G_init_tables:
  "G_VirtualMemoryManager_init ps nf policy = Inr vm \<Longrightarrow>
   g_page_tables vm = map PageTable_init [0, 1, 2, 3] \<and> g_global_page_fault_count vm = 0 \<and>
   0 \<le> nf \<and> g_memory (g_frame_status vm) = replicate (nat nf) (-1, 0) \<and>
   g_nextFrame (g_frame_status vm) = 0"
  unfolding G_VirtualMemoryManager_init_def G_FrameStatus_init_def
  by (auto split: if_splits)

lemma L_init_tables:
  "L_VirtualMemoryManager_init ps nf policy = Inr vm \<Longrightarrow>
   l_page_tables vm = map PageTable_init [0, 1, 2, 3] \<and> l_global_page_fault_count vm = 0 \<and>
   l_replacement_policy vm = policy \<and>
   l_memoryFramesPerProcess (l_frame_status vm) = nat (c_div nf 4) \<and>
   l_memory (l_frame_status vm) = replicate 4 (replicate (nat (c_div nf 4)) (-1, 0)) \<and>
   l_nextFrame (l_frame_status vm) = replicate 4 0 \<and>
   l_lru_list (l_frame_status vm) = replicate 4 []"
  unfolding L_VirtualMemoryManager_init_def L_FrameStatus_init_def
  by (auto split: if_splits)

lemma G_run_can:
  assumes nf: "1 \<le> nf" and kp: "known_policy policy"
    and run: "G_runSimulation rnd ps nf policy tr = Inr vm"
  shows "\<exists>k. g_global_page_fault_count vm = int k \<and> can (\<lambda>_. ()) (nat nf) {} tr k"
proof -
  from G_init_ok[OF nf, of ps policy] obtain vm0 where
    i: "G_VirtualMemoryManager_init ps nf policy = Inr vm0" "G_inv vm0"
       "g_replacement_policy vm0 = policy" "g_memoryFrames (g_frame_status vm0) = nat nf"
       "g_global_page_fault_count vm0 = 0" by blast
  have st: "G_steps rnd tr 0 (length tr) vm0 = Inr vm"
    using run i(1) unfolding G_runSimulation_def G_run_prefix_def by simp
  have r: "resident (g_page_tables vm0) = {}" using G_init_tables[OF i(1)] resident_init by simp
  from G_steps_can[OF i(2) _ _ st] kp i(3)
  show ?thesis unfolding r i(4,5) by simp
qed

lemma G_run_opt:
  assumes nf: "1 \<le> nf"
    and run: "G_runSimulation rnd ps nf ''optimal'' tr = Inr vm"
  shows "\<exists>k. g_global_page_fault_count vm = int k \<and> opt_run (\<lambda>_. ()) (nat nf) {} tr k"
proof -
  from G_init_ok[OF nf, of ps "''optimal''"] obtain vm0 where
    i: "G_VirtualMemoryManager_init ps nf ''optimal'' = Inr vm0" "G_inv vm0"
       "g_replacement_policy vm0 = ''optimal''" "g_memoryFrames (g_frame_status vm0) = nat nf"
       "g_global_page_fault_count vm0 = 0" by blast
  have st: "G_steps rnd tr 0 (length tr) vm0 = Inr vm"
    using run i(1) unfolding G_runSimulation_def G_run_prefix_def by simp
  have r: "resident (g_page_tables vm0) = {}" using G_init_tables[OF i(1)] resident_init by simp
  from G_steps_opt[OF i(2,3) _ st]
  show ?thesis unfolding r i(4,5) by simp
qed

lemma L_run_can:
  assumes nf: "4 \<le> nf" and kp: "known_policy policy"
    and run: "L_runSimulation rnd ps nf policy tr = Inr vm"
  shows "\<exists>k. l_global_page_fault_count vm = int k \<and> can fst (nat (nf div 4)) {} tr k"
proof -
  from L_init_ok[OF nf, of ps policy] obtain vm0 where
    i: "L_VirtualMemoryManager_init ps nf policy = Inr vm0" "L_inv vm0"
       "l_replacement_policy vm0 = policy" "l_memoryFramesPerProcess (l_frame_status vm0) = nat (nf div 4)"
       "l_global_page_fault_count vm0 = 0" by blast
  have st: "L_steps rnd tr 0 (length tr) vm0 = Inr vm"
    using run i(1) unfolding L_runSimulation_def L_run_prefix_def by simp
  have r: "resident (l_page_tables vm0) = {}" using L_init_tables[OF i(1)] resident_init by simp
  from L_steps_can[OF i(2) _ _ st] kp i(3)
  show ?thesis unfolding r i(4,5) by simp
qed

lemma L_run_opt:
  assumes nf: "4 \<le> nf"
    and run: "L_runSimulation rnd ps nf ''optimal'' tr = Inr vm"
  shows "\<exists>k. l_global_page_fault_count vm = int k \<and> opt_run fst (nat (nf div 4)) {} tr k"
proof -
  from L_init_ok[OF nf, of ps "''optimal''"] obtain vm0 where
    i: "L_VirtualMemoryManager_init ps nf ''optimal'' = Inr vm0" "L_inv vm0"
       "l_replacement_policy vm0 = ''optimal''" "l_memoryFramesPerProcess (l_frame_status vm0) = nat (nf div 4)"
       "l_global_page_fault_count vm0 = 0" by blast
  have st: "L_steps rnd tr 0 (length tr) vm0 = Inr vm"
    using run i(1) unfolding L_runSimulation_def L_run_prefix_def by simp
  have r: "resident (l_page_tables vm0) = {}" using L_init_tables[OF i(1)] resident_init by simp
  from L_steps_opt[OF i(2,3) _ st]
  show ?thesis unfolding r i(4,5) by simp
qed

text \<open>A run that ends without an error has met only process ids from 0 to 3.\<close>

lemma G_run_valid:
  assumes nf: "1 \<le> nf"
  shows "G_run_prefix rnd ps nf policy tr k = Inr vm \<Longrightarrow> \<forall>j<k. valid_pid (fst (tr ! j))"
proof (induction k arbitrary: vm)
  case 0
  then show ?case by simp
next
  case (Suc k)
  from Suc.prems obtain vm0 where p: "G_run_prefix rnd ps nf policy tr k = Inr vm0"
    and s: "G_handleAccess rnd (fst (tr ! k)) (snd (tr ! k)) tr k vm0 = Inr vm"
    unfolding G_run_prefix_Suc by (auto split: sum.splits)
  have "valid_pid (fst (tr ! k))" using G_step_inv[OF _ s] G_run_prefix_inv[OF nf p] by simp
  then show ?case using Suc.IH[OF p] by (auto simp: less_Suc_eq)
qed

lemma L_run_valid:
  assumes nf: "4 \<le> nf"
  shows "L_run_prefix rnd ps nf policy tr k = Inr vm \<Longrightarrow> \<forall>j<k. valid_pid (fst (tr ! j))"
proof (induction k arbitrary: vm)
  case 0
  then show ?case by simp
next
  case (Suc k)
  from Suc.prems obtain vm0 where p: "L_run_prefix rnd ps nf policy tr k = Inr vm0"
    and s: "L_handleAccess rnd (fst (tr ! k)) (snd (tr ! k)) tr k vm0 = Inr vm"
    unfolding L_run_prefix_Suc by (auto split: sum.splits)
  have "valid_pid (fst (tr ! k))" using L_step_inv[OF _ s] L_run_prefix_inv[OF nf p] by simp
  then show ?case using Suc.IH[OF p] by (auto simp: less_Suc_eq)
qed

text \<open>
  With no frame to hand out, the first access already fails: on a pool of zero frames
  \<^verbatim>\<open>allocateFrame\<close> of the shared engine reads \<^verbatim>\<open>memory[0]\<close> of an empty vector, and on
  partitions of zero frames every replacement routine of the partitioned engine reads
  outside its vectors or divides by zero.
\<close>

lemma G_small_run:
  assumes nf: "nf < 1" and run: "G_runSimulation rnd ps nf policy tr = Inr vm"
  shows "tr = [] \<and> g_global_page_fault_count vm = 0"
proof -
  obtain vm0 where i: "G_VirtualMemoryManager_init ps nf policy = Inr vm0"
    and st: "G_steps rnd tr 0 (length tr) vm0 = Inr vm"
    using run unfolding G_runSimulation_def G_run_prefix_def by (auto split: sum.splits)
  note it = G_init_tables[OF i]
  have mem: "g_memory (g_frame_status vm0) = []" using it nf by simp
  have len4: "length (g_page_tables vm0) = 4" using it by simp
  show ?thesis
  proof (cases tr)
    case Nil
    then show ?thesis using st it by simp
  next
    case (Cons a rest)
    have "\<exists>e. G_handleAccess rnd (fst a) (snd a) tr 0 vm0 = Inl e"
    proof (cases "valid_pid (fst a)")
      case False
      then show ?thesis using G_handleAccess_bad_pid[OF len4] by blast
    next
      case True
      have "(fst a, snd a) \<notin> resident (g_page_tables vm0)" using it resident_init by simp
      then have miss: "pt_lookup (g_page_tables vm0) (fst a) (snd a) = None"
        using True unfolding resident_def by (auto simp: case_prod_beta)
      show ?thesis unfolding G_handleAccess_miss[OF True len4 miss]
        by (simp add: G_allocateFrame_def mem)
    qed
    then show ?thesis using st Cons by auto
  qed
qed

lemma L_small_run:
  assumes nf: "nf < 4" and kp: "known_policy policy"
    and run: "L_runSimulation rnd ps nf policy tr = Inr vm"
  shows "tr = [] \<and> l_global_page_fault_count vm = 0"
proof -
  obtain vm0 where i: "L_VirtualMemoryManager_init ps nf policy = Inr vm0"
    and st: "L_steps rnd tr 0 (length tr) vm0 = Inr vm"
    using run unfolding L_runSimulation_def L_run_prefix_def by (auto split: sum.splits)
  note it = L_init_tables[OF i]
  have z: "nat (c_div nf 4) = 0" using nf unfolding c_div_def by (auto split: if_splits)
  have len4: "length (l_page_tables vm0) = 4" using it by simp
  show ?thesis
  proof (cases tr)
    case Nil
    then show ?thesis using st it by simp
  next
    case (Cons a rest)
    have "\<exists>e. L_handleAccess rnd (fst a) (snd a) tr 0 vm0 = Inl e"
    proof (cases "valid_pid (fst a)")
      case False
      then show ?thesis using L_handleAccess_bad_pid[of vm0 "fst a"] len4 by blast
    next
      case True
      have "(fst a, snd a) \<notin> resident (l_page_tables vm0)" using it resident_init by simp
      then have miss: "pt_lookup (l_page_tables vm0) (fst a) (snd a) = None"
        using True unfolding resident_def by (auto simp: case_prod_beta)
      have al: "L_allocateFrame (fst a) (snd a) (l_frame_status vm0) = Inr (None, l_frame_status vm0)"
        using it z by (simp add: L_allocateFrame_def)
      have ir: "in_range (fst a) (replicate 4 x)" for x :: 'b
        using True by (simp add: valid_pid_in_range)
      have "l_replacement_policy vm0 = ''fifo'' \<or> l_replacement_policy vm0 = ''lru'' \<or>
            l_replacement_policy vm0 = ''optimal'' \<or> l_replacement_policy vm0 = ''random''"
        using kp it unfolding known_policy_def by simp
      then show ?thesis unfolding L_handleAccess_miss[OF True len4 miss] al
        using it z
        by (auto simp: L_replace_def L_fifoReplacement_def L_lruReplacement_def
            L_optimalReplacement_def L_randomReplacement_def Let_def ir nth_replicate4[OF True])
    qed
    then show ?thesis using st Cons by auto
  qed
qed


lemma G_empty_run:
  "G_runSimulation rnd ps nf policy [] = Inr vm \<Longrightarrow>
   \<exists>vm'. G_runSimulation rnd' ps nf policy' [] = Inr vm' \<and> g_global_page_fault_count vm' = 0"
  unfolding G_runSimulation_def G_run_prefix_def G_VirtualMemoryManager_init_def G_FrameStatus_init_def
  by (auto split: if_splits)

lemma L_empty_run:
  "L_runSimulation rnd ps nf policy [] = Inr vm \<Longrightarrow>
   \<exists>vm'. L_runSimulation rnd' ps nf policy' [] = Inr vm' \<and> l_global_page_fault_count vm' = 0"
  unfolding L_runSimulation_def L_run_prefix_def L_VirtualMemoryManager_init_def L_FrameStatus_init_def
  by (auto split: if_splits)

lemma cap_ok_empty: "cap_ok reg cap {}"
  by (simp add: cap_ok_def in_region_def)

text \<open>
  On the same input the optimal policy has no more faults than any recognised policy, in
  the shared-pool engine: when the run under \<open>policy\<close> ends with a count, so does the run
  under \<^verbatim>\<open>optimal\<close>, with a count that is not larger.
\<close>

lemma G_optimal_least:
  assumes kp: "known_policy policy"
    and run: "G_runSimulation rnd ps nf policy tr = Inr vm"
  shows "\<exists>vmo. G_runSimulation rnd' ps nf ''optimal'' tr = Inr vmo \<and>
               g_global_page_fault_count vmo \<le> g_global_page_fault_count vm"
proof (cases "1 \<le> nf")
  case True
  have "\<forall>j<length tr. valid_pid (fst (tr ! j))"
    using G_run_valid[OF True] run unfolding G_runSimulation_def by blast
  from G_run_prefix_total[OF True this, of rnd' ps "''optimal''"]
  obtain vmo where o: "G_runSimulation rnd' ps nf ''optimal'' tr = Inr vmo"
    unfolding G_runSimulation_def by blast
  from G_run_opt[OF True o] obtain ko where
    ko: "g_global_page_fault_count vmo = int ko" "opt_run (\<lambda>_. ()) (nat nf) {} tr ko" by blast
  from G_run_can[OF True kp run] obtain k where
    k: "g_global_page_fault_count vm = int k" "can (\<lambda>_. ()) (nat nf) {} tr k" by blast
  have "ko \<le> k" using opt_run_least[OF ko(2) k(2) cap_ok_empty] .
  then show ?thesis using o ko(1) k(1) by simp
next
  case False
  then have s: "tr = []" "g_global_page_fault_count vm = 0" using G_small_run[OF _ run] by auto
  from G_empty_run[OF run[unfolded s(1)], of rnd' "''optimal''"] show ?thesis
    unfolding s by auto
qed

lemma L_optimal_least:
  assumes kp: "known_policy policy"
    and run: "L_runSimulation rnd ps nf policy tr = Inr vm"
  shows "\<exists>vmo. L_runSimulation rnd' ps nf ''optimal'' tr = Inr vmo \<and>
               l_global_page_fault_count vmo \<le> l_global_page_fault_count vm"
proof (cases "4 \<le> nf")
  case True
  have "\<forall>j<length tr. valid_pid (fst (tr ! j))"
    using L_run_valid[OF True] run unfolding L_runSimulation_def by blast
  from L_run_prefix_total[OF True this, of rnd' ps "''optimal''"]
  obtain vmo where o: "L_runSimulation rnd' ps nf ''optimal'' tr = Inr vmo"
    unfolding L_runSimulation_def by blast
  from L_run_opt[OF True o] obtain ko where
    ko: "l_global_page_fault_count vmo = int ko" "opt_run fst (nat (nf div 4)) {} tr ko" by blast
  from L_run_can[OF True kp run] obtain k where
    k: "l_global_page_fault_count vm = int k" "can fst (nat (nf div 4)) {} tr k" by blast
  have "ko \<le> k" using opt_run_least[OF ko(2) k(2) cap_ok_empty] .
  then show ?thesis using o ko(1) k(1) by simp
next
  case False
  then have s: "tr = []" "l_global_page_fault_count vm = 0" using L_small_run[OF _ kp run] by auto
  from L_empty_run[OF run[unfolded s(1)], of rnd' "''optimal''"] show ?thesis
    unfolding s by auto
qed

text \<open>
  Under the optimal policy the shared pool has no more faults than the partitions: a run
  of the partitioned engine is one way of serving the trace from a pool of all frames.
\<close>

lemma G_le_L_optimal:
  assumes lrun: "L_runSimulation rnd ps nf ''optimal'' tr = Inr lvm"
  shows "(0 \<le> nf \<longrightarrow> (\<exists>gvm. G_runSimulation rnd' ps nf ''optimal'' tr = Inr gvm)) \<and>
         (\<forall>gvm. G_runSimulation rnd' ps nf ''optimal'' tr = Inr gvm \<longrightarrow>
            g_global_page_fault_count gvm \<le> l_global_page_fault_count lvm)"
proof (cases "4 \<le> nf")
  case True
  then have one: "1 \<le> nf" by simp
  have kp: "known_policy ''optimal''" by (simp add: known_policy_def)
  have val: "\<forall>j<length tr. valid_pid (fst (tr ! j))"
    using L_run_valid[OF True] lrun unfolding L_runSimulation_def by blast
  from G_run_prefix_total[OF one val, of rnd' ps "''optimal''"]
  obtain gvm where g: "G_runSimulation rnd' ps nf ''optimal'' tr = Inr gvm"
    unfolding G_runSimulation_def by blast
  from G_run_opt[OF one g] obtain kg where
    kg: "g_global_page_fault_count gvm = int kg" "opt_run (\<lambda>_. ()) (nat nf) {} tr kg" by blast
  from L_run_can[OF True kp lrun] obtain kl where
    kl: "l_global_page_fault_count lvm = int kl" "can fst (nat (nf div 4)) {} tr kl" by blast
  have "\<forall>x \<in> {} \<union> set tr. fst x \<in> {0, 1, 2, 3 :: int}"
  proof
    fix x assume "x \<in> {} \<union> set tr"
    then obtain j where "j < length tr" "tr ! j = x" by (auto simp: in_set_conv_nth)
    then have "valid_pid (fst x)" using val by auto
    then show "fst x \<in> {0, 1, 2, 3 :: int}" unfolding valid_pid_cases by auto
  qed
  moreover have "card {0, 1, 2, 3 :: int} * nat (nf div 4) \<le> nat nf" using True by simp
  ultimately have "can (\<lambda>_. ()) (nat nf) {} tr kl"
    using can_shared[OF kl(2) cap_ok_empty, of "{0, 1, 2, 3}" "nat nf"] by blast
  then have "kg \<le> kl" using opt_run_least[OF kg(2) _ cap_ok_empty] by blast
  then show ?thesis using g kg(1) kl(1) by simp
next
  case False
  have kp: "known_policy ''optimal''" by (simp add: known_policy_def)
  have s: "tr = []" "l_global_page_fault_count lvm = 0" using L_small_run[OF _ kp lrun] False by auto
  have "G_runSimulation rnd' ps nf ''optimal'' [] = Inr gvm \<longrightarrow> g_global_page_fault_count gvm = 0" for gvm
    unfolding G_runSimulation_def G_run_prefix_def using G_init_tables[of ps nf "''optimal''" gvm]
    by (auto split: sum.splits)
  moreover have "0 \<le> nf \<longrightarrow> (\<exists>gvm. G_runSimulation rnd' ps nf ''optimal'' [] = Inr gvm)"
    unfolding G_runSimulation_def G_run_prefix_def G_VirtualMemoryManager_init_def G_FrameStatus_init_def
    by simp
  ultimately show ?thesis unfolding s by simp
qed

section \<open>Degenerate frame counts\<close>

lemma G_run_prefix_frames:
  "G_run_prefix rnd ps nf policy tr k = Inr vm \<Longrightarrow> 0 \<le> nf"
  unfolding G_run_prefix_def using G_init_tables[of ps nf policy]
  by (auto split: sum.splits)

lemma L_run_prefix_frames:
  "L_run_prefix rnd ps nf policy tr k = Inr vm \<Longrightarrow> 0 \<le> c_div nf 4"
  unfolding L_run_prefix_def L_VirtualMemoryManager_init_def L_FrameStatus_init_def
  by (auto split: sum.splits if_splits)

lemma c_div_4_pos: "0 \<le> c_div nf 4 \<Longrightarrow> c_div nf 4 \<noteq> 0 \<Longrightarrow> 4 \<le> nf"
  unfolding c_div_def by (auto split: if_splits)

lemma c_div_4_zero: "0 \<le> c_div nf 4 \<Longrightarrow> \<not> 4 \<le> nf \<Longrightarrow> c_div nf 4 = 0"
  unfolding c_div_def by (auto split: if_splits)

lemma L_no_frames_allocate:
  assumes "L_no_frames vm"
  shows "L_allocateFrame pid pg (l_frame_status vm) = Inr (None, l_frame_status vm)"
  using assms by (simp add: L_no_frames_def L_allocateFrame_def)

lemma L_no_frames_access:
  assumes nfr: "L_no_frames vm" and step: "L_handleAccess rnd pid pg tr i vm = Inr vm'"
  shows "valid_pid pid \<and> \<not> known_policy (l_replacement_policy vm) \<and>
         vm' = vm\<lparr>l_global_page_fault_count := l_global_page_fault_count vm + 1,
                  l_page_tables := count_fault (l_page_tables vm) pid\<rparr>"
proof -
  have len4: "length (l_page_tables vm) = 4" using nfr by (simp add: L_no_frames_def)
  have pid: "valid_pid pid" using L_handleAccess_bad_pid[OF len4, of pid rnd pg tr i] step by auto
  have miss: "pt_lookup (l_page_tables vm) pid pg = None" using nfr pid by (simp add: L_no_frames_def)
  let ?vm1 = "vm\<lparr>l_global_page_fault_count := l_global_page_fault_count vm + 1,
                  l_page_tables := count_fault (l_page_tables vm) pid, l_frame_status := l_frame_status vm\<rparr>"
  have r: "L_replace rnd pid pg tr i ?vm1 = Inr vm'"
    using step unfolding L_handleAccess_miss[OF pid len4 miss] L_no_frames_allocate[OF nfr] by simp
  have ir: "in_range pid (replicate 4 x)" for x :: 'b
    using pid by (simp add: valid_pid_in_range)
  have nk: "\<not> known_policy (l_replacement_policy vm)"
  proof
    assume "known_policy (l_replacement_policy vm)"
    then have "l_replacement_policy vm = ''fifo'' \<or> l_replacement_policy vm = ''lru'' \<or>
          l_replacement_policy vm = ''optimal'' \<or> l_replacement_policy vm = ''random''"
      unfolding known_policy_def by simp
    then have "\<exists>e. L_replace rnd pid pg tr i ?vm1 = Inl e"
      using nfr unfolding L_no_frames_def
      by (auto simp: L_replace_def L_fifoReplacement_def L_lruReplacement_def
          L_optimalReplacement_def L_randomReplacement_def Let_def ir nth_replicate4[OF pid])
    then show False using r by auto
  qed
  then have "L_replace rnd pid pg tr i ?vm1 = Inr ?vm1" using L_replace_unknown[of ?vm1] by simp
  from trans[OF r[symmetric] this] have "vm' = ?vm1" by (simp only: sum.inject)
  then show ?thesis using pid nk by simp
qed

lemma L_no_frames_drop:
  assumes nfr: "L_no_frames vm" and pid: "valid_pid pid"
    and nk: "\<not> known_policy (l_replacement_policy vm)"
  shows "L_handleAccess rnd pid pg tr i vm =
           Inr (vm\<lparr>l_global_page_fault_count := l_global_page_fault_count vm + 1,
                   l_page_tables := count_fault (l_page_tables vm) pid\<rparr>)"
proof -
  have len4: "length (l_page_tables vm) = 4" using nfr by (simp add: L_no_frames_def)
  have miss: "pt_lookup (l_page_tables vm) pid pg = None" using nfr pid by (simp add: L_no_frames_def)
  let ?vm1 = "vm\<lparr>l_global_page_fault_count := l_global_page_fault_count vm + 1,
                  l_page_tables := count_fault (l_page_tables vm) pid, l_frame_status := l_frame_status vm\<rparr>"
  have "L_replace rnd pid pg tr i ?vm1 = Inr ?vm1" using L_replace_unknown[of ?vm1] nk by simp
  then show ?thesis
    unfolding L_handleAccess_miss[OF pid len4 miss] L_no_frames_allocate[OF nfr] by simp
qed

lemma L_no_frames_step:
  assumes nfr: "L_no_frames vm" and step: "L_handleAccess rnd pid pg tr i vm = Inr vm'"
  shows "L_no_frames vm' \<and> l_replacement_policy vm' = l_replacement_policy vm"
proof -
  note a = L_no_frames_access[OF nfr step]
  have pid: "valid_pid pid" using a by simp
  have len4: "length (l_page_tables vm) = 4" using nfr by (simp add: L_no_frames_def)
  show ?thesis using a nfr bump_lookup[OF pid len4]
    by (simp add: L_no_frames_def length_count_fault)
qed

lemma L_no_frames_steps:
  "L_no_frames vm \<Longrightarrow> L_steps rnd tr i k vm = Inr vm' \<Longrightarrow>
   L_no_frames vm' \<and> l_replacement_policy vm' = l_replacement_policy vm"
proof (induction k arbitrary: i vm)
  case 0
  then show ?case by simp
next
  case (Suc k)
  from Suc.prems(2) obtain vm1 where
    s: "L_handleAccess rnd (fst (tr ! i)) (snd (tr ! i)) tr i vm = Inr vm1"
    and r: "L_steps rnd tr (Suc i) k vm1 = Inr vm'"
    by (auto split: sum.splits)
  note n1 = L_no_frames_step[OF Suc.prems(1) s]
  show ?case using Suc.IH[OF _ r] n1 by simp
qed

lemma L_no_frames_run:
  assumes small: "\<not> 4 \<le> nf" and run: "L_run_prefix rnd ps nf policy tr k = Inr vm"
  shows "L_no_frames vm \<and> l_replacement_policy vm = policy"
proof -
  obtain vm0 where i: "L_VirtualMemoryManager_init ps nf policy = Inr vm0"
    and st: "L_steps rnd tr 0 k vm0 = Inr vm"
    using run unfolding L_run_prefix_def by (auto split: sum.splits)
  note it = L_init_tables[OF i]
  have z: "c_div nf 4 = 0" using c_div_4_zero[OF L_run_prefix_frames[OF run] small] .
  have "resident (l_page_tables vm0) = {}" using it resident_init by simp
  then have "\<forall>P p. valid_pid P \<longrightarrow> pt_lookup (l_page_tables vm0) P p = None"
    unfolding resident_def by auto
  then have "L_no_frames vm0" using it z by (simp add: L_no_frames_def)
  from L_no_frames_steps[OF this st] show ?thesis using it by simp
qed

section \<open>The claims\<close>

text \<open>
  C7 (FIFO Belady anomaly).  In the shared-pool engine with policy \<open>fifo\<close>, a single
  process (any of the four process ids) accessing pages 1,2,3,4,1,2,5,1,2,3,4,5 faults
  exactly 9 times with 3 frames and exactly 10 times with 4 frames, whatever the page
  size and the random draws.
\<close>

theorem C7_fifo_belady_anomaly:
  "G_faults (G_runSimulation rnd ps 3 ''fifo'' (belady_trace 0)) = Inr 9 \<and>
   G_faults (G_runSimulation rnd ps 4 ''fifo'' (belady_trace 0)) = Inr 10 \<and>
   G_faults (G_runSimulation rnd ps 3 ''fifo'' (belady_trace 1)) = Inr 9 \<and>
   G_faults (G_runSimulation rnd ps 4 ''fifo'' (belady_trace 1)) = Inr 10 \<and>
   G_faults (G_runSimulation rnd ps 3 ''fifo'' (belady_trace 2)) = Inr 9 \<and>
   G_faults (G_runSimulation rnd ps 4 ''fifo'' (belady_trace 2)) = Inr 10 \<and>
   G_faults (G_runSimulation rnd ps 3 ''fifo'' (belady_trace 3)) = Inr 9 \<and>
   G_faults (G_runSimulation rnd ps 4 ''fifo'' (belady_trace 3)) = Inr 10"
  by code_simp

text \<open>
  C1 (occupancy bijection after every step).  For every trace, policy string and random
  draws, after any number \<open>k\<close> of processed records: in the shared-pool engine with at
  least one frame, the table of process \<open>P\<close> maps page \<open>p\<close> to \<open>f\<close> exactly when frame \<open>f\<close>
  of the pool holds \<open>(P, p)\<close>, and no two table entries name the same frame; in the
  partitioned engine with at least four frames, the table of \<open>P\<close> maps \<open>p\<close> to \<open>f\<close>
  exactly when frame \<open>f\<close> of the partition of \<open>P\<close> holds \<open>(P, p)\<close>, and no two entries of a
  table name the same frame of the partition.  A trace whose process ids are all in
  range does reach such a state.
\<close>

theorem C1_occupancy_bijection:
  "(1 \<le> nf \<and> k \<le> length trace \<longrightarrow>
      (G_run_prefix rnd ps nf policy trace k = Inr gvm \<longrightarrow>
         (\<forall>P p f. valid_pid P \<longrightarrow>
            (pt_lookup (g_page_tables gvm) P p = Some f) =
            (f < length (g_memory (g_frame_status gvm)) \<and> g_memory (g_frame_status gvm) ! f = (P, p))) \<and>
         (\<forall>P p P' p' f. valid_pid P \<and> valid_pid P' \<and>
            pt_lookup (g_page_tables gvm) P p = Some f \<and> pt_lookup (g_page_tables gvm) P' p' = Some f
            \<longrightarrow> P = P' \<and> p = p')) \<and>
      ((\<forall>j<k. valid_pid (fst (trace ! j))) \<longrightarrow> (\<exists>vm. G_run_prefix rnd ps nf policy trace k = Inr vm))) \<and>
   (4 \<le> nf \<and> k \<le> length trace \<longrightarrow>
      (L_run_prefix rnd ps nf policy trace k = Inr lvm \<longrightarrow>
         (\<forall>P p f. valid_pid P \<longrightarrow>
            (pt_lookup (l_page_tables lvm) P p = Some f) =
            (f < length (l_memory (l_frame_status lvm) ! nat P) \<and>
             l_memory (l_frame_status lvm) ! nat P ! f = (P, p))) \<and>
         (\<forall>P p p' f. valid_pid P \<and>
            pt_lookup (l_page_tables lvm) P p = Some f \<and> pt_lookup (l_page_tables lvm) P p' = Some f
            \<longrightarrow> p = p')) \<and>
      ((\<forall>j<k. valid_pid (fst (trace ! j))) \<longrightarrow> (\<exists>vm. L_run_prefix rnd ps nf policy trace k = Inr vm)))"
proof (intro conjI impI)
  assume a: "1 \<le> nf \<and> k \<le> length trace" and r: "G_run_prefix rnd ps nf policy trace k = Inr gvm"
  have "G_inv gvm" using G_run_prefix_inv[of nf rnd ps policy trace k gvm] a r by simp
  then have b: "\<forall>P p f. valid_pid P \<longrightarrow>
            (pt_lookup (g_page_tables gvm) P p = Some f) =
            (f < length (g_memory (g_frame_status gvm)) \<and> g_memory (g_frame_status gvm) ! f = (P, p))"
    by (simp add: G_inv_def G_bijection_def)
  then show "\<forall>P p f. valid_pid P \<longrightarrow>
            (pt_lookup (g_page_tables gvm) P p = Some f) =
            (f < length (g_memory (g_frame_status gvm)) \<and> g_memory (g_frame_status gvm) ! f = (P, p))" .
  show "\<forall>P p P' p' f. valid_pid P \<and> valid_pid P' \<and>
            pt_lookup (g_page_tables gvm) P p = Some f \<and> pt_lookup (g_page_tables gvm) P' p' = Some f
            \<longrightarrow> P = P' \<and> p = p'"
    using bijection_injective[OF b] by blast
next
  assume "1 \<le> nf \<and> k \<le> length trace" "\<forall>j<k. valid_pid (fst (trace ! j))"
  then show "\<exists>vm. G_run_prefix rnd ps nf policy trace k = Inr vm"
    using G_run_prefix_total[of nf k trace rnd ps policy] by simp
next
  assume a: "4 \<le> nf \<and> k \<le> length trace" and r: "L_run_prefix rnd ps nf policy trace k = Inr lvm"
  have "L_inv lvm" using L_run_prefix_inv[of nf rnd ps policy trace k lvm] a r by simp
  then have b: "\<forall>P p f. valid_pid P \<longrightarrow>
            (pt_lookup (l_page_tables lvm) P p = Some f) =
            (f < length (l_memory (l_frame_status lvm) ! nat P) \<and>
             l_memory (l_frame_status lvm) ! nat P ! f = (P, p))"
    by (simp add: L_inv_def L_bijection_def)
  then show "\<forall>P p f. valid_pid P \<longrightarrow>
            (pt_lookup (l_page_tables lvm) P p = Some f) =
            (f < length (l_memory (l_frame_status lvm) ! nat P) \<and>
             l_memory (l_frame_status lvm) ! nat P ! f = (P, p))" .
  show "\<forall>P p p' f. valid_pid P \<and>
            pt_lookup (l_page_tables lvm) P p = Some f \<and> pt_lookup (l_page_tables lvm) P p' = Some f
            \<longrightarrow> p = p'"
  proof (intro allI impI)
    fix P p p' f
    assume h: "valid_pid P \<and> pt_lookup (l_page_tables lvm) P p = Some f \<and>
               pt_lookup (l_page_tables lvm) P p' = Some f"
    then have "l_memory (l_frame_status lvm) ! nat P ! f = (P, p)"
              "l_memory (l_frame_status lvm) ! nat P ! f = (P, p')" using b by blast+
    then show "p = p'" by simp
  qed
next
  assume "4 \<le> nf \<and> k \<le> length trace" "\<forall>j<k. valid_pid (fst (trace ! j))"
  then show "\<exists>vm. L_run_prefix rnd ps nf policy trace k = Inr vm"
    using L_run_prefix_total[of nf k trace rnd ps policy] by simp
qed

theorem C1_occupancy_bijection_witness:
  "\<exists>gvm lvm.
     G_run_prefix (\<lambda>_. 0) 4096 4 ''lru'' sample_trace 6 = Inr gvm \<and>
     L_run_prefix (\<lambda>_. 0) 4096 4 ''lru'' sample_trace 6 = Inr lvm \<and>
     g_memory (g_frame_status gvm) = [(1, 4), (0, 1), (1, 2), (1, 3)] \<and>
     pt_lookup (g_page_tables gvm) 1 4 = Some 0 \<and> pt_lookup (g_page_tables gvm) 0 1 = Some 1 \<and>
     pt_lookup (g_page_tables gvm) 1 1 = None \<and>
     l_memory (l_frame_status lvm) = [[(0, 1)], [(1, 4)], [(-1, 0)], [(-1, 0)]] \<and>
     pt_lookup (l_page_tables lvm) 1 4 = Some 0 \<and> pt_lookup (l_page_tables lvm) 0 1 = Some 0 \<and>
     pt_lookup (l_page_tables lvm) 1 3 = None"
proof -
  have g: "G_frames (G_run_prefix (\<lambda>_. 0) 4096 4 ''lru'' sample_trace 6) = [(1, 4), (0, 1), (1, 2), (1, 3)]"
    by code_simp
  have l: "L_frames (L_run_prefix (\<lambda>_. 0) 4096 4 ''lru'' sample_trace 6) = [[(0, 1)], [(1, 4)], [(-1, 0)], [(-1, 0)]]"
    by code_simp
  from g obtain gvm where gr: "G_run_prefix (\<lambda>_. 0) 4096 4 ''lru'' sample_trace 6 = Inr gvm"
    and gm: "g_memory (g_frame_status gvm) = [(1, 4), (0, 1), (1, 2), (1, 3)]"
    by (auto simp: G_frames_def split: sum.splits)
  from l obtain lvm where lr: "L_run_prefix (\<lambda>_. 0) 4096 4 ''lru'' sample_trace 6 = Inr lvm"
    and lm: "l_memory (l_frame_status lvm) = [[(0, 1)], [(1, 4)], [(-1, 0)], [(-1, 0)]]"
    by (auto simp: L_frames_def split: sum.splits)
  have len: "(6::nat) \<le> length sample_trace" by (simp add: sample_trace_def)
  note c = C1_occupancy_bijection[of 4 6 sample_trace "\<lambda>_. 0" 4096 "''lru''" gvm lvm]
  have gb: "\<forall>P p f. valid_pid P \<longrightarrow>
            (pt_lookup (g_page_tables gvm) P p = Some f) =
            (f < length (g_memory (g_frame_status gvm)) \<and> g_memory (g_frame_status gvm) ! f = (P, p))"
    using c gr len by simp
  have lb: "\<forall>P p f. valid_pid P \<longrightarrow>
            (pt_lookup (l_page_tables lvm) P p = Some f) =
            (f < length (l_memory (l_frame_status lvm) ! nat P) \<and>
             l_memory (l_frame_status lvm) ! nat P ! f = (P, p))"
    using c lr len by simp
  have v: "valid_pid 0" "valid_pid 1" by (simp_all add: valid_pid_def)
  have g1: "pt_lookup (g_page_tables gvm) 1 4 = Some 0" using gb v(2) gm by simp
  have g2: "pt_lookup (g_page_tables gvm) 0 1 = Some 1" using gb v(1) gm by simp
  have g3: "pt_lookup (g_page_tables gvm) 1 1 = None"
  proof (cases "pt_lookup (g_page_tables gvm) 1 1")
    case (Some f)
    then have f: "f < 4" "[(1, 4), (0, 1), (1, 2), (1::int, 3::64 word)] ! f = (1, 1)"
      using gb v(2) gm by simp_all
    from f(1) consider "f = 0" | "f = 1" | "f = 2" | "f = 3" by linarith
    then show ?thesis using f(2) by cases simp_all
  qed simp
  have l1: "pt_lookup (l_page_tables lvm) 1 4 = Some 0" using lb v(2) lm by simp
  have l2: "pt_lookup (l_page_tables lvm) 0 1 = Some 0" using lb v(1) lm by simp
  have "pt_lookup (l_page_tables lvm) 1 3 \<noteq> Some f" for f
    using lb[rule_format, OF v(2), of 3 f] by (cases f) (simp_all add: lm)
  then have l3: "pt_lookup (l_page_tables lvm) 1 3 = None"
    by (cases "pt_lookup (l_page_tables lvm) 1 3") auto
  show ?thesis using gr lr gm lm g1 g2 g3 l1 l2 l3 by blast
qed

text \<open>
  C2 (fault-count conservation and monotonicity).  In both engines, for every trace,
  policy string, frame count and random draws, after every prefix of the trace the
  global fault counter equals the sum of the four per-process counters; the next access
  leaves every counter unchanged when it hits (the page is in the table of its process)
  and adds exactly one to the global counter and to the counter of the accessing process,
  and nothing to the others, when it misses; so no counter ever decreases from one prefix
  to a longer one.
\<close>

theorem C2_fault_count_conservation:
  "(k \<le> length trace \<and> G_run_prefix rnd ps nf policy trace k = Inr gvm \<longrightarrow>
      g_global_page_fault_count gvm = sum_faults (g_page_tables gvm) \<and>
      (\<forall>gvm'. k < length trace \<and> G_run_prefix rnd ps nf policy trace (Suc k) = Inr gvm' \<longrightarrow>
         (pt_lookup (g_page_tables gvm) (fst (trace ! k)) (snd (trace ! k)) \<noteq> None \<longrightarrow>
            g_global_page_fault_count gvm' = g_global_page_fault_count gvm \<and>
            (\<forall>P. valid_pid P \<longrightarrow> pt_faults (g_page_tables gvm') P = pt_faults (g_page_tables gvm) P)) \<and>
         (pt_lookup (g_page_tables gvm) (fst (trace ! k)) (snd (trace ! k)) = None \<longrightarrow>
            g_global_page_fault_count gvm' = g_global_page_fault_count gvm + 1 \<and>
            (\<forall>P. valid_pid P \<longrightarrow> pt_faults (g_page_tables gvm') P =
               (if P = fst (trace ! k) then pt_faults (g_page_tables gvm) P + 1
                else pt_faults (g_page_tables gvm) P)))) \<and>
      (\<forall>k' gvm'. k \<le> k' \<and> k' \<le> length trace \<and> G_run_prefix rnd ps nf policy trace k' = Inr gvm' \<longrightarrow>
         g_global_page_fault_count gvm \<le> g_global_page_fault_count gvm' \<and>
         (\<forall>P. valid_pid P \<longrightarrow> pt_faults (g_page_tables gvm) P \<le> pt_faults (g_page_tables gvm') P))) \<and>
   (k \<le> length trace \<and> L_run_prefix rnd ps nf policy trace k = Inr lvm \<longrightarrow>
      l_global_page_fault_count lvm = sum_faults (l_page_tables lvm) \<and>
      (\<forall>lvm'. k < length trace \<and> L_run_prefix rnd ps nf policy trace (Suc k) = Inr lvm' \<longrightarrow>
         (pt_lookup (l_page_tables lvm) (fst (trace ! k)) (snd (trace ! k)) \<noteq> None \<longrightarrow>
            l_global_page_fault_count lvm' = l_global_page_fault_count lvm \<and>
            (\<forall>P. valid_pid P \<longrightarrow> pt_faults (l_page_tables lvm') P = pt_faults (l_page_tables lvm) P)) \<and>
         (pt_lookup (l_page_tables lvm) (fst (trace ! k)) (snd (trace ! k)) = None \<longrightarrow>
            l_global_page_fault_count lvm' = l_global_page_fault_count lvm + 1 \<and>
            (\<forall>P. valid_pid P \<longrightarrow> pt_faults (l_page_tables lvm') P =
               (if P = fst (trace ! k) then pt_faults (l_page_tables lvm) P + 1
                else pt_faults (l_page_tables lvm) P)))) \<and>
      (\<forall>k' lvm'. k \<le> k' \<and> k' \<le> length trace \<and> L_run_prefix rnd ps nf policy trace k' = Inr lvm' \<longrightarrow>
         l_global_page_fault_count lvm \<le> l_global_page_fault_count lvm' \<and>
         (\<forall>P. valid_pid P \<longrightarrow> pt_faults (l_page_tables lvm) P \<le> pt_faults (l_page_tables lvm') P)))"
proof (rule conjI; rule impI)
  assume a: "k \<le> length trace \<and> G_run_prefix rnd ps nf policy trace k = Inr gvm"
  then have r: "G_run_prefix rnd ps nf policy trace k = Inr gvm" by simp
  note c = G_prefix_counts[OF r]
  have 1: "g_global_page_fault_count gvm = sum_faults (g_page_tables gvm)" using c by simp
  have 2: "\<forall>gvm'. k < length trace \<and> G_run_prefix rnd ps nf policy trace (Suc k) = Inr gvm' \<longrightarrow>
         (pt_lookup (g_page_tables gvm) (fst (trace ! k)) (snd (trace ! k)) \<noteq> None \<longrightarrow>
            g_global_page_fault_count gvm' = g_global_page_fault_count gvm \<and>
            (\<forall>P. valid_pid P \<longrightarrow> pt_faults (g_page_tables gvm') P = pt_faults (g_page_tables gvm) P)) \<and>
         (pt_lookup (g_page_tables gvm) (fst (trace ! k)) (snd (trace ! k)) = None \<longrightarrow>
            g_global_page_fault_count gvm' = g_global_page_fault_count gvm + 1 \<and>
            (\<forall>P. valid_pid P \<longrightarrow> pt_faults (g_page_tables gvm') P =
               (if P = fst (trace ! k) then pt_faults (g_page_tables gvm) P + 1
                else pt_faults (g_page_tables gvm) P)))"
  proof (intro allI impI)
    fix vm' assume s: "k < length trace \<and> G_run_prefix rnd ps nf policy trace (Suc k) = Inr vm'"
    then have h: "G_handleAccess rnd (fst (trace ! k)) (snd (trace ! k)) trace k gvm = Inr vm'"
      by (simp add: G_run_prefix_Suc r)
    from G_handleAccess_counts[OF c[THEN conjunct1] h]
    show "(pt_lookup (g_page_tables gvm) (fst (trace ! k)) (snd (trace ! k)) \<noteq> None \<longrightarrow>
            g_global_page_fault_count vm' = g_global_page_fault_count gvm \<and>
            (\<forall>P. valid_pid P \<longrightarrow> pt_faults (g_page_tables vm') P = pt_faults (g_page_tables gvm) P)) \<and>
         (pt_lookup (g_page_tables gvm) (fst (trace ! k)) (snd (trace ! k)) = None \<longrightarrow>
            g_global_page_fault_count vm' = g_global_page_fault_count gvm + 1 \<and>
            (\<forall>P. valid_pid P \<longrightarrow> pt_faults (g_page_tables vm') P =
               (if P = fst (trace ! k) then pt_faults (g_page_tables gvm) P + 1
                else pt_faults (g_page_tables gvm) P)))"
      by blast
  qed
  have 3: "\<forall>k' gvm'. k \<le> k' \<and> k' \<le> length trace \<and> G_run_prefix rnd ps nf policy trace k' = Inr gvm' \<longrightarrow>
         g_global_page_fault_count gvm \<le> g_global_page_fault_count gvm' \<and>
         (\<forall>P. valid_pid P \<longrightarrow> pt_faults (g_page_tables gvm) P \<le> pt_faults (g_page_tables gvm') P)"
  proof (intro allI impI)
    fix k' vm'
    assume m: "k \<le> k' \<and> k' \<le> length trace \<and> G_run_prefix rnd ps nf policy trace k' = Inr vm'"
    then have mm: "k \<le> k'" "G_run_prefix rnd ps nf policy trace k' = Inr vm'" by simp_all
    show "g_global_page_fault_count gvm \<le> g_global_page_fault_count vm' \<and>
         (\<forall>P. valid_pid P \<longrightarrow> pt_faults (g_page_tables gvm) P \<le> pt_faults (g_page_tables vm') P)"
      by (rule G_prefix_mono[OF mm(1) r mm(2)])
  qed
  show "g_global_page_fault_count gvm = sum_faults (g_page_tables gvm) \<and>
      (\<forall>gvm'. k < length trace \<and> G_run_prefix rnd ps nf policy trace (Suc k) = Inr gvm' \<longrightarrow>
         (pt_lookup (g_page_tables gvm) (fst (trace ! k)) (snd (trace ! k)) \<noteq> None \<longrightarrow>
            g_global_page_fault_count gvm' = g_global_page_fault_count gvm \<and>
            (\<forall>P. valid_pid P \<longrightarrow> pt_faults (g_page_tables gvm') P = pt_faults (g_page_tables gvm) P)) \<and>
         (pt_lookup (g_page_tables gvm) (fst (trace ! k)) (snd (trace ! k)) = None \<longrightarrow>
            g_global_page_fault_count gvm' = g_global_page_fault_count gvm + 1 \<and>
            (\<forall>P. valid_pid P \<longrightarrow> pt_faults (g_page_tables gvm') P =
               (if P = fst (trace ! k) then pt_faults (g_page_tables gvm) P + 1
                else pt_faults (g_page_tables gvm) P)))) \<and>
      (\<forall>k' gvm'. k \<le> k' \<and> k' \<le> length trace \<and> G_run_prefix rnd ps nf policy trace k' = Inr gvm' \<longrightarrow>
         g_global_page_fault_count gvm \<le> g_global_page_fault_count gvm' \<and>
         (\<forall>P. valid_pid P \<longrightarrow> pt_faults (g_page_tables gvm) P \<le> pt_faults (g_page_tables gvm') P))"
    by (rule conjI[OF 1 conjI[OF 2 3]])
next
  assume a: "k \<le> length trace \<and> L_run_prefix rnd ps nf policy trace k = Inr lvm"
  then have r: "L_run_prefix rnd ps nf policy trace k = Inr lvm" by simp
  note c = L_prefix_counts[OF r]
  have 1: "l_global_page_fault_count lvm = sum_faults (l_page_tables lvm)" using c by simp
  have 2: "\<forall>lvm'. k < length trace \<and> L_run_prefix rnd ps nf policy trace (Suc k) = Inr lvm' \<longrightarrow>
         (pt_lookup (l_page_tables lvm) (fst (trace ! k)) (snd (trace ! k)) \<noteq> None \<longrightarrow>
            l_global_page_fault_count lvm' = l_global_page_fault_count lvm \<and>
            (\<forall>P. valid_pid P \<longrightarrow> pt_faults (l_page_tables lvm') P = pt_faults (l_page_tables lvm) P)) \<and>
         (pt_lookup (l_page_tables lvm) (fst (trace ! k)) (snd (trace ! k)) = None \<longrightarrow>
            l_global_page_fault_count lvm' = l_global_page_fault_count lvm + 1 \<and>
            (\<forall>P. valid_pid P \<longrightarrow> pt_faults (l_page_tables lvm') P =
               (if P = fst (trace ! k) then pt_faults (l_page_tables lvm) P + 1
                else pt_faults (l_page_tables lvm) P)))"
  proof (intro allI impI)
    fix vm' assume s: "k < length trace \<and> L_run_prefix rnd ps nf policy trace (Suc k) = Inr vm'"
    then have h: "L_handleAccess rnd (fst (trace ! k)) (snd (trace ! k)) trace k lvm = Inr vm'"
      by (simp add: L_run_prefix_Suc r)
    from L_handleAccess_counts[OF c[THEN conjunct1] h]
    show "(pt_lookup (l_page_tables lvm) (fst (trace ! k)) (snd (trace ! k)) \<noteq> None \<longrightarrow>
            l_global_page_fault_count vm' = l_global_page_fault_count lvm \<and>
            (\<forall>P. valid_pid P \<longrightarrow> pt_faults (l_page_tables vm') P = pt_faults (l_page_tables lvm) P)) \<and>
         (pt_lookup (l_page_tables lvm) (fst (trace ! k)) (snd (trace ! k)) = None \<longrightarrow>
            l_global_page_fault_count vm' = l_global_page_fault_count lvm + 1 \<and>
            (\<forall>P. valid_pid P \<longrightarrow> pt_faults (l_page_tables vm') P =
               (if P = fst (trace ! k) then pt_faults (l_page_tables lvm) P + 1
                else pt_faults (l_page_tables lvm) P)))"
      by blast
  qed
  have 3: "\<forall>k' lvm'. k \<le> k' \<and> k' \<le> length trace \<and> L_run_prefix rnd ps nf policy trace k' = Inr lvm' \<longrightarrow>
         l_global_page_fault_count lvm \<le> l_global_page_fault_count lvm' \<and>
         (\<forall>P. valid_pid P \<longrightarrow> pt_faults (l_page_tables lvm) P \<le> pt_faults (l_page_tables lvm') P)"
  proof (intro allI impI)
    fix k' vm'
    assume m: "k \<le> k' \<and> k' \<le> length trace \<and> L_run_prefix rnd ps nf policy trace k' = Inr vm'"
    then have mm: "k \<le> k'" "L_run_prefix rnd ps nf policy trace k' = Inr vm'" by simp_all
    show "l_global_page_fault_count lvm \<le> l_global_page_fault_count vm' \<and>
         (\<forall>P. valid_pid P \<longrightarrow> pt_faults (l_page_tables lvm) P \<le> pt_faults (l_page_tables vm') P)"
      by (rule L_prefix_mono[OF mm(1) r mm(2)])
  qed
  show "l_global_page_fault_count lvm = sum_faults (l_page_tables lvm) \<and>
      (\<forall>lvm'. k < length trace \<and> L_run_prefix rnd ps nf policy trace (Suc k) = Inr lvm' \<longrightarrow>
         (pt_lookup (l_page_tables lvm) (fst (trace ! k)) (snd (trace ! k)) \<noteq> None \<longrightarrow>
            l_global_page_fault_count lvm' = l_global_page_fault_count lvm \<and>
            (\<forall>P. valid_pid P \<longrightarrow> pt_faults (l_page_tables lvm') P = pt_faults (l_page_tables lvm) P)) \<and>
         (pt_lookup (l_page_tables lvm) (fst (trace ! k)) (snd (trace ! k)) = None \<longrightarrow>
            l_global_page_fault_count lvm' = l_global_page_fault_count lvm + 1 \<and>
            (\<forall>P. valid_pid P \<longrightarrow> pt_faults (l_page_tables lvm') P =
               (if P = fst (trace ! k) then pt_faults (l_page_tables lvm) P + 1
                else pt_faults (l_page_tables lvm) P)))) \<and>
      (\<forall>k' lvm'. k \<le> k' \<and> k' \<le> length trace \<and> L_run_prefix rnd ps nf policy trace k' = Inr lvm' \<longrightarrow>
         l_global_page_fault_count lvm \<le> l_global_page_fault_count lvm' \<and>
         (\<forall>P. valid_pid P \<longrightarrow> pt_faults (l_page_tables lvm) P \<le> pt_faults (l_page_tables lvm') P))"
    by (rule conjI[OF 1 conjI[OF 2 3]])
qed

theorem C2_fault_count_conservation_witness:
  "\<exists>gvm lvm.
     G_run_prefix (\<lambda>_. 0) 4096 4 ''fifo'' sample_trace 6 = Inr gvm \<and>
     L_run_prefix (\<lambda>_. 0) 4096 4 ''fifo'' sample_trace 6 = Inr lvm \<and>
     g_global_page_fault_count gvm = 6 \<and> sum_faults (g_page_tables gvm) = 6 \<and>
     l_global_page_fault_count lvm = 5 \<and> sum_faults (l_page_tables lvm) = 5"
proof -
  have g: "G_faults (G_run_prefix (\<lambda>_. 0) 4096 4 ''fifo'' sample_trace 6) = Inr 6" by code_simp
  have l: "L_faults (L_run_prefix (\<lambda>_. 0) 4096 4 ''fifo'' sample_trace 6) = Inr 5" by code_simp
  from g obtain gvm where gr: "G_run_prefix (\<lambda>_. 0) 4096 4 ''fifo'' sample_trace 6 = Inr gvm"
    and gc: "g_global_page_fault_count gvm = 6"
    by (auto simp: G_faults_def split: sum.splits)
  from l obtain lvm where lr: "L_run_prefix (\<lambda>_. 0) 4096 4 ''fifo'' sample_trace 6 = Inr lvm"
    and lc: "l_global_page_fault_count lvm = 5"
    by (auto simp: L_faults_def split: sum.splits)
  have len: "(6::nat) \<le> length sample_trace" by (simp add: sample_trace_def)
  note c = C2_fault_count_conservation[of 6 sample_trace "\<lambda>_. 0" 4096 4 "''fifo''" gvm lvm]
  have "g_global_page_fault_count gvm = sum_faults (g_page_tables gvm)" using c gr len by blast
  moreover have "l_global_page_fault_count lvm = sum_faults (l_page_tables lvm)" using c lr len by blast
  ultimately show ?thesis using gr lr gc lc by auto
qed

text \<open>
  C10 (in-bounds safety of the partitioned engine).  With at least four frames the
  partition size \<open>nf div 4\<close> is at least one and, for every trace, policy string and
  random draws, no prefix of a run ends in the out-of-bounds, empty-list or
  modulus-by-zero error of \<^verbatim>\<open>allocateFrame\<close> or of a replacement routine: the only
  error a run can stop with is a process id outside 0..3 in the trace, and a trace
  without one runs to a state.  In every state reached, each partition has exactly
  \<open>nf div 4\<close> frames, each rotation cursor and each frame index stored in a page table
  lies in \<open>[0, nf div 4)\<close>.  With three frames the partition is empty, and the first
  access already leaves the bounds under \<open>fifo\<close> and takes a modulus by zero under
  \<open>random\<close>.
\<close>

theorem C10_local_in_bounds:
  "(4 \<le> nf \<longrightarrow>
      (\<forall>e. L_run_prefix rnd ps nf policy trace k = Inl e \<longrightarrow>
           e = PidOutOfRange \<and> (\<exists>j<k. \<not> valid_pid (fst (trace ! j)))) \<and>
      ((\<forall>j<k. valid_pid (fst (trace ! j))) \<longrightarrow> (\<exists>vm. L_run_prefix rnd ps nf policy trace k = Inr vm)) \<and>
      (\<forall>vm. L_run_prefix rnd ps nf policy trace k = Inr vm \<longrightarrow>
           0 < nat (nf div 4) \<and> l_memoryFramesPerProcess (l_frame_status vm) = nat (nf div 4) \<and>
           (\<forall>P. valid_pid P \<longrightarrow>
              length (l_memory (l_frame_status vm) ! nat P) = nat (nf div 4) \<and>
              l_nextFrame (l_frame_status vm) ! nat P < nat (nf div 4)) \<and>
           (\<forall>P p f. valid_pid P \<and> pt_lookup (l_page_tables vm) P p = Some f \<longrightarrow> f < nat (nf div 4)))) \<and>
   L_run_prefix rnd ps 3 ''fifo'' [(0, 1)] 1 = Inl FrameOutOfRange \<and>
   L_run_prefix rnd ps 3 ''random'' [(0, 1)] 1 = Inl ModByZero"
proof (intro conjI impI allI)
  fix e assume "4 \<le> nf" "L_run_prefix rnd ps nf policy trace k = Inl e"
  then show "e = PidOutOfRange" "\<exists>j<k. \<not> valid_pid (fst (trace ! j))"
    using L_run_prefix_error by blast+
next
  assume "4 \<le> nf" "\<forall>j<k. valid_pid (fst (trace ! j))"
  then show "\<exists>vm. L_run_prefix rnd ps nf policy trace k = Inr vm"
    by (rule L_run_prefix_total)
next
  fix vm assume a: "4 \<le> nf" "L_run_prefix rnd ps nf policy trace k = Inr vm"
  from L_run_prefix_inv[OF a] have inv: "L_inv vm"
    and m: "l_memoryFramesPerProcess (l_frame_status vm) = nat (nf div 4)" by simp_all
  have wf: "L_fs_wf (l_frame_status vm)" using inv by (simp add: L_inv_def)
  show "0 < nat (nf div 4)" using a(1) by simp
  show "l_memoryFramesPerProcess (l_frame_status vm) = nat (nf div 4)" by (rule m)
  {
    fix P assume P: "valid_pid P"
    note w = L_wf_facts[OF wf P]
    show "length (l_memory (l_frame_status vm) ! nat P) = nat (nf div 4)" using w(4) m by simp
    show "l_nextFrame (l_frame_status vm) ! nat P < nat (nf div 4)" using w(5) m by simp
  }
  {
    fix P p f assume h: "valid_pid P \<and> pt_lookup (l_page_tables vm) P p = Some f"
    then have "f < length (l_memory (l_frame_status vm) ! nat P)"
      using inv by (auto simp: L_inv_def L_bijection_def)
    then show "f < nat (nf div 4)" using L_wf_facts(4)[OF wf] h m by simp
  }
next
  show "L_run_prefix rnd ps 3 ''fifo'' [(0, 1)] 1 = Inl FrameOutOfRange" by code_simp
  show "L_run_prefix rnd ps 3 ''random'' [(0, 1)] 1 = Inl ModByZero" by code_simp
qed

theorem C10_local_in_bounds_witness:
  "(4::int) \<le> 9 \<and>
   (\<exists>vm. L_run_prefix (\<lambda>_. 7) 4096 9 ''random'' sample_trace 6 = Inr vm \<and>
         l_memoryFramesPerProcess (l_frame_status vm) = 2 \<and>
         length (l_memory (l_frame_status vm) ! 1) = 2 \<and> l_nextFrame (l_frame_status vm) ! 1 < 2)"
proof -
  have v: "\<forall>j<6. valid_pid (fst (sample_trace ! j))"
    by (simp add: sample_trace_def valid_pid_def nth_Cons' )
  note c = C10_local_in_bounds[of 9 "\<lambda>_. 7" 4096 "''random''" sample_trace 6]
  from c v obtain vm where r: "L_run_prefix (\<lambda>_. 7) 4096 9 ''random'' sample_trace 6 = Inr vm" by auto
  have v1: "valid_pid 1" by (simp add: valid_pid_def)
  have "l_memoryFramesPerProcess (l_frame_status vm) = nat (9 div 4)"
       "length (l_memory (l_frame_status vm) ! nat 1) = nat (9 div 4)"
       "l_nextFrame (l_frame_status vm) ! nat 1 < nat (9 div 4)"
    using c r v1 by auto
  then show ?thesis using r by auto
qed

text \<open>
  C3 (allocate contract) fails in the shared-pool engine at the frame count 0.  The state
  the constructor builds is reachable, its pool has no frame and so is fully occupied,
  and \<^verbatim>\<open>allocateFrame\<close> does not return "no frame": it reads \<^verbatim>\<open>memory[0]\<close> of an empty
  vector.
\<close>

theorem C3_allocate_counterexample:
  "\<exists>gvm. G_run_prefix (\<lambda>_. 0) 4096 0 ''fifo'' sample_trace 0 = Inr gvm \<and>
         region_full (g_memory (g_frame_status gvm)) \<and>
         G_allocateFrame 0 1 (g_frame_status gvm) = Inl FrameOutOfRange"
  by (simp add: G_run_prefix_def G_VirtualMemoryManager_init_def G_FrameStatus_init_def
      region_full_def G_allocateFrame_def)

text \<open>
  C3 (allocate contract), amended.  In every state a run of the partitioned engine
  reaches, whatever the frame count, and in every state a run of the shared-pool engine
  reaches with a frame count other than 0 (a negative count makes the constructor fail,
  so that no state is reached), \<^verbatim>\<open>allocateFrame(process_id, page_number)\<close> returns the first
  free frame of the region the process can reach, scanning the indices in ascending
  order from the rotation cursor, and stores the new occupant in it; it returns
  "no frame" exactly when the reachable region is fully occupied, and then changes
  nothing.
\<close>

theorem C3_allocate_contract:
  "(nf \<noteq> 0 \<and> k \<le> length trace \<and> G_run_prefix rnd ps nf policy trace k = Inr gvm \<longrightarrow>
      (\<exists>r fs'. G_allocateFrame pid pg (g_frame_status gvm) = Inr (r, fs') \<and>
         r = spec_allocate (g_memory (g_frame_status gvm)) (g_nextFrame (g_frame_status gvm)) \<and>
         (r = None) = region_full (g_memory (g_frame_status gvm)) \<and>
         (r = None \<longrightarrow> fs' = g_frame_status gvm) \<and>
         (\<forall>f. r = Some f \<longrightarrow>
            f < length (g_memory (g_frame_status gvm)) \<and> is_free (g_memory (g_frame_status gvm) ! f) \<and>
            g_memory fs' = (g_memory (g_frame_status gvm))[f := (pid, pg)]))) \<and>
   (k \<le> length trace \<and> L_run_prefix rnd ps nf policy trace k = Inr lvm \<and> valid_pid pid \<longrightarrow>
      (\<exists>r fs'. L_allocateFrame pid pg (l_frame_status lvm) = Inr (r, fs') \<and>
         r = spec_allocate (l_memory (l_frame_status lvm) ! nat pid) (l_nextFrame (l_frame_status lvm) ! nat pid) \<and>
         (r = None) = region_full (l_memory (l_frame_status lvm) ! nat pid) \<and>
         (r = None \<longrightarrow> fs' = l_frame_status lvm) \<and>
         (\<forall>f. r = Some f \<longrightarrow>
            f < length (l_memory (l_frame_status lvm) ! nat pid) \<and>
            is_free (l_memory (l_frame_status lvm) ! nat pid ! f) \<and>
            l_memory fs' = (l_memory (l_frame_status lvm))[nat pid :=
                              (l_memory (l_frame_status lvm) ! nat pid)[f := (pid, pg)]])))"
proof (rule conjI; rule impI)
  assume a: "nf \<noteq> 0 \<and> k \<le> length trace \<and> G_run_prefix rnd ps nf policy trace k = Inr gvm"
  let ?fs = "g_frame_status gvm"
  let ?mem = "g_memory ?fs" and ?c = "g_nextFrame ?fs"
  have nf1: "1 \<le> nf" using G_run_prefix_frames[of rnd ps nf policy trace k gvm] a by simp
  have inv: "G_inv gvm" using G_run_prefix_inv[of nf rnd ps policy trace k gvm] a nf1 by simp
  then have wf: "G_fs_wf ?fs" and fill: "G_fill ?fs" by (simp_all add: G_inv_def)
  have cl: "?c < length ?mem" using wf by (simp add: G_fs_wf_def)
  show "\<exists>r fs'. G_allocateFrame pid pg ?fs = Inr (r, fs') \<and>
         r = spec_allocate ?mem ?c \<and> (r = None) = region_full ?mem \<and> (r = None \<longrightarrow> fs' = ?fs) \<and>
         (\<forall>f. r = Some f \<longrightarrow> f < length ?mem \<and> is_free (?mem ! f) \<and> g_memory fs' = ?mem[f := (pid, pg)])"
  proof (cases "region_full ?mem")
    case True
    then have occ: "\<not> is_free (?mem ! ?c)" using G_cursor_free_iff[OF wf fill] by simp
    have "G_allocateFrame pid pg ?fs = Inr (None, ?fs)" by (rule G_allocateFrame_occupied[OF wf occ])
    moreover have "spec_allocate ?mem ?c = None" using spec_allocate_full[OF True] cl by simp
    ultimately show ?thesis using True by simp
  next
    case False
    then have free: "is_free (?mem ! ?c)" using G_cursor_free_iff[OF wf fill] by simp
    from G_allocateFrame_free[OF wf free, of pid pg] obtain fs1 where
      f: "G_allocateFrame pid pg ?fs = Inr (Some ?c, fs1)" "g_memory fs1 = ?mem[?c := (pid, pg)]" by blast
    have "spec_allocate ?mem ?c = Some ?c" by (rule spec_allocate_cursor_free[OF cl free])
    then show ?thesis using f False free cl by simp
  qed
next
  assume a: "k \<le> length trace \<and> L_run_prefix rnd ps nf policy trace k = Inr lvm \<and> valid_pid pid"
  then have pid: "valid_pid pid" and run: "L_run_prefix rnd ps nf policy trace k = Inr lvm" by simp_all
  let ?fs = "l_frame_status lvm"
  let ?part = "l_memory ?fs ! nat pid" and ?c = "l_nextFrame ?fs ! nat pid"
  show "\<exists>r fs'. L_allocateFrame pid pg ?fs = Inr (r, fs') \<and>
         r = spec_allocate ?part ?c \<and> (r = None) = region_full ?part \<and> (r = None \<longrightarrow> fs' = ?fs) \<and>
         (\<forall>f. r = Some f \<longrightarrow> f < length ?part \<and> is_free (?part ! f) \<and>
            l_memory fs' = (l_memory ?fs)[nat pid := ?part[f := (pid, pg)]])"
  proof (cases "4 \<le> nf")
    case nf4: True
    have inv: "L_inv lvm" using L_run_prefix_inv[OF nf4 run] by simp
    then have wf: "L_fs_wf ?fs" and fill: "L_fill ?fs" by (simp_all add: L_inv_def)
    note w = L_wf_facts[OF wf pid]
    show ?thesis
    proof (cases "region_full ?part")
      case True
      have "L_allocateFrame pid pg ?fs = Inr (None, ?fs)" by (rule L_allocate_full[OF wf pid True])
      moreover have "spec_allocate ?part ?c = None" using spec_allocate_full[OF True] w(4,5) by simp
      ultimately show ?thesis using True by simp
    next
      case False
      then have c0: "?c = 0" and pre: "\<exists>j. \<forall>f < length ?part. is_free (?part ! f) = (j \<le> f)"
        using fill pid by (auto simp: L_fill_def)
      from L_first_free[OF False pre] obtain j where
        j: "j < length ?part" "find (\<lambda>i. is_free (?part ! i)) [0 ..< length ?part] = Some j"
           "\<forall>f < length ?part. is_free (?part ! f) = (j \<le> f)" by blast
      have al: "L_allocateFrame pid pg ?fs =
            Inr (Some j, ?fs\<lparr>l_memory := (l_memory ?fs)[nat pid := ?part[j := (pid, pg)]],
                      l_lru_list := (l_lru_list ?fs)[nat pid := l_lru_list ?fs ! nat pid @ [j]]\<rparr>)"
        using L_allocateFrame_ok[OF wf pid, of pg] j(2) w(4) by simp
      have sp: "spec_allocate ?part ?c = Some j" using j(2) c0 by (simp add: spec_allocate_zero)
      have "is_free (?part ! j)" using j(1,3) by simp
      then show ?thesis using al sp False j(1) by simp
    qed
  next
    case False
    have nfr: "L_no_frames lvm" using L_no_frames_run[OF False run] by simp
    have p: "?part = []" "?c = 0" using nfr by (simp_all add: L_no_frames_def nth_replicate4[OF pid])
    have "L_allocateFrame pid pg ?fs = Inr (None, ?fs)" by (rule L_no_frames_allocate[OF nfr])
    moreover have "spec_allocate ?part ?c = None" unfolding p by (simp add: spec_allocate_def)
    moreover have "region_full ?part" unfolding p by (simp add: region_full_def)
    ultimately show ?thesis by simp
  qed
qed

theorem C3_allocate_contract_witness:
  "\<exists>gvm lvm fs1 fs2.
     G_run_prefix (\<lambda>_. 0) 4096 8 ''fifo'' sample_trace 2 = Inr gvm \<and>
     L_run_prefix (\<lambda>_. 0) 4096 8 ''fifo'' sample_trace 2 = Inr lvm \<and>
     G_allocateFrame 1 9 (g_frame_status gvm) = Inr (Some 2, fs1) \<and>
     L_allocateFrame 1 9 (l_frame_status lvm) = Inr (Some 1, fs2)"
proof -
  let ?G = "G_run_prefix (\<lambda>_. 0) 4096 8 ''fifo'' sample_trace 2"
  let ?L = "L_run_prefix (\<lambda>_. 0) 4096 8 ''fifo'' sample_trace 2"
  have g: "G_frames ?G = [(0, 1), (1, 1), (-1, 0), (-1, 0), (-1, 0), (-1, 0), (-1, 0), (-1, 0)] \<and> G_cursor ?G = 2"
    by code_simp
  have l: "L_frames ?L = [[(0, 1), (-1, 0)], [(1, 1), (-1, 0)], [(-1, 0), (-1, 0)], [(-1, 0), (-1, 0)]] \<and>
           L_cursors ?L = [0, 0, 0, 0]"
    by code_simp
  from g obtain gvm where gr: "?G = Inr gvm"
    and gm: "g_memory (g_frame_status gvm) = [(0, 1), (1, 1), (-1, 0), (-1, 0), (-1, 0), (-1, 0), (-1, 0), (-1, 0)]"
    and gc: "g_nextFrame (g_frame_status gvm) = 2"
    by (auto simp: G_frames_def G_cursor_def split: sum.splits)
  from l obtain lvm where lr: "?L = Inr lvm"
    and lm: "l_memory (l_frame_status lvm) =
               [[(0, 1), (-1, 0)], [(1, 1), (-1, 0)], [(-1, 0), (-1, 0)], [(-1, 0), (-1, 0)]]"
    and lc: "l_nextFrame (l_frame_status lvm) = [0, 0, 0, 0]"
    by (auto simp: L_frames_def L_cursors_def split: sum.splits)
  have len: "(2::nat) \<le> length sample_trace" by (simp add: sample_trace_def)
  have v1: "valid_pid 1" by (simp add: valid_pid_def)
  note c = C3_allocate_contract[of 8 2 sample_trace "\<lambda>_. 0" 4096 "''fifo''" gvm 1 9 lvm]
  have s1: "spec_allocate [(0, 1), (1, 1), (-1, 0), (-1, 0), (-1, 0), (-1, 0), (-1, 0), (-1::int, 0::64 word)] 2 = Some 2"
    by code_simp
  have s2: "spec_allocate [(1, 1), (-1::int, 0::64 word)] 0 = Some 1"
    by code_simp
  from c gr len obtain fs1 where
    a: "G_allocateFrame 1 9 (g_frame_status gvm) = Inr (Some 2, fs1)"
    by (auto simp: gm gc s1)
  from c lr len v1 obtain fs2 where
    b: "L_allocateFrame 1 9 (l_frame_status lvm) = Inr (Some 1, fs2)"
    by (auto simp: lm lc s2)
  show ?thesis using gr lr a b by blast
qed

text \<open>
  C6 (unrecognised policy) fails in the shared-pool engine at the frame count 0.  Under
  the policy string \<open>clock\<close> the first access of the sample trace misses while the pool,
  having no frame, is fully occupied; the record is not dropped: \<^verbatim>\<open>allocateFrame\<close> reads
  \<^verbatim>\<open>memory[0]\<close> of an empty vector before the policy is looked at.
\<close>

theorem C6_unrecognised_policy_counterexample:
  "\<exists>gvm. G_run_prefix (\<lambda>_. 0) 4096 0 ''clock'' sample_trace 0 = Inr gvm \<and>
         \<not> known_policy ''clock'' \<and> valid_pid 0 \<and>
         pt_lookup (g_page_tables gvm) 0 1 = None \<and>
         region_full (g_memory (g_frame_status gvm)) \<and>
         G_handleAccess (\<lambda>_. 0) 0 1 sample_trace 0 gvm = Inl FrameOutOfRange"
proof -
  have "case G_run_prefix (\<lambda>_. 0) 4096 0 ''clock'' sample_trace 0 of
          Inl e \<Rightarrow> False
        | Inr gvm \<Rightarrow>
            pt_lookup (g_page_tables gvm) 0 1 = None \<and>
            region_full (g_memory (g_frame_status gvm)) \<and>
            G_faults (G_handleAccess (\<lambda>_. 0) 0 1 sample_trace 0 gvm) = Inl FrameOutOfRange"
    by code_simp
  moreover have "\<not> known_policy ''clock''" "valid_pid 0"
    by (simp_all add: known_policy_def valid_pid_def)
  ultimately show ?thesis by (auto simp: G_faults_def split: sum.splits)
qed

text \<open>
  C6 (unrecognised policy), amended.  For every policy string other than \<open>fifo\<close>,
  \<open>lru\<close>, \<open>optimal\<close> and \<open>random\<close>, in every state a run of the partitioned engine
  reaches, whatever the frame count, and in every state a run of the shared-pool engine
  reaches with a frame count other than 0 (a negative count makes the constructor fail,
  so that no state is reached): an access that
  misses while the region its process can reach is fully occupied runs no eviction.  The
  access returns normally, the frame allocator (frames, cursor, recency list) is exactly
  as before, every page-table mapping is as before, so the faulting page is mapped
  nowhere; only the two fault counters go up by one (the access is counted as a fault,
  not as a hit).
\<close>

theorem C6_unrecognised_policy_drops:
  "(nf \<noteq> 0 \<and> k \<le> length trace \<and> G_run_prefix rnd ps nf policy trace k = Inr gvm \<and>
    \<not> known_policy policy \<and> valid_pid pid \<and>
    pt_lookup (g_page_tables gvm) pid pg = None \<and> region_full (g_memory (g_frame_status gvm)) \<longrightarrow>
      (\<exists>gvm'. G_handleAccess rnd pid pg trace i gvm = Inr gvm' \<and>
         g_frame_status gvm' = g_frame_status gvm \<and>
         (\<forall>P p. valid_pid P \<longrightarrow> pt_lookup (g_page_tables gvm') P p = pt_lookup (g_page_tables gvm) P p) \<and>
         pt_lookup (g_page_tables gvm') pid pg = None \<and>
         g_global_page_fault_count gvm' = g_global_page_fault_count gvm + 1 \<and>
         pt_faults (g_page_tables gvm') pid = pt_faults (g_page_tables gvm) pid + 1)) \<and>
   (k \<le> length trace \<and> L_run_prefix rnd ps nf policy trace k = Inr lvm \<and>
    \<not> known_policy policy \<and> valid_pid pid \<and>
    pt_lookup (l_page_tables lvm) pid pg = None \<and> region_full (l_memory (l_frame_status lvm) ! nat pid) \<longrightarrow>
      (\<exists>lvm'. L_handleAccess rnd pid pg trace i lvm = Inr lvm' \<and>
         l_frame_status lvm' = l_frame_status lvm \<and>
         (\<forall>P p. valid_pid P \<longrightarrow> pt_lookup (l_page_tables lvm') P p = pt_lookup (l_page_tables lvm) P p) \<and>
         pt_lookup (l_page_tables lvm') pid pg = None \<and>
         l_global_page_fault_count lvm' = l_global_page_fault_count lvm + 1 \<and>
         pt_faults (l_page_tables lvm') pid = pt_faults (l_page_tables lvm) pid + 1))"
proof (rule conjI; rule impI)
  assume a: "nf \<noteq> 0 \<and> k \<le> length trace \<and> G_run_prefix rnd ps nf policy trace k = Inr gvm \<and>
    \<not> known_policy policy \<and> valid_pid pid \<and>
    pt_lookup (g_page_tables gvm) pid pg = None \<and> region_full (g_memory (g_frame_status gvm))"
  then have pid: "valid_pid pid" and miss: "pt_lookup (g_page_tables gvm) pid pg = None"
    and full: "region_full (g_memory (g_frame_status gvm))" by simp_all
  have nf1: "1 \<le> nf" using G_run_prefix_frames[of rnd ps nf policy trace k gvm] a by simp
  have inv: "G_inv gvm" and pol: "g_replacement_policy gvm = policy"
    using G_run_prefix_inv[of nf rnd ps policy trace k gvm] a nf1 by simp_all
  have kp: "\<not> known_policy (g_replacement_policy gvm)" using a pol by simp
  have len4: "length (g_page_tables gvm) = 4" using inv by (simp add: G_inv_def)
  let ?vm' = "gvm\<lparr>g_global_page_fault_count := g_global_page_fault_count gvm + 1,
                   g_page_tables := count_fault (g_page_tables gvm) pid\<rparr>"
  have "G_handleAccess rnd pid pg trace i gvm = Inr ?vm'"
    using G_step_drop[OF inv pid miss full kp, of rnd trace i] by simp
  moreover have "\<forall>P p. valid_pid P \<longrightarrow> pt_lookup (g_page_tables ?vm') P p = pt_lookup (g_page_tables gvm) P p"
    using bump_lookup[OF pid len4] by simp
  moreover have "pt_lookup (g_page_tables ?vm') pid pg = None"
    using bump_lookup[OF pid len4 pid] miss by simp
  moreover have "pt_faults (g_page_tables ?vm') pid = pt_faults (g_page_tables gvm) pid + 1"
    using bump_faults[OF pid len4 pid] by simp
  ultimately show "\<exists>gvm'. G_handleAccess rnd pid pg trace i gvm = Inr gvm' \<and>
         g_frame_status gvm' = g_frame_status gvm \<and>
         (\<forall>P p. valid_pid P \<longrightarrow> pt_lookup (g_page_tables gvm') P p = pt_lookup (g_page_tables gvm) P p) \<and>
         pt_lookup (g_page_tables gvm') pid pg = None \<and>
         g_global_page_fault_count gvm' = g_global_page_fault_count gvm + 1 \<and>
         pt_faults (g_page_tables gvm') pid = pt_faults (g_page_tables gvm) pid + 1"
    by (intro exI[of _ ?vm']) simp
next
  assume a: "k \<le> length trace \<and> L_run_prefix rnd ps nf policy trace k = Inr lvm \<and>
    \<not> known_policy policy \<and> valid_pid pid \<and>
    pt_lookup (l_page_tables lvm) pid pg = None \<and> region_full (l_memory (l_frame_status lvm) ! nat pid)"
  then have pid: "valid_pid pid" and miss: "pt_lookup (l_page_tables lvm) pid pg = None"
    and full: "region_full (l_memory (l_frame_status lvm) ! nat pid)" by simp_all
  have run: "L_run_prefix rnd ps nf policy trace k = Inr lvm" using a by simp
  have "l_replacement_policy lvm = policy \<and> length (l_page_tables lvm) = 4"
  proof (cases "4 \<le> nf")
    case True
    then show ?thesis using L_run_prefix_inv[OF True run] by (simp add: L_inv_def)
  next
    case False
    then show ?thesis using L_no_frames_run[OF False run] by (simp add: L_no_frames_def)
  qed
  then have pol: "l_replacement_policy lvm = policy" and len4: "length (l_page_tables lvm) = 4"
    by simp_all
  have kp: "\<not> known_policy (l_replacement_policy lvm)" using a pol by simp
  let ?vm' = "lvm\<lparr>l_global_page_fault_count := l_global_page_fault_count lvm + 1,
                   l_page_tables := count_fault (l_page_tables lvm) pid\<rparr>"
  have "L_handleAccess rnd pid pg trace i lvm = Inr ?vm'"
  proof (cases "4 \<le> nf")
    case True
    have inv: "L_inv lvm" using L_run_prefix_inv[OF True run] by simp
    show ?thesis using L_step_drop[OF inv pid miss full kp, of rnd trace i] by simp
  next
    case False
    have nfr: "L_no_frames lvm" using L_no_frames_run[OF False run] by simp
    show ?thesis by (rule L_no_frames_drop[OF nfr pid kp])
  qed
  moreover have "\<forall>P p. valid_pid P \<longrightarrow> pt_lookup (l_page_tables ?vm') P p = pt_lookup (l_page_tables lvm) P p"
    using bump_lookup[OF pid len4] by simp
  moreover have "pt_lookup (l_page_tables ?vm') pid pg = None"
    using bump_lookup[OF pid len4 pid] miss by simp
  moreover have "pt_faults (l_page_tables ?vm') pid = pt_faults (l_page_tables lvm) pid + 1"
    using bump_faults[OF pid len4 pid] by simp
  ultimately show "\<exists>lvm'. L_handleAccess rnd pid pg trace i lvm = Inr lvm' \<and>
         l_frame_status lvm' = l_frame_status lvm \<and>
         (\<forall>P p. valid_pid P \<longrightarrow> pt_lookup (l_page_tables lvm') P p = pt_lookup (l_page_tables lvm) P p) \<and>
         pt_lookup (l_page_tables lvm') pid pg = None \<and>
         l_global_page_fault_count lvm' = l_global_page_fault_count lvm + 1 \<and>
         pt_faults (l_page_tables lvm') pid = pt_faults (l_page_tables lvm) pid + 1"
    by (intro exI[of _ ?vm']) simp
qed

theorem C6_unrecognised_policy_drops_witness:
  "\<exists>gvm gvm' lvm lvm'.
     G_run_prefix (\<lambda>_. 0) 4096 4 ''clock'' sample_trace 4 = Inr gvm \<and>
     L_run_prefix (\<lambda>_. 0) 4096 4 ''clock'' sample_trace 4 = Inr lvm \<and>
     G_handleAccess (\<lambda>_. 0) 1 4 sample_trace 4 gvm = Inr gvm' \<and>
     L_handleAccess (\<lambda>_. 0) 1 4 sample_trace 4 lvm = Inr lvm' \<and>
     g_frame_status gvm' = g_frame_status gvm \<and> l_frame_status lvm' = l_frame_status lvm \<and>
     pt_lookup (g_page_tables gvm') 1 4 = None \<and> pt_lookup (l_page_tables lvm') 1 4 = None \<and>
     g_global_page_fault_count gvm' = 5 \<and> l_global_page_fault_count lvm' = 5"
proof -
  let ?G = "G_run_prefix (\<lambda>_. 0) 4096 4 ''clock'' sample_trace 4"
  let ?L = "L_run_prefix (\<lambda>_. 0) 4096 4 ''clock'' sample_trace 4"
  have g: "G_frames ?G = [(0, 1), (1, 1), (1, 2), (1, 3)] \<and> G_faults ?G = Inr 4" by code_simp
  have l: "L_frames ?L = [[(0, 1)], [(1, 1)], [(-1, 0)], [(-1, 0)]] \<and> L_faults ?L = Inr 4" by code_simp
  from g obtain gvm where gr: "?G = Inr gvm"
    and gm: "g_memory (g_frame_status gvm) = [(0, 1), (1, 1), (1, 2), (1, 3)]"
    and gc: "g_global_page_fault_count gvm = 4"
    by (auto simp: G_frames_def G_faults_def split: sum.splits)
  from l obtain lvm where lr: "?L = Inr lvm"
    and lm: "l_memory (l_frame_status lvm) = [[(0, 1)], [(1, 1)], [(-1, 0)], [(-1, 0)]]"
    and lc: "l_global_page_fault_count lvm = 4"
    by (auto simp: L_frames_def L_faults_def split: sum.splits)
  have len: "(4::nat) \<le> length sample_trace" by (simp add: sample_trace_def)
  have v1: "valid_pid 1" by (simp add: valid_pid_def)
  have nk: "\<not> known_policy ''clock''" by (simp add: known_policy_def)
  have gfull: "region_full (g_memory (g_frame_status gvm))" by (simp add: gm region_full_def is_free_def)
  have lfull: "region_full (l_memory (l_frame_status lvm) ! nat 1)" by (simp add: lm region_full_def is_free_def)
  have gb: "G_bijection gvm" using G_run_prefix_inv[of 4 "\<lambda>_. 0" 4096 "''clock''" sample_trace 4 gvm] gr
    by (simp add: G_inv_def)
  have "pt_lookup (g_page_tables gvm) 1 4 \<noteq> Some f" for f
  proof
    assume "pt_lookup (g_page_tables gvm) 1 4 = Some f"
    then have f: "f < 4" "[(0, 1), (1, 1), (1, 2), (1::int, 3::64 word)] ! f = (1, 4)"
      using gb v1 gm by (auto simp: G_bijection_def)
    from f(1) consider "f = 0" | "f = 1" | "f = 2" | "f = 3" by linarith
    then show False using f(2) by cases simp_all
  qed
  then have gmiss: "pt_lookup (g_page_tables gvm) 1 4 = None"
    by (cases "pt_lookup (g_page_tables gvm) 1 4") auto
  have lb: "L_bijection lvm" using L_run_prefix_inv[of 4 "\<lambda>_. 0" 4096 "''clock''" sample_trace 4 lvm] lr
    by (simp add: L_inv_def)
  have "pt_lookup (l_page_tables lvm) 1 4 \<noteq> Some f" for f
    using lb v1 unfolding L_bijection_def by (cases f) (simp_all add: lm)
  then have lmiss: "pt_lookup (l_page_tables lvm) 1 4 = None"
    by (cases "pt_lookup (l_page_tables lvm) 1 4") auto
  note c = C6_unrecognised_policy_drops[of 4 4 sample_trace "\<lambda>_. 0" 4096 "''clock''" gvm 1 4 4 lvm]
  from c gr len nk v1 gmiss gfull obtain gvm' where
    g': "G_handleAccess (\<lambda>_. 0) 1 4 sample_trace 4 gvm = Inr gvm'" "g_frame_status gvm' = g_frame_status gvm"
        "pt_lookup (g_page_tables gvm') 1 4 = None" "g_global_page_fault_count gvm' = g_global_page_fault_count gvm + 1"
    by auto
  from c lr len nk v1 lmiss lfull obtain lvm' where
    l': "L_handleAccess (\<lambda>_. 0) 1 4 sample_trace 4 lvm = Inr lvm'" "l_frame_status lvm' = l_frame_status lvm"
        "pt_lookup (l_page_tables lvm') 1 4 = None" "l_global_page_fault_count lvm' = l_global_page_fault_count lvm + 1"
    by auto
  show ?thesis using gr lr g' l' gc lc by auto
qed

text \<open>
  C5 (optimal eviction) fails when the region has no frame: in the shared-pool engine at
  the frame count 0, and in the partitioned engine at a frame count below 4 (here 3),
  where every partition has \<^verbatim>\<open>3 / 4 = 0\<close> frames.  Under \<open>optimal\<close> the first access of the
  trace misses while the region is fully occupied, no frame is there to be the victim,
  and the access does not return: the shared-pool engine reads \<^verbatim>\<open>memory[0]\<close> of an empty
  vector in \<^verbatim>\<open>allocateFrame\<close>, the partitioned engine calls \<^verbatim>\<open>releaseFrame\<close> with the
  frame \<^verbatim>\<open>-1\<close>.
\<close>

theorem C5_optimal_counterexample:
  "\<exists>gvm lvm.
     G_run_prefix (\<lambda>_. 0) 4096 0 ''optimal'' optimal_trace 0 = Inr gvm \<and> valid_pid 0 \<and>
     pt_lookup (g_page_tables gvm) 0 1 = None \<and> region_full (g_memory (g_frame_status gvm)) \<and>
     spec_optimal_victim (g_memory (g_frame_status gvm)) optimal_trace 0 = None \<and>
     G_handleAccess (\<lambda>_. 0) 0 1 optimal_trace 0 gvm = Inl FrameOutOfRange \<and>
     L_run_prefix (\<lambda>_. 0) 4096 3 ''optimal'' optimal_trace 0 = Inr lvm \<and>
     pt_lookup (l_page_tables lvm) 0 1 = None \<and> region_full (l_memory (l_frame_status lvm) ! nat 0) \<and>
     spec_optimal_victim (l_memory (l_frame_status lvm) ! nat 0) optimal_trace 0 = None \<and>
     L_handleAccess (\<lambda>_. 0) 0 1 optimal_trace 0 lvm = Inl FrameOutOfRange"
proof -
  have "case G_run_prefix (\<lambda>_. 0) 4096 0 ''optimal'' optimal_trace 0 of
          Inl e \<Rightarrow> False
        | Inr gvm \<Rightarrow>
            pt_lookup (g_page_tables gvm) 0 1 = None \<and> region_full (g_memory (g_frame_status gvm)) \<and>
            spec_optimal_victim (g_memory (g_frame_status gvm)) optimal_trace 0 = None \<and>
            G_faults (G_handleAccess (\<lambda>_. 0) 0 1 optimal_trace 0 gvm) = Inl FrameOutOfRange"
    by code_simp
  moreover have "case L_run_prefix (\<lambda>_. 0) 4096 3 ''optimal'' optimal_trace 0 of
          Inl e \<Rightarrow> False
        | Inr lvm \<Rightarrow>
            pt_lookup (l_page_tables lvm) 0 1 = None \<and> region_full (l_memory (l_frame_status lvm) ! nat 0) \<and>
            spec_optimal_victim (l_memory (l_frame_status lvm) ! nat 0) optimal_trace 0 = None \<and>
            L_faults (L_handleAccess (\<lambda>_. 0) 0 1 optimal_trace 0 lvm) = Inl FrameOutOfRange"
    by code_simp
  moreover have "valid_pid 0" by (simp add: valid_pid_def)
  ultimately show ?thesis by (auto simp: G_faults_def L_faults_def split: sum.splits)
qed

text \<open>
  C5 (optimal eviction with short-circuit), amended.  In every state a run reaches under
  the policy \<open>optimal\<close>, in the shared-pool engine with a frame count other than 0 and in
  the partitioned engine with a frame count whose quotient by 4 is not 0 (at least four
  frames; a negative count makes the constructor fail or leaves the partitions without
  a frame), when the access at position \<open>k\<close> of the trace misses
  and the region its process can reach is full, \<^verbatim>\<open>handleAccess\<close> evicts the frame \<open>v\<close>
  singled out as follows from the whole trace.  The next access of a frame is the first
  position after \<open>k\<close> at which the trace holds exactly the (process, page) pair of the
  frame.  If some frame of the region has no next access, \<open>v\<close> is the first such frame in
  ascending index order (later frames are not looked at, whatever their future).  If every
  frame has a next access, \<open>v\<close> is a frame whose next access is the farthest.  The new pair
  replaces the occupant of \<open>v\<close>, the page table of the accessing process maps the new page
  to \<open>v\<close>, and the displaced page is unmapped.
\<close>

theorem C5_optimal_eviction:
  "(nf \<noteq> 0 \<and> k < length trace \<and> G_run_prefix rnd ps nf ''optimal'' trace k = Inr gvm \<and>
    valid_pid pid \<and> pt_lookup (g_page_tables gvm) pid pg = None \<and>
    region_full (g_memory (g_frame_status gvm)) \<longrightarrow>
      (\<exists>v gvm'. G_handleAccess rnd pid pg trace k gvm = Inr gvm' \<and>
         v < length (g_memory (g_frame_status gvm)) \<and>
         spec_optimal_victim (g_memory (g_frame_status gvm)) trace k = Some v \<and>
         ((\<exists>i<length (g_memory (g_frame_status gvm)).
              next_access trace k (g_memory (g_frame_status gvm) ! i) = None) \<longrightarrow>
            next_access trace k (g_memory (g_frame_status gvm) ! v) = None \<and>
            (\<forall>i<v. next_access trace k (g_memory (g_frame_status gvm) ! i) \<noteq> None)) \<and>
         ((\<forall>i<length (g_memory (g_frame_status gvm)).
              next_access trace k (g_memory (g_frame_status gvm) ! i) \<noteq> None) \<longrightarrow>
            (\<forall>i<length (g_memory (g_frame_status gvm)).
               the (next_access trace k (g_memory (g_frame_status gvm) ! i)) \<le>
               the (next_access trace k (g_memory (g_frame_status gvm) ! v)))) \<and>
         g_memory (g_frame_status gvm') = (g_memory (g_frame_status gvm))[v := (pid, pg)] \<and>
         pt_lookup (g_page_tables gvm') pid pg = Some v \<and>
         pt_lookup (g_page_tables gvm') (fst (g_memory (g_frame_status gvm) ! v))
                                        (snd (g_memory (g_frame_status gvm) ! v)) = None)) \<and>
   (c_div nf 4 \<noteq> 0 \<and> k < length trace \<and> L_run_prefix rnd ps nf ''optimal'' trace k = Inr lvm \<and>
    valid_pid pid \<and> pt_lookup (l_page_tables lvm) pid pg = None \<and>
    region_full (l_memory (l_frame_status lvm) ! nat pid) \<longrightarrow>
      (\<exists>v lvm'. L_handleAccess rnd pid pg trace k lvm = Inr lvm' \<and>
         v < length (l_memory (l_frame_status lvm) ! nat pid) \<and>
         spec_optimal_victim (l_memory (l_frame_status lvm) ! nat pid) trace k = Some v \<and>
         ((\<exists>i<length (l_memory (l_frame_status lvm) ! nat pid).
              next_access trace k (l_memory (l_frame_status lvm) ! nat pid ! i) = None) \<longrightarrow>
            next_access trace k (l_memory (l_frame_status lvm) ! nat pid ! v) = None \<and>
            (\<forall>i<v. next_access trace k (l_memory (l_frame_status lvm) ! nat pid ! i) \<noteq> None)) \<and>
         ((\<forall>i<length (l_memory (l_frame_status lvm) ! nat pid).
              next_access trace k (l_memory (l_frame_status lvm) ! nat pid ! i) \<noteq> None) \<longrightarrow>
            (\<forall>i<length (l_memory (l_frame_status lvm) ! nat pid).
               the (next_access trace k (l_memory (l_frame_status lvm) ! nat pid ! i)) \<le>
               the (next_access trace k (l_memory (l_frame_status lvm) ! nat pid ! v)))) \<and>
         l_memory (l_frame_status lvm') =
           (l_memory (l_frame_status lvm))[nat pid := (l_memory (l_frame_status lvm) ! nat pid)[v := (pid, pg)]] \<and>
         pt_lookup (l_page_tables lvm') pid pg = Some v \<and>
         pt_lookup (l_page_tables lvm') pid (snd (l_memory (l_frame_status lvm) ! nat pid ! v)) = None)) \<and>
   (\<forall>e j. (next_access trace k e = Some j) =
           (k < j \<and> j < length trace \<and> trace ! j = e \<and> (\<forall>j'. k < j' \<and> j' < j \<longrightarrow> trace ! j' \<noteq> e))) \<and>
   (\<forall>e. (next_access trace k e = None) = (\<forall>j. k < j \<and> j < length trace \<longrightarrow> trace ! j \<noteq> e))"
proof (intro conjI)
  show "\<forall>e j. (next_access trace k e = Some j) =
           (k < j \<and> j < length trace \<and> trace ! j = e \<and> (\<forall>j'. k < j' \<and> j' < j \<longrightarrow> trace ! j' \<noteq> e))"
    using next_access_Some_iff by blast
  show "\<forall>e. (next_access trace k e = None) = (\<forall>j. k < j \<and> j < length trace \<longrightarrow> trace ! j \<noteq> e)"
    using next_access_None_iff by blast
next
  show "nf \<noteq> 0 \<and> k < length trace \<and> G_run_prefix rnd ps nf ''optimal'' trace k = Inr gvm \<and>
    valid_pid pid \<and> pt_lookup (g_page_tables gvm) pid pg = None \<and>
    region_full (g_memory (g_frame_status gvm)) \<longrightarrow>
      (\<exists>v gvm'. G_handleAccess rnd pid pg trace k gvm = Inr gvm' \<and>
         v < length (g_memory (g_frame_status gvm)) \<and>
         spec_optimal_victim (g_memory (g_frame_status gvm)) trace k = Some v \<and>
         ((\<exists>i<length (g_memory (g_frame_status gvm)).
              next_access trace k (g_memory (g_frame_status gvm) ! i) = None) \<longrightarrow>
            next_access trace k (g_memory (g_frame_status gvm) ! v) = None \<and>
            (\<forall>i<v. next_access trace k (g_memory (g_frame_status gvm) ! i) \<noteq> None)) \<and>
         ((\<forall>i<length (g_memory (g_frame_status gvm)).
              next_access trace k (g_memory (g_frame_status gvm) ! i) \<noteq> None) \<longrightarrow>
            (\<forall>i<length (g_memory (g_frame_status gvm)).
               the (next_access trace k (g_memory (g_frame_status gvm) ! i)) \<le>
               the (next_access trace k (g_memory (g_frame_status gvm) ! v)))) \<and>
         g_memory (g_frame_status gvm') = (g_memory (g_frame_status gvm))[v := (pid, pg)] \<and>
         pt_lookup (g_page_tables gvm') pid pg = Some v \<and>
         pt_lookup (g_page_tables gvm') (fst (g_memory (g_frame_status gvm) ! v))
                                        (snd (g_memory (g_frame_status gvm) ! v)) = None)"
  proof
    assume a: "nf \<noteq> 0 \<and> k < length trace \<and> G_run_prefix rnd ps nf ''optimal'' trace k = Inr gvm \<and>
      valid_pid pid \<and> pt_lookup (g_page_tables gvm) pid pg = None \<and>
      region_full (g_memory (g_frame_status gvm))"
    let ?mem = "g_memory (g_frame_status gvm)"
    have pid: "valid_pid pid" and miss: "pt_lookup (g_page_tables gvm) pid pg = None"
      and full: "region_full ?mem" using a by simp_all
    have nf1: "1 \<le> nf" using G_run_prefix_frames[of rnd ps nf "''optimal''" trace k gvm] a by simp
    have inv: "G_inv gvm" and pol: "g_replacement_policy gvm = ''optimal''"
      using G_run_prefix_inv[of nf rnd ps "''optimal''" trace k gvm] a nf1 by simp_all
    have kp: "known_policy (g_replacement_policy gvm)" using pol by (simp add: known_policy_def)
    from G_step_evict[OF inv pid miss full kp, of rnd trace k] pol obtain gvm' v where
      s: "G_handleAccess rnd pid pg trace k gvm = Inr gvm'" "G_inv gvm'"
         "g_memory (g_frame_status gvm') = ?mem[v := (pid, pg)]"
         "\<forall>P p. valid_pid P \<longrightarrow> pt_lookup (g_page_tables gvm') P p =
            (if P = pid \<and> p = pg then Some v
             else if P = fst (?mem ! v) \<and> p = snd (?mem ! v) then None else pt_lookup (g_page_tables gvm) P p)"
         "spec_optimal_victim ?mem trace k = Some v"
      by auto
    note ch = spec_optimal_victim_char[OF s(5)]
    have vl: "v < length ?mem" using ch by simp
    have occ: "\<not> is_free (?mem ! v)" using full vl by (simp add: region_full_iff)
    have eok: "entries_ok ?mem" using inv by (simp add: G_inv_def)
    have ov: "valid_pid (fst (?mem ! v))" using eok occ vl by (auto simp: entries_ok_def)
    have bij: "G_bijection gvm" using inv by (simp add: G_inv_def)
    have ne: "?mem ! v \<noteq> (pid, pg)"
      using bij pid miss vl unfolding G_bijection_def by (metis option.distinct(1))
    have l1: "pt_lookup (g_page_tables gvm') pid pg = Some v" using s(4) pid by simp
    have l2: "pt_lookup (g_page_tables gvm') (fst (?mem ! v)) (snd (?mem ! v)) = None"
      using s(4)[rule_format, OF ov, of "snd (?mem ! v)"] ne by (auto simp: prod_eq_iff)
    show "\<exists>v gvm'. G_handleAccess rnd pid pg trace k gvm = Inr gvm' \<and>
         v < length ?mem \<and> spec_optimal_victim ?mem trace k = Some v \<and>
         ((\<exists>i<length ?mem. next_access trace k (?mem ! i) = None) \<longrightarrow>
            next_access trace k (?mem ! v) = None \<and> (\<forall>i<v. next_access trace k (?mem ! i) \<noteq> None)) \<and>
         ((\<forall>i<length ?mem. next_access trace k (?mem ! i) \<noteq> None) \<longrightarrow>
            (\<forall>i<length ?mem. the (next_access trace k (?mem ! i)) \<le> the (next_access trace k (?mem ! v)))) \<and>
         g_memory (g_frame_status gvm') = ?mem[v := (pid, pg)] \<and>
         pt_lookup (g_page_tables gvm') pid pg = Some v \<and>
         pt_lookup (g_page_tables gvm') (fst (?mem ! v)) (snd (?mem ! v)) = None"
      using s(1,3,5) ch l1 l2 by (intro exI[of _ v] exI[of _ gvm']) simp
  qed
next
  show "c_div nf 4 \<noteq> 0 \<and> k < length trace \<and> L_run_prefix rnd ps nf ''optimal'' trace k = Inr lvm \<and>
    valid_pid pid \<and> pt_lookup (l_page_tables lvm) pid pg = None \<and>
    region_full (l_memory (l_frame_status lvm) ! nat pid) \<longrightarrow>
      (\<exists>v lvm'. L_handleAccess rnd pid pg trace k lvm = Inr lvm' \<and>
         v < length (l_memory (l_frame_status lvm) ! nat pid) \<and>
         spec_optimal_victim (l_memory (l_frame_status lvm) ! nat pid) trace k = Some v \<and>
         ((\<exists>i<length (l_memory (l_frame_status lvm) ! nat pid).
              next_access trace k (l_memory (l_frame_status lvm) ! nat pid ! i) = None) \<longrightarrow>
            next_access trace k (l_memory (l_frame_status lvm) ! nat pid ! v) = None \<and>
            (\<forall>i<v. next_access trace k (l_memory (l_frame_status lvm) ! nat pid ! i) \<noteq> None)) \<and>
         ((\<forall>i<length (l_memory (l_frame_status lvm) ! nat pid).
              next_access trace k (l_memory (l_frame_status lvm) ! nat pid ! i) \<noteq> None) \<longrightarrow>
            (\<forall>i<length (l_memory (l_frame_status lvm) ! nat pid).
               the (next_access trace k (l_memory (l_frame_status lvm) ! nat pid ! i)) \<le>
               the (next_access trace k (l_memory (l_frame_status lvm) ! nat pid ! v)))) \<and>
         l_memory (l_frame_status lvm') =
           (l_memory (l_frame_status lvm))[nat pid := (l_memory (l_frame_status lvm) ! nat pid)[v := (pid, pg)]] \<and>
         pt_lookup (l_page_tables lvm') pid pg = Some v \<and>
         pt_lookup (l_page_tables lvm') pid (snd (l_memory (l_frame_status lvm) ! nat pid ! v)) = None)"
  proof
    assume a: "c_div nf 4 \<noteq> 0 \<and> k < length trace \<and> L_run_prefix rnd ps nf ''optimal'' trace k = Inr lvm \<and>
      valid_pid pid \<and> pt_lookup (l_page_tables lvm) pid pg = None \<and>
      region_full (l_memory (l_frame_status lvm) ! nat pid)"
    let ?part = "l_memory (l_frame_status lvm) ! nat pid"
    have pid: "valid_pid pid" and miss: "pt_lookup (l_page_tables lvm) pid pg = None"
      and full: "region_full ?part" using a by simp_all
    have nf4: "4 \<le> nf"
      using c_div_4_pos[OF L_run_prefix_frames[of rnd ps nf "''optimal''" trace k lvm]] a by simp
    have inv: "L_inv lvm" and pol: "l_replacement_policy lvm = ''optimal''"
      using L_run_prefix_inv[of nf rnd ps "''optimal''" trace k lvm] a nf4 by simp_all
    have kp: "known_policy (l_replacement_policy lvm)" using pol by (simp add: known_policy_def)
    from L_step_evict[OF inv pid miss full kp, of rnd trace k] pol obtain lvm' v where
      s: "L_handleAccess rnd pid pg trace k lvm = Inr lvm'" "L_inv lvm'"
         "fst (?part ! v) = pid"
         "l_memory (l_frame_status lvm') = (l_memory (l_frame_status lvm))[nat pid := ?part[v := (pid, pg)]]"
         "\<forall>P p. valid_pid P \<longrightarrow> pt_lookup (l_page_tables lvm') P p =
            (if P = pid \<and> p = pg then Some v
             else if P = pid \<and> p = snd (?part ! v) then None else pt_lookup (l_page_tables lvm) P p)"
         "spec_optimal_victim ?part trace k = Some v"
      by auto
    note ch = spec_optimal_victim_char[OF s(6)]
    have vl: "v < length ?part" using ch by simp
    have bij: "L_bijection lvm" using inv by (simp add: L_inv_def)
    have ne: "?part ! v \<noteq> (pid, pg)"
      using bij pid miss vl unfolding L_bijection_def by (metis option.distinct(1))
    then have ne2: "snd (?part ! v) \<noteq> pg" using s(3) by (auto simp: prod_eq_iff)
    have l1: "pt_lookup (l_page_tables lvm') pid pg = Some v" using s(5) pid by simp
    have l2: "pt_lookup (l_page_tables lvm') pid (snd (?part ! v)) = None"
      using s(5)[rule_format, OF pid, of "snd (?part ! v)"] ne2 by simp
    show "\<exists>v lvm'. L_handleAccess rnd pid pg trace k lvm = Inr lvm' \<and>
         v < length ?part \<and> spec_optimal_victim ?part trace k = Some v \<and>
         ((\<exists>i<length ?part. next_access trace k (?part ! i) = None) \<longrightarrow>
            next_access trace k (?part ! v) = None \<and> (\<forall>i<v. next_access trace k (?part ! i) \<noteq> None)) \<and>
         ((\<forall>i<length ?part. next_access trace k (?part ! i) \<noteq> None) \<longrightarrow>
            (\<forall>i<length ?part. the (next_access trace k (?part ! i)) \<le> the (next_access trace k (?part ! v)))) \<and>
         l_memory (l_frame_status lvm') = (l_memory (l_frame_status lvm))[nat pid := ?part[v := (pid, pg)]] \<and>
         pt_lookup (l_page_tables lvm') pid pg = Some v \<and>
         pt_lookup (l_page_tables lvm') pid (snd (?part ! v)) = None"
      using s(1,4,6) ch l1 l2 by (intro exI[of _ v] exI[of _ lvm']) simp
  qed
qed

theorem C5_optimal_eviction_witness:
  "\<exists>gvm gvm' lvm lvm'.
     G_run_prefix (\<lambda>_. 0) 4096 4 ''optimal'' optimal_trace 4 = Inr gvm \<and>
     L_run_prefix (\<lambda>_. 0) 4096 4 ''optimal'' optimal_trace 4 = Inr lvm \<and>
     g_memory (g_frame_status gvm) = [(0, 1), (0, 2), (0, 3), (0, 4)] \<and>
     G_handleAccess (\<lambda>_. 0) 0 5 optimal_trace 4 gvm = Inr gvm' \<and>
     g_memory (g_frame_status gvm') = [(0, 1), (0, 5), (0, 3), (0, 4)] \<and>
     l_memory (l_frame_status lvm) ! 0 = [(0, 4)] \<and>
     L_handleAccess (\<lambda>_. 0) 0 5 optimal_trace 4 lvm = Inr lvm' \<and>
     l_memory (l_frame_status lvm') ! 0 = [(0, 5)]"
proof -
  let ?G = "G_run_prefix (\<lambda>_. 0) 4096 4 ''optimal'' optimal_trace 4"
  let ?L = "L_run_prefix (\<lambda>_. 0) 4096 4 ''optimal'' optimal_trace 4"
  have g: "G_frames ?G = [(0, 1), (0, 2), (0, 3), (0, 4)]" by code_simp
  have l: "L_frames ?L = [[(0, 4)], [(-1, 0)], [(-1, 0)], [(-1, 0)]]" by code_simp
  from g obtain gvm where gr: "?G = Inr gvm"
    and gm: "g_memory (g_frame_status gvm) = [(0, 1), (0, 2), (0, 3), (0, 4)]"
    by (auto simp: G_frames_def split: sum.splits)
  from l obtain lvm where lr: "?L = Inr lvm"
    and lm: "l_memory (l_frame_status lvm) = [[(0, 4)], [(-1, 0)], [(-1, 0)], [(-1, 0)]]"
    by (auto simp: L_frames_def split: sum.splits)
  have len: "(4::nat) < length optimal_trace" by (simp add: optimal_trace_def)
  have v0: "valid_pid 0" by (simp add: valid_pid_def)
  have gfull: "region_full (g_memory (g_frame_status gvm))" by (simp add: gm region_full_def is_free_def)
  have lfull: "region_full (l_memory (l_frame_status lvm) ! nat 0)" by (simp add: lm region_full_def is_free_def)
  have gb: "G_bijection gvm" using G_run_prefix_inv[of 4 "\<lambda>_. 0" 4096 "''optimal''" optimal_trace 4 gvm] gr
    by (simp add: G_inv_def)
  have "pt_lookup (g_page_tables gvm) 0 5 \<noteq> Some f" for f
  proof
    assume "pt_lookup (g_page_tables gvm) 0 5 = Some f"
    then have f: "f < 4" "[(0, 1), (0, 2), (0, 3), (0::int, 4::64 word)] ! f = (0, 5)"
      using gb v0 gm by (auto simp: G_bijection_def)
    from f(1) consider "f = 0" | "f = 1" | "f = 2" | "f = 3" by linarith
    then show False using f(2) by cases simp_all
  qed
  then have gmiss: "pt_lookup (g_page_tables gvm) 0 5 = None"
    by (cases "pt_lookup (g_page_tables gvm) 0 5") auto
  have lb: "L_bijection lvm" using L_run_prefix_inv[of 4 "\<lambda>_. 0" 4096 "''optimal''" optimal_trace 4 lvm] lr
    by (simp add: L_inv_def)
  have "pt_lookup (l_page_tables lvm) 0 5 \<noteq> Some f" for f
    using lb v0 unfolding L_bijection_def by (cases f) (simp_all add: lm)
  then have lmiss: "pt_lookup (l_page_tables lvm) 0 5 = None"
    by (cases "pt_lookup (l_page_tables lvm) 0 5") auto
  have sg: "spec_optimal_victim [(0, 1), (0, 2), (0, 3), (0, 4)] optimal_trace 4 = Some 1" by code_simp
  have sl: "spec_optimal_victim [(0, 4)] optimal_trace 4 = Some 0" by code_simp
  have cd: "c_div 4 4 \<noteq> 0" by (simp add: c_div_def)
  note c = C5_optimal_eviction[of 4 4 optimal_trace "\<lambda>_. 0" 4096 gvm 0 5 lvm]
  from c gr len v0 gmiss gfull obtain v gvm' where
    g': "G_handleAccess (\<lambda>_. 0) 0 5 optimal_trace 4 gvm = Inr gvm'"
        "spec_optimal_victim (g_memory (g_frame_status gvm)) optimal_trace 4 = Some v"
        "g_memory (g_frame_status gvm') = (g_memory (g_frame_status gvm))[v := (0, 5)]"
    by auto
  have "v = 1" using g'(2) by (simp add: gm sg)
  then have gm': "g_memory (g_frame_status gvm') = [(0, 1), (0, 5), (0, 3), (0, 4)]"
    using g'(3) by (simp add: gm)
  from c cd lr len v0 lmiss lfull obtain w lvm' where
    l': "L_handleAccess (\<lambda>_. 0) 0 5 optimal_trace 4 lvm = Inr lvm'"
        "spec_optimal_victim (l_memory (l_frame_status lvm) ! nat 0) optimal_trace 4 = Some w"
        "l_memory (l_frame_status lvm') =
           (l_memory (l_frame_status lvm))[nat 0 := (l_memory (l_frame_status lvm) ! nat 0)[w := (0, 5)]]"
    by auto
  have "w = 0" using l'(2) by (simp add: lm sl)
  then have lm': "l_memory (l_frame_status lvm') ! 0 = [(0, 5)]"
    using l'(3) by (simp add: lm)
  show ?thesis using gr lr gm g'(1) gm' lm l'(1) lm' by auto
qed

text \<open>
  C4 (FIFO eviction rule) fails when the region has no frame: in the shared-pool engine
  at the frame count 0, and in the partitioned engine at a frame count below 4 (here 3),
  where every partition has \<^verbatim>\<open>3 / 4 = 0\<close> frames.  Under \<open>fifo\<close> the first access of the
  sample trace misses while the region is fully occupied, and nothing is evicted: the
  shared-pool engine reads \<^verbatim>\<open>memory[0]\<close> of an empty vector in \<^verbatim>\<open>allocateFrame\<close>, and
  \<^verbatim>\<open>fifoReplacement\<close> of the partitioned engine reads frame 0 of an empty partition.
\<close>

theorem C4_fifo_counterexample:
  "\<exists>gvm lvm.
     G_run_prefix (\<lambda>_. 0) 4096 0 ''fifo'' sample_trace 0 = Inr gvm \<and> valid_pid 0 \<and>
     pt_lookup (g_page_tables gvm) 0 1 = None \<and> region_full (g_memory (g_frame_status gvm)) \<and>
     G_handleAccess (\<lambda>_. 0) 0 1 sample_trace 0 gvm = Inl FrameOutOfRange \<and>
     L_run_prefix (\<lambda>_. 0) 4096 3 ''fifo'' sample_trace 0 = Inr lvm \<and>
     pt_lookup (l_page_tables lvm) 0 1 = None \<and> region_full (l_memory (l_frame_status lvm) ! nat 0) \<and>
     L_fifoReplacement 0 1 (l_frame_status lvm) = Inl FrameOutOfRange \<and>
     L_handleAccess (\<lambda>_. 0) 0 1 sample_trace 0 lvm = Inl FrameOutOfRange"
proof -
  have "case G_run_prefix (\<lambda>_. 0) 4096 0 ''fifo'' sample_trace 0 of
          Inl e \<Rightarrow> False
        | Inr gvm \<Rightarrow>
            pt_lookup (g_page_tables gvm) 0 1 = None \<and> region_full (g_memory (g_frame_status gvm)) \<and>
            G_faults (G_handleAccess (\<lambda>_. 0) 0 1 sample_trace 0 gvm) = Inl FrameOutOfRange"
    by code_simp
  moreover have "case L_run_prefix (\<lambda>_. 0) 4096 3 ''fifo'' sample_trace 0 of
          Inl e \<Rightarrow> False
        | Inr lvm \<Rightarrow>
            pt_lookup (l_page_tables lvm) 0 1 = None \<and> region_full (l_memory (l_frame_status lvm) ! nat 0) \<and>
            (case L_fifoReplacement 0 1 (l_frame_status lvm) of
               Inl e \<Rightarrow> e = FrameOutOfRange | Inr x \<Rightarrow> False) \<and>
            L_faults (L_handleAccess (\<lambda>_. 0) 0 1 sample_trace 0 lvm) = Inl FrameOutOfRange"
    by code_simp
  moreover have "valid_pid 0" by (simp add: valid_pid_def)
  ultimately show ?thesis by (auto simp: G_faults_def L_faults_def split: sum.splits)
qed

text \<open>
  C4 (FIFO eviction rule), amended.  In every state a run reaches under the policy
  \<open>fifo\<close>, in the shared-pool engine with a frame count other than 0 and in the
  partitioned engine with a frame count whose quotient by 4 is not 0 (at least four
  frames; a negative count makes the constructor fail or leaves the partitions without
  a frame), when an access misses and the region its process can reach is full:
  \<^verbatim>\<open>fifoReplacement\<close> returns the (process, page, frame) triple of the frame \<open>c\<close> at the
  rotation cursor of the region; that frame is the oldest-assigned of the region (no
  frame of the region was last written earlier); \<^verbatim>\<open>handleAccess\<close> installs the new pair in
  frame \<open>c\<close>, maps the new page to \<open>c\<close>, unmaps the displaced page, and leaves the cursor
  at \<open>(c + 1) mod\<close> the region size.
\<close>

theorem C4_fifo_eviction:
  "(nf \<noteq> 0 \<and> k \<le> length trace \<and> G_run_prefix rnd ps nf ''fifo'' trace k = Inr gvm \<and>
    valid_pid pid \<and> pt_lookup (g_page_tables gvm) pid pg = None \<and>
    region_full (g_memory (g_frame_status gvm)) \<longrightarrow>
      (\<exists>gvm' fs'.
         G_fifoReplacement pid pg (g_frame_status gvm) =
           Inr ((fst (g_memory (g_frame_status gvm) ! g_nextFrame (g_frame_status gvm)),
                 snd (g_memory (g_frame_status gvm) ! g_nextFrame (g_frame_status gvm)),
                 g_nextFrame (g_frame_status gvm)), fs') \<and>
         g_nextFrame (g_frame_status gvm) < length (g_memory (g_frame_status gvm)) \<and>
         (\<forall>f < length (g_memory (g_frame_status gvm)).
            assigned_at (\<lambda>j. G_frames (G_run_prefix rnd ps nf ''fifo'' trace j)) k (g_nextFrame (g_frame_status gvm))
              \<le> assigned_at (\<lambda>j. G_frames (G_run_prefix rnd ps nf ''fifo'' trace j)) k f) \<and>
         G_handleAccess rnd pid pg trace i gvm = Inr gvm' \<and>
         g_memory (g_frame_status gvm') =
           (g_memory (g_frame_status gvm))[g_nextFrame (g_frame_status gvm) := (pid, pg)] \<and>
         g_nextFrame (g_frame_status gvm') =
           (g_nextFrame (g_frame_status gvm) + 1) mod length (g_memory (g_frame_status gvm)) \<and>
         pt_lookup (g_page_tables gvm') pid pg = Some (g_nextFrame (g_frame_status gvm)) \<and>
         pt_lookup (g_page_tables gvm')
           (fst (g_memory (g_frame_status gvm) ! g_nextFrame (g_frame_status gvm)))
           (snd (g_memory (g_frame_status gvm) ! g_nextFrame (g_frame_status gvm))) = None)) \<and>
   (c_div nf 4 \<noteq> 0 \<and> k \<le> length trace \<and> L_run_prefix rnd ps nf ''fifo'' trace k = Inr lvm \<and>
    valid_pid pid \<and> pt_lookup (l_page_tables lvm) pid pg = None \<and>
    region_full (l_memory (l_frame_status lvm) ! nat pid) \<longrightarrow>
      (\<exists>lvm' fs'.
         L_fifoReplacement pid pg (l_frame_status lvm) =
           Inr ((fst (l_memory (l_frame_status lvm) ! nat pid ! (l_nextFrame (l_frame_status lvm) ! nat pid)),
                 snd (l_memory (l_frame_status lvm) ! nat pid ! (l_nextFrame (l_frame_status lvm) ! nat pid)),
                 l_nextFrame (l_frame_status lvm) ! nat pid), fs') \<and>
         l_nextFrame (l_frame_status lvm) ! nat pid < length (l_memory (l_frame_status lvm) ! nat pid) \<and>
         (\<forall>f < length (l_memory (l_frame_status lvm) ! nat pid).
            assigned_at (\<lambda>j. L_frames (L_run_prefix rnd ps nf ''fifo'' trace j) ! nat pid) k
                        (l_nextFrame (l_frame_status lvm) ! nat pid)
              \<le> assigned_at (\<lambda>j. L_frames (L_run_prefix rnd ps nf ''fifo'' trace j) ! nat pid) k f) \<and>
         L_handleAccess rnd pid pg trace i lvm = Inr lvm' \<and>
         l_memory (l_frame_status lvm') ! nat pid =
           (l_memory (l_frame_status lvm) ! nat pid)[l_nextFrame (l_frame_status lvm) ! nat pid := (pid, pg)] \<and>
         l_nextFrame (l_frame_status lvm') ! nat pid =
           (l_nextFrame (l_frame_status lvm) ! nat pid + 1) mod length (l_memory (l_frame_status lvm) ! nat pid) \<and>
         pt_lookup (l_page_tables lvm') pid pg = Some (l_nextFrame (l_frame_status lvm) ! nat pid) \<and>
         pt_lookup (l_page_tables lvm') pid
           (snd (l_memory (l_frame_status lvm) ! nat pid ! (l_nextFrame (l_frame_status lvm) ! nat pid))) = None \<and>
         fst (l_memory (l_frame_status lvm) ! nat pid ! (l_nextFrame (l_frame_status lvm) ! nat pid)) = pid))"
proof (rule conjI; rule impI)
  assume a: "nf \<noteq> 0 \<and> k \<le> length trace \<and> G_run_prefix rnd ps nf ''fifo'' trace k = Inr gvm \<and>
    valid_pid pid \<and> pt_lookup (g_page_tables gvm) pid pg = None \<and>
    region_full (g_memory (g_frame_status gvm))"
  let ?fs = "g_frame_status gvm"
  let ?mem = "g_memory ?fs" and ?c = "g_nextFrame ?fs"
  let ?A = "assigned_at (\<lambda>j. G_frames (G_run_prefix rnd ps nf ''fifo'' trace j)) k"
  have nf: "1 \<le> nf" using G_run_prefix_frames[of rnd ps nf "''fifo''" trace k gvm] a by simp
  have r: "G_run_prefix rnd ps nf ''fifo'' trace k = Inr gvm"
    and pid: "valid_pid pid" and miss: "pt_lookup (g_page_tables gvm) pid pg = None"
    and full: "region_full ?mem" using a by simp_all
  have inv: "G_inv gvm" and pol: "g_replacement_policy gvm = ''fifo''"
    using G_run_prefix_inv[OF nf r] by simp_all
  have wf: "G_fs_wf ?fs" and bij: "G_bijection gvm" and eok: "entries_ok ?mem"
    using inv by (simp_all add: G_inv_def)
  have cl: "?c < length ?mem" and n: "length ?mem = g_memoryFrames ?fs" using wf by (simp_all add: G_fs_wf_def)
  from G_fifoReplacement_ok[OF wf, of pid pg] obtain fs' where
    t: "G_fifoReplacement pid pg ?fs = Inr ((fst (?mem ! ?c), snd (?mem ! ?c), ?c), fs')" by blast
  have old: "\<forall>f < length ?mem. ?A ?c \<le> ?A f"
    using oldest_inv_oldest[OF G_fifo_oldest[OF nf r] full cl] by simp
  have kp: "known_policy (g_replacement_policy gvm)" using pol by (simp add: known_policy_def)
  from G_step_evict[OF inv pid miss full kp, of rnd trace i] pol obtain gvm' where
    s: "G_handleAccess rnd pid pg trace i gvm = Inr gvm'"
       "g_memory (g_frame_status gvm') = ?mem[?c := (pid, pg)]"
       "g_nextFrame (g_frame_status gvm') = (?c + 1) mod g_memoryFrames ?fs"
       "\<forall>P p. valid_pid P \<longrightarrow> pt_lookup (g_page_tables gvm') P p =
          (if P = pid \<and> p = pg then Some ?c
           else if P = fst (?mem ! ?c) \<and> p = snd (?mem ! ?c) then None else pt_lookup (g_page_tables gvm) P p)"
    by auto
  have occ: "\<not> is_free (?mem ! ?c)" using full cl by (simp add: region_full_iff)
  have ov: "valid_pid (fst (?mem ! ?c))" using eok occ cl by (auto simp: entries_ok_def)
  have ne: "?mem ! ?c \<noteq> (pid, pg)"
    using bij pid miss cl unfolding G_bijection_def by (metis option.distinct(1))
  have l1: "pt_lookup (g_page_tables gvm') pid pg = Some ?c" using s(4) pid by simp
  have l2: "pt_lookup (g_page_tables gvm') (fst (?mem ! ?c)) (snd (?mem ! ?c)) = None"
    using s(4)[rule_format, OF ov, of "snd (?mem ! ?c)"] ne by (auto simp: prod_eq_iff)
  show "\<exists>gvm' fs'.
         G_fifoReplacement pid pg ?fs = Inr ((fst (?mem ! ?c), snd (?mem ! ?c), ?c), fs') \<and>
         ?c < length ?mem \<and> (\<forall>f < length ?mem. ?A ?c \<le> ?A f) \<and>
         G_handleAccess rnd pid pg trace i gvm = Inr gvm' \<and>
         g_memory (g_frame_status gvm') = ?mem[?c := (pid, pg)] \<and>
         g_nextFrame (g_frame_status gvm') = (?c + 1) mod length ?mem \<and>
         pt_lookup (g_page_tables gvm') pid pg = Some ?c \<and>
         pt_lookup (g_page_tables gvm') (fst (?mem ! ?c)) (snd (?mem ! ?c)) = None"
    using t cl old s(1,2,3) l1 l2 n by (intro exI[of _ gvm'] exI[of _ fs']) simp
next
  assume a: "c_div nf 4 \<noteq> 0 \<and> k \<le> length trace \<and> L_run_prefix rnd ps nf ''fifo'' trace k = Inr lvm \<and>
    valid_pid pid \<and> pt_lookup (l_page_tables lvm) pid pg = None \<and>
    region_full (l_memory (l_frame_status lvm) ! nat pid)"
  let ?fs = "l_frame_status lvm"
  let ?part = "l_memory ?fs ! nat pid" and ?c = "l_nextFrame ?fs ! nat pid"
  let ?A = "assigned_at (\<lambda>j. L_frames (L_run_prefix rnd ps nf ''fifo'' trace j) ! nat pid) k"
  have nf: "4 \<le> nf"
    using c_div_4_pos[OF L_run_prefix_frames[of rnd ps nf "''fifo''" trace k lvm]] a by simp
  have r: "L_run_prefix rnd ps nf ''fifo'' trace k = Inr lvm"
    and pid: "valid_pid pid" and miss: "pt_lookup (l_page_tables lvm) pid pg = None"
    and full: "region_full ?part" using a by simp_all
  have inv: "L_inv lvm" and pol: "l_replacement_policy lvm = ''fifo''"
    using L_run_prefix_inv[OF nf r] by simp_all
  have wf: "L_fs_wf ?fs" and bij: "L_bijection lvm" using inv by (simp_all add: L_inv_def)
  note w = L_wf_facts[OF wf pid]
  have cl: "?c < length ?part" using w(4,5) by simp
  from L_fifoReplacement_ok[OF wf pid, of pg] obtain fs' where
    t: "L_fifoReplacement pid pg ?fs = Inr ((fst (?part ! ?c), snd (?part ! ?c), ?c), fs')" by blast
  have old: "\<forall>f < length ?part. ?A ?c \<le> ?A f"
    using oldest_inv_oldest[OF L_fifo_oldest[OF nf pid r] full cl] by simp
  have kp: "known_policy (l_replacement_policy lvm)" using pol by (simp add: known_policy_def)
  from L_step_evict[OF inv pid miss full kp, of rnd trace i] pol obtain lvm' where
    s: "L_handleAccess rnd pid pg trace i lvm = Inr lvm'"
       "fst (?part ! ?c) = pid"
       "l_memory (l_frame_status lvm') = (l_memory ?fs)[nat pid := ?part[?c := (pid, pg)]]"
       "l_nextFrame (l_frame_status lvm') = (l_nextFrame ?fs)[nat pid := (?c + 1) mod l_memoryFramesPerProcess ?fs]"
       "\<forall>P p. valid_pid P \<longrightarrow> pt_lookup (l_page_tables lvm') P p =
          (if P = pid \<and> p = pg then Some ?c
           else if P = pid \<and> p = snd (?part ! ?c) then None else pt_lookup (l_page_tables lvm) P p)"
    by auto
  have ne: "?part ! ?c \<noteq> (pid, pg)"
    using bij pid miss cl unfolding L_bijection_def by (metis option.distinct(1))
  then have ne2: "snd (?part ! ?c) \<noteq> pg" using s(2) by (auto simp: prod_eq_iff)
  have l1: "pt_lookup (l_page_tables lvm') pid pg = Some ?c" using s(5) pid by simp
  have l2: "pt_lookup (l_page_tables lvm') pid (snd (?part ! ?c)) = None"
    using s(5)[rule_format, OF pid, of "snd (?part ! ?c)"] ne2 by simp
  have m': "l_memory (l_frame_status lvm') ! nat pid = ?part[?c := (pid, pg)]"
    using s(3) w(7) by simp
  have c': "l_nextFrame (l_frame_status lvm') ! nat pid = (?c + 1) mod length ?part"
    using s(4) w(4,9) by simp
  show "\<exists>lvm' fs'.
         L_fifoReplacement pid pg ?fs = Inr ((fst (?part ! ?c), snd (?part ! ?c), ?c), fs') \<and>
         ?c < length ?part \<and> (\<forall>f < length ?part. ?A ?c \<le> ?A f) \<and>
         L_handleAccess rnd pid pg trace i lvm = Inr lvm' \<and>
         l_memory (l_frame_status lvm') ! nat pid = ?part[?c := (pid, pg)] \<and>
         l_nextFrame (l_frame_status lvm') ! nat pid = (?c + 1) mod length ?part \<and>
         pt_lookup (l_page_tables lvm') pid pg = Some ?c \<and>
         pt_lookup (l_page_tables lvm') pid (snd (?part ! ?c)) = None \<and>
         fst (?part ! ?c) = pid"
    using t cl old s(1,2) m' c' l1 l2 by (intro exI[of _ lvm'] exI[of _ fs']) simp
qed

theorem C4_fifo_eviction_witness:
  "\<exists>gvm gvm' lvm lvm'.
     G_run_prefix (\<lambda>_. 0) 4096 4 ''fifo'' sample_trace 4 = Inr gvm \<and>
     L_run_prefix (\<lambda>_. 0) 4096 4 ''fifo'' sample_trace 4 = Inr lvm \<and>
     g_memory (g_frame_status gvm) = [(0, 1), (1, 1), (1, 2), (1, 3)] \<and> g_nextFrame (g_frame_status gvm) = 0 \<and>
     G_handleAccess (\<lambda>_. 0) 1 4 sample_trace 4 gvm = Inr gvm' \<and>
     g_memory (g_frame_status gvm') = [(1, 4), (1, 1), (1, 2), (1, 3)] \<and> g_nextFrame (g_frame_status gvm') = 1 \<and>
     assigned_at (\<lambda>j. G_frames (G_run_prefix (\<lambda>_. 0) 4096 4 ''fifo'' sample_trace j)) 4 0
       \<le> assigned_at (\<lambda>j. G_frames (G_run_prefix (\<lambda>_. 0) 4096 4 ''fifo'' sample_trace j)) 4 3 \<and>
     l_memory (l_frame_status lvm) ! 1 = [(1, 3)] \<and> l_nextFrame (l_frame_status lvm) ! 1 = 0 \<and>
     L_handleAccess (\<lambda>_. 0) 1 4 sample_trace 4 lvm = Inr lvm' \<and>
     l_memory (l_frame_status lvm') ! 1 = [(1, 4)] \<and> l_nextFrame (l_frame_status lvm') ! 1 = 0"
proof -
  let ?G = "G_run_prefix (\<lambda>_. 0) 4096 4 ''fifo'' sample_trace 4"
  let ?L = "L_run_prefix (\<lambda>_. 0) 4096 4 ''fifo'' sample_trace 4"
  have g: "G_frames ?G = [(0, 1), (1, 1), (1, 2), (1, 3)] \<and> G_cursor ?G = 0" by code_simp
  have l: "L_frames ?L = [[(0, 1)], [(1, 3)], [(-1, 0)], [(-1, 0)]] \<and> L_cursors ?L = [0, 0, 0, 0]" by code_simp
  from g obtain gvm where gr: "?G = Inr gvm"
    and gm: "g_memory (g_frame_status gvm) = [(0, 1), (1, 1), (1, 2), (1, 3)]"
    and gc: "g_nextFrame (g_frame_status gvm) = 0"
    by (auto simp: G_frames_def G_cursor_def split: sum.splits)
  from l obtain lvm where lr: "?L = Inr lvm"
    and lm: "l_memory (l_frame_status lvm) = [[(0, 1)], [(1, 3)], [(-1, 0)], [(-1, 0)]]"
    and lc: "l_nextFrame (l_frame_status lvm) = [0, 0, 0, 0]"
    by (auto simp: L_frames_def L_cursors_def split: sum.splits)
  have len: "(4::nat) \<le> length sample_trace" by (simp add: sample_trace_def)
  have v1: "valid_pid 1" by (simp add: valid_pid_def)
  have gfull: "region_full (g_memory (g_frame_status gvm))" by (simp add: gm region_full_def is_free_def)
  have lfull: "region_full (l_memory (l_frame_status lvm) ! nat 1)" by (simp add: lm region_full_def is_free_def)
  have gb: "G_bijection gvm" using G_run_prefix_inv[of 4 "\<lambda>_. 0" 4096 "''fifo''" sample_trace 4 gvm] gr
    by (simp add: G_inv_def)
  have "pt_lookup (g_page_tables gvm) 1 4 \<noteq> Some f" for f
  proof
    assume "pt_lookup (g_page_tables gvm) 1 4 = Some f"
    then have f: "f < 4" "[(0, 1), (1, 1), (1, 2), (1::int, 3::64 word)] ! f = (1, 4)"
      using gb v1 gm by (auto simp: G_bijection_def)
    from f(1) consider "f = 0" | "f = 1" | "f = 2" | "f = 3" by linarith
    then show False using f(2) by cases simp_all
  qed
  then have gmiss: "pt_lookup (g_page_tables gvm) 1 4 = None"
    by (cases "pt_lookup (g_page_tables gvm) 1 4") auto
  have lb: "L_bijection lvm" using L_run_prefix_inv[of 4 "\<lambda>_. 0" 4096 "''fifo''" sample_trace 4 lvm] lr
    by (simp add: L_inv_def)
  have "pt_lookup (l_page_tables lvm) 1 4 \<noteq> Some f" for f
    using lb v1 unfolding L_bijection_def by (cases f) (simp_all add: lm)
  then have lmiss: "pt_lookup (l_page_tables lvm) 1 4 = None"
    by (cases "pt_lookup (l_page_tables lvm) 1 4") auto
  have cd: "c_div 4 4 \<noteq> 0" by (simp add: c_div_def)
  note c = C4_fifo_eviction[of 4 4 sample_trace "\<lambda>_. 0" 4096 gvm 1 4 4 lvm]
  from c gr len v1 gmiss gfull obtain gvm' where
    g': "G_handleAccess (\<lambda>_. 0) 1 4 sample_trace 4 gvm = Inr gvm'"
        "g_memory (g_frame_status gvm') = (g_memory (g_frame_status gvm))[g_nextFrame (g_frame_status gvm) := (1, 4)]"
        "g_nextFrame (g_frame_status gvm') =
           (g_nextFrame (g_frame_status gvm) + 1) mod length (g_memory (g_frame_status gvm))"
        "\<forall>f < length (g_memory (g_frame_status gvm)).
            assigned_at (\<lambda>j. G_frames (G_run_prefix (\<lambda>_. 0) 4096 4 ''fifo'' sample_trace j)) 4 (g_nextFrame (g_frame_status gvm))
              \<le> assigned_at (\<lambda>j. G_frames (G_run_prefix (\<lambda>_. 0) 4096 4 ''fifo'' sample_trace j)) 4 f"
    by auto
  have gm': "g_memory (g_frame_status gvm') = [(1, 4), (1, 1), (1, 2), (1, 3)]"
    using g'(2) by (simp add: gm gc)
  have gc': "g_nextFrame (g_frame_status gvm') = 1" using g'(3) by (simp add: gm gc)
  have ga: "assigned_at (\<lambda>j. G_frames (G_run_prefix (\<lambda>_. 0) 4096 4 ''fifo'' sample_trace j)) 4 0
       \<le> assigned_at (\<lambda>j. G_frames (G_run_prefix (\<lambda>_. 0) 4096 4 ''fifo'' sample_trace j)) 4 3"
    using g'(4) by (simp add: gm gc)
  from c cd lr len v1 lmiss lfull obtain lvm' where
    l': "L_handleAccess (\<lambda>_. 0) 1 4 sample_trace 4 lvm = Inr lvm'"
        "l_memory (l_frame_status lvm') ! nat 1 =
           (l_memory (l_frame_status lvm) ! nat 1)[l_nextFrame (l_frame_status lvm) ! nat 1 := (1, 4)]"
        "l_nextFrame (l_frame_status lvm') ! nat 1 =
           (l_nextFrame (l_frame_status lvm) ! nat 1 + 1) mod length (l_memory (l_frame_status lvm) ! nat 1)"
    by auto
  have lm': "l_memory (l_frame_status lvm') ! 1 = [(1, 4)]" using l'(2) by (simp add: lm lc)
  have lc': "l_nextFrame (l_frame_status lvm') ! 1 = 0" using l'(3) by (simp add: lm lc)
  have lm1: "l_memory (l_frame_status lvm) ! 1 = [(1, 3)]" by (simp add: lm)
  have lc1: "l_nextFrame (l_frame_status lvm) ! 1 = 0" by (simp add: lc)
  show ?thesis
    using gr lr gm gc g'(1) gm' gc' ga lm1 lc1 l'(1) lm' lc' by blast
qed

text \<open>
  C8 (Optimal minimality).  For every trace, every frame count and either engine: when
  the run under \<^verbatim>\<open>fifo\<close>, \<^verbatim>\<open>lru\<close> or \<^verbatim>\<open>random\<close> (with any sequence \<open>rnd\<close> of random draws)
  ends with a global fault count \<open>b\<close>, the run under \<^verbatim>\<open>optimal\<close> on the same input ends
  with a global fault count \<open>a\<close> as well, and \<open>a \<le> b\<close>.
\<close>

theorem C8_optimal_minimality:
  assumes "policy = ''fifo'' \<or> policy = ''lru'' \<or> policy = ''random''"
  shows "(\<forall>b. G_faults (G_runSimulation rnd ps nf policy tr) = Inr b \<longrightarrow>
            (\<exists>a. G_faults (G_runSimulation rnd' ps nf ''optimal'' tr) = Inr a \<and> a \<le> b)) \<and>
         (\<forall>b. L_faults (L_runSimulation rnd ps nf policy tr) = Inr b \<longrightarrow>
            (\<exists>a. L_faults (L_runSimulation rnd' ps nf ''optimal'' tr) = Inr a \<and> a \<le> b))"
proof -
  have kp: "known_policy policy" using assms by (auto simp: known_policy_def)
  have 1: "\<exists>a. G_faults (G_runSimulation rnd' ps nf ''optimal'' tr) = Inr a \<and> a \<le> b"
    if "G_faults (G_runSimulation rnd ps nf policy tr) = Inr b" for b
  proof -
    from that obtain vm where r: "G_runSimulation rnd ps nf policy tr = Inr vm"
      and b: "g_global_page_fault_count vm = b"
      unfolding G_faults_def by (auto split: sum.splits)
    from G_optimal_least[OF kp r, of rnd'] show ?thesis unfolding G_faults_def b by auto
  qed
  have 2: "\<exists>a. L_faults (L_runSimulation rnd' ps nf ''optimal'' tr) = Inr a \<and> a \<le> b"
    if "L_faults (L_runSimulation rnd ps nf policy tr) = Inr b" for b
  proof -
    from that obtain vm where r: "L_runSimulation rnd ps nf policy tr = Inr vm"
      and b: "l_global_page_fault_count vm = b"
      unfolding L_faults_def by (auto split: sum.splits)
    from L_optimal_least[OF kp r, of rnd'] show ?thesis unfolding L_faults_def b by auto
  qed
  show ?thesis using 1 2 by blast
qed

theorem C8_optimal_minimality_witness:
  "G_faults (G_runSimulation (\<lambda>_. 0) 4096 3 ''fifo'' (belady_trace 0)) = Inr 9 \<and>
   (\<exists>a. G_faults (G_runSimulation (\<lambda>_. 0) 4096 3 ''optimal'' (belady_trace 0)) = Inr a \<and> a \<le> 9) \<and>
   L_faults (L_runSimulation (\<lambda>_. 0) 4096 12 ''fifo'' (belady_trace 0)) = Inr 9 \<and>
   (\<exists>a. L_faults (L_runSimulation (\<lambda>_. 0) 4096 12 ''optimal'' (belady_trace 0)) = Inr a \<and> a \<le> 9)"
proof -
  have g: "G_faults (G_runSimulation (\<lambda>_. 0) 4096 3 ''fifo'' (belady_trace 0)) = Inr 9" by code_simp
  have l: "L_faults (L_runSimulation (\<lambda>_. 0) 4096 12 ''fifo'' (belady_trace 0)) = Inr 9" by code_simp
  note a = C8_optimal_minimality[of "''fifo''" "\<lambda>_. 0" 4096 3 "belady_trace 0" "\<lambda>_. 0"]
  note b = C8_optimal_minimality[of "''fifo''" "\<lambda>_. 0" 4096 12 "belady_trace 0" "\<lambda>_. 0"]
  have 1: "\<exists>a. G_faults (G_runSimulation (\<lambda>_. 0) 4096 3 ''optimal'' (belady_trace 0)) = Inr a \<and> a \<le> 9"
    using a g by blast
  have 2: "\<exists>a. L_faults (L_runSimulation (\<lambda>_. 0) 4096 12 ''optimal'' (belady_trace 0)) = Inr a \<and> a \<le> 9"
    using b l by blast
  show ?thesis using g l 1 2 by blast
qed

text \<open>
  C9 (Global-vs-Local dominance) fails for \<^verbatim>\<open>fifo\<close> and \<^verbatim>\<open>lru\<close>: on the sample trace with
  four frames the shared pool has six faults and the partitions have five.  Process 1
  pushes the page of process 0 out of the shared pool, while the partition of process 0
  keeps it.
\<close>

theorem C9_dominance_counterexample:
  "G_faults (G_runSimulation (\<lambda>_. 0) 4096 4 ''fifo'' sample_trace) = Inr 6 \<and>
   L_faults (L_runSimulation (\<lambda>_. 0) 4096 4 ''fifo'' sample_trace) = Inr 5 \<and>
   G_faults (G_runSimulation (\<lambda>_. 0) 4096 4 ''lru'' sample_trace) = Inr 6 \<and>
   L_faults (L_runSimulation (\<lambda>_. 0) 4096 4 ''lru'' sample_trace) = Inr 5"
  by code_simp

text \<open>
  C9, amended: the dominance holds under the policy \<^verbatim>\<open>optimal\<close>.  For every trace and
  every total frame count: when the Local run under \<^verbatim>\<open>optimal\<close> ends with a global fault
  count \<open>b\<close>, every global fault count \<open>a\<close> of the Global run with the same arguments has
  \<open>a \<le> b\<close>, and the Global run does end with a count when the frame count is not negative.
\<close>

theorem C9_dominance_optimal:
  assumes "L_faults (L_runSimulation rnd ps nf ''optimal'' tr) = Inr b"
  shows "(0 \<le> nf \<longrightarrow> (\<exists>a. G_faults (G_runSimulation rnd' ps nf ''optimal'' tr) = Inr a)) \<and>
         (\<forall>a. G_faults (G_runSimulation rnd' ps nf ''optimal'' tr) = Inr a \<longrightarrow> a \<le> b)"
proof -
  from assms obtain lvm where r: "L_runSimulation rnd ps nf ''optimal'' tr = Inr lvm"
    and b: "l_global_page_fault_count lvm = b"
    unfolding L_faults_def by (auto split: sum.splits)
  note d = G_le_L_optimal[OF r, of rnd']
  have 1: "0 \<le> nf \<longrightarrow> (\<exists>a. G_faults (G_runSimulation rnd' ps nf ''optimal'' tr) = Inr a)"
    using d unfolding G_faults_def by auto
  have 2: "\<forall>a. G_faults (G_runSimulation rnd' ps nf ''optimal'' tr) = Inr a \<longrightarrow> a \<le> b"
    using d b unfolding G_faults_def by (auto split: sum.splits)
  show ?thesis using 1 2 by blast
qed

theorem C9_dominance_optimal_witness:
  "L_faults (L_runSimulation (\<lambda>_. 0) 4096 4 ''optimal'' optimal_trace) = Inr 6 \<and>
   (\<exists>a. G_faults (G_runSimulation (\<lambda>_. 0) 4096 4 ''optimal'' optimal_trace) = Inr a \<and> a \<le> 6)"
proof -
  have l: "L_faults (L_runSimulation (\<lambda>_. 0) 4096 4 ''optimal'' optimal_trace) = Inr 6" by code_simp
  note c = C9_dominance_optimal[OF l, of "\<lambda>_. 0"]
  then obtain a where "G_faults (G_runSimulation (\<lambda>_. 0) 4096 4 ''optimal'' optimal_trace) = Inr a"
    by auto
  then show ?thesis using l c by blast
qed

end
